(* ===== verification/Ams_Prelude.thy ===== *)
theory Ams_Prelude
  imports Main "HOL-Library.Word" "HOL-Library.AList"
begin

text \<open>
  Shared vocabulary of the development: the machine integers and the newtypes of
  \<^verbatim>\<open>pg-storage/src/types.rs\<close>, the three-way outcome of a Rust function that returns
  \<^verbatim>\<open>Result\<close> and may also panic, hash maps as association lists, byte slices, and
  the little-endian codecs every on-disk format uses.  The generic lemmas are collected
  in \<open>hmap_simps\<close> (hash maps) and \<open>slice_simps\<close> (byte slices).
\<close>

unbundle bit_operations_syntax

named_theorems hmap_simps \<open>reading a hash map after an update\<close>
named_theorems slice_simps \<open>reading a byte slice after a write\<close>

section \<open>Machine integers and identifiers\<close>

type_synonym u8 = "8 word"
type_synonym u16 = "16 word"
type_synonym u32 = "32 word"
type_synonym u64 = "64 word"

type_synonym TxnId = u64
type_synonym Lsn = u64
type_synonym PageId = u64
type_synonym Oid = u64

text \<open>\<^verbatim>\<open>TxnId::INVALID\<close>, \<^verbatim>\<open>TxnId::FIRST\<close> and the page and LSN counterparts.\<close>

definition TxnId_INVALID :: TxnId where "TxnId_INVALID = 0"
definition TxnId_FIRST :: TxnId where "TxnId_FIRST = 1"
definition PageId_INVALID :: PageId where "PageId_INVALID = 0"
definition Lsn_INVALID :: Lsn where "Lsn_INVALID = 0"

definition PAGE_SIZE :: nat where "PAGE_SIZE = 8192"

text \<open>A tuple identifier, \<^verbatim>\<open>types.rs\<close> \<^verbatim>\<open>Tid\<close>.\<close>

record Tid =
  page_id :: PageId
  slot_id :: u16

section \<open>Outcomes\<close>

text \<open>
  A Rust function returning \<^verbatim>\<open>Result<T, E>\<close> has three outcomes: \<open>Ok\<close>,
  \<open>Err\<close>, or a panic (an out-of-range slice, an arithmetic underflow in a checked
  build, a failed \<^verbatim>\<open>expect\<close>).
\<close>

datatype ('a, 'e) outcome = Ok 'a | Err 'e | Panic

fun obind :: "('a, 'e) outcome \<Rightarrow> ('a \<Rightarrow> ('b, 'e) outcome) \<Rightarrow> ('b, 'e) outcome" where
  "obind (Ok x) f = f x"
| "obind (Err e) f = Err e"
| "obind Panic f = Panic"

lemma obind_eq_Ok [simp]: "obind m f = Ok y \<longleftrightarrow> (\<exists>x. m = Ok x \<and> f x = Ok y)"
  by (cases m) auto

lemma obind_eq_Panic: "obind m f = Panic \<longleftrightarrow> m = Panic \<or> (\<exists>x. m = Ok x \<and> f x = Panic)"
  by (cases m) auto

section \<open>Hash maps\<close>

text \<open>
  A \<^verbatim>\<open>HashMap\<close> is an association list with pairwise distinct keys.  The code only
  iterates over a map to test all its entries or to collect and then sort them, so the
  order of the list is never observed.
\<close>

type_synonym ('k, 'v) hmap = "('k \<times> 'v) list"

definition hm_ok :: "('k, 'v) hmap \<Rightarrow> bool" where
  "hm_ok m \<longleftrightarrow> distinct (map fst m)"

abbreviation hm_get :: "('k, 'v) hmap \<Rightarrow> 'k \<Rightarrow> 'v option" where
  "hm_get m k \<equiv> map_of m k"

abbreviation hm_insert :: "'k \<Rightarrow> 'v \<Rightarrow> ('k, 'v) hmap \<Rightarrow> ('k, 'v) hmap" where
  "hm_insert k v m \<equiv> AList.update k v m"

abbreviation hm_remove :: "'k \<Rightarrow> ('k, 'v) hmap \<Rightarrow> ('k, 'v) hmap" where
  "hm_remove k m \<equiv> AList.delete k m"

lemma hm_ok_Nil [simp, intro]: "hm_ok []"
  by (simp add: hm_ok_def)

lemma hm_ok_insert [simp, intro]: "hm_ok m \<Longrightarrow> hm_ok (hm_insert k v m)"
  by (simp add: hm_ok_def distinct_update)

lemma hm_ok_remove [simp, intro]: "hm_ok m \<Longrightarrow> hm_ok (hm_remove k m)"
  by (simp add: hm_ok_def distinct_delete)

lemma hm_get_insert [hmap_simps]:
  "hm_get (hm_insert k v m) j = (if j = k then Some v else hm_get m j)"
  by (simp add: update_conv)

lemma hm_get_remove [hmap_simps]:
  "hm_get (hm_remove k m) j = (if j = k then None else hm_get m j)"
  by (simp add: delete_conv)

lemma hm_get_iff_mem: "hm_ok m \<Longrightarrow> hm_get m k = Some v \<longleftrightarrow> (k, v) \<in> set m"
  by (simp add: hm_ok_def)

lemma hm_get_mem [hmap_simps]: "hm_ok m \<Longrightarrow> (k, v) \<in> set m \<Longrightarrow> hm_get m k = Some v"
  by (simp add: hm_get_iff_mem)

lemma hm_get_None_mem: "hm_get m k = None \<longleftrightarrow> (\<forall>v. (k, v) \<notin> set m)"
  by (force simp: map_of_eq_None_iff)

lemma hm_ok_filter [simp, intro]: "hm_ok m \<Longrightarrow> hm_ok (filter P m)"
  by (simp add: hm_ok_def distinct_map_filter)

lemma hm_get_filter [hmap_simps]:
  "hm_ok m \<Longrightarrow> hm_get (filter P m) k =
     (case hm_get m k of None \<Rightarrow> None | Some v \<Rightarrow> if P (k, v) then Some v else None)"
  by (induction m) (auto simp: hm_ok_def map_of_eq_None_iff split: option.splits)

lemma hm_remove_notin [simp]: "k \<notin> fst ` set (hm_remove k m)"
  by (simp add: delete_notin_dom)

section \<open>Byte slices\<close>

text \<open>
  \<open>slice_of xs a b\<close> is \<^verbatim>\<open>&xs[a..b]\<close> and \<open>write_at xs a bs\<close> is
  \<^verbatim>\<open>xs[a..a+bs.len()].copy_from_slice(&bs)\<close>; both panic in Rust when the range
  leaves the slice, which the definitions that use a computed range test first.
\<close>

definition slice_of :: "'a list \<Rightarrow> nat \<Rightarrow> nat \<Rightarrow> 'a list" where
  "slice_of xs a b = take (b - a) (drop a xs)"

definition write_at :: "'a list \<Rightarrow> nat \<Rightarrow> 'a list \<Rightarrow> 'a list" where
  "write_at xs a bs = take a xs @ bs @ drop (a + length bs) xs"

lemma length_slice_of [simp]: "length (slice_of xs a b) = min (b - a) (length xs - a)"
  by (simp add: slice_of_def)

lemma nth_slice_of: "a + i < b \<Longrightarrow> b \<le> length xs \<Longrightarrow> slice_of xs a b ! i = xs ! (a + i)"
  by (simp add: slice_of_def)

lemma length_write_at [simp]: "a + length bs \<le> length xs \<Longrightarrow> length (write_at xs a bs) = length xs"
  by (simp add: write_at_def)

lemma nth_write_at:
  assumes "a + length bs \<le> length xs" and "i < length xs"
  shows "write_at xs a bs ! i = (if a \<le> i \<and> i < a + length bs then bs ! (i - a) else xs ! i)"
  using assms by (auto simp: write_at_def nth_append min_def)

lemma slice_of_write_same [slice_simps]:
  "a + length bs \<le> length xs \<Longrightarrow> b = a + length bs \<Longrightarrow> slice_of (write_at xs a bs) a b = bs"
  by (simp add: slice_of_def write_at_def)

lemma slice_of_write_disjoint [slice_simps]:
  assumes "a + length bs \<le> length xs" and "d \<le> length xs" and "d \<le> a \<or> a + length bs \<le> c"
  shows "slice_of (write_at xs a bs) c d = slice_of xs c d"
proof (rule nth_equalityI)
  show "length (slice_of (write_at xs a bs) c d) = length (slice_of xs c d)"
    using assms by simp
next
  fix i assume "i < length (slice_of (write_at xs a bs) c d)"
  with assms have i: "c + i < d" by simp
  have "slice_of (write_at xs a bs) c d ! i = write_at xs a bs ! (c + i)"
    using assms i by (simp add: nth_slice_of)
  also have "\<dots> = xs ! (c + i)"
    using assms i by (subst nth_write_at) auto
  also have "\<dots> = slice_of xs c d ! i"
    using assms i by (simp add: nth_slice_of)
  finally show "slice_of (write_at xs a bs) c d ! i = slice_of xs c d ! i" .
qed

lemma slice_of_slice_of: "d \<le> b - a \<Longrightarrow> slice_of (slice_of xs a b) c d = slice_of xs (a + c) (a + d)"
  by (simp add: slice_of_def drop_take min_def add.commute) 

section \<open>Little-endian integers\<close>

text \<open>
  \<open>le_bytes n w\<close> is \<^verbatim>\<open>w.to_le_bytes()\<close> for an \<open>n\<close>-byte integer and
  \<open>le_word bs\<close> is \<^verbatim>\<open>from_le_bytes\<close>.
\<close>

definition le_bytes :: "nat \<Rightarrow> 'a::len word \<Rightarrow> u8 list" where
  "le_bytes n w = map (\<lambda>i. ucast (drop_bit (8 * i) w)) [0..<n]"

fun le_word :: "u8 list \<Rightarrow> 'a::len word" where
  "le_word [] = 0"
| "le_word (b # bs) = ucast b OR push_bit 8 (le_word bs)"

lemma length_le_bytes [simp]: "length (le_bytes n w) = n"
  by (simp add: le_bytes_def)

lemma nth_le_bytes: "i < n \<Longrightarrow> le_bytes n w ! i = ucast (drop_bit (8 * i) w)"
  by (simp add: le_bytes_def)

lemma bit_le_word:
  "bit (le_word bs :: 'a::len word) i \<longleftrightarrow>
     i < LENGTH('a) \<and> i div 8 < length bs \<and> bit (bs ! (i div 8)) (i mod 8)"
proof (induction bs arbitrary: i)
  case Nil
  then show ?case by simp
next
  case (Cons b bs)
  show ?case
  proof (cases "i < 8")
    case True
    then show ?thesis
      by (auto simp: bit_or_iff bit_push_bit_iff bit_ucast_iff possible_bit_def)
  next
    case False
    then obtain j where j: "i = j + 8" by (metis add.commute le_Suc_ex not_less)
    have "\<not> bit b i"
      using False bit_imp_le_length [of b i] by auto
    moreover have "(j + 8) div 8 = Suc (j div 8)" by simp
    ultimately show ?thesis
      using Cons.IH [of j] False
      by (auto simp: j bit_or_iff bit_push_bit_iff bit_ucast_iff possible_bit_def)
  qed
qed

lemma le_word_le_bytes:
  assumes "LENGTH('a::len) = 8 * n"
  shows "le_word (le_bytes n (w :: 'a word)) = w"
proof (rule bit_word_eqI)
  fix i assume i: "i < LENGTH('a)"
  then have "i div 8 < n" using assms by auto
  moreover have "8 * (i div 8) + i mod 8 = i" by simp
  ultimately show "bit (le_word (le_bytes n w) :: 'a word) i = bit w i"
    using i by (simp add: bit_le_word nth_le_bytes bit_ucast_iff bit_drop_bit_eq)
qed

lemma le_bytes_le_word:
  assumes "length bs = n" and "8 * n \<le> LENGTH('a::len)"
  shows "le_bytes n (le_word bs :: 'a word) = bs"
proof (rule nth_equalityI)
  show "length (le_bytes n (le_word bs :: 'a word)) = length bs" using assms by simp
next
  fix k assume "k < length (le_bytes n (le_word bs :: 'a word))"
  then have k: "k < n" by simp
  show "le_bytes n (le_word bs :: 'a word) ! k = bs ! k"
  proof (rule bit_word_eqI)
    fix i assume "i < LENGTH(8)"
    then have i: "i < 8" by simp
    moreover have "(8 * k + i) div 8 = k" "(8 * k + i) mod 8 = i" using i by auto
    ultimately show "bit (le_bytes n (le_word bs :: 'a word) ! k) i = bit (bs ! k) i"
      using assms k by (simp add: nth_le_bytes bit_ucast_iff bit_drop_bit_eq bit_le_word)
  qed
qed

lemma le_word_u16 [simp]: "le_word (le_bytes 2 (w :: u16)) = w"
  by (rule le_word_le_bytes) simp

lemma le_word_u32 [simp]: "le_word (le_bytes 4 (w :: u32)) = w"
  by (rule le_word_le_bytes) simp

lemma le_word_u64 [simp]: "le_word (le_bytes 8 (w :: u64)) = w"
  by (rule le_word_le_bytes) simp

section \<open>Unsigned words as naturals\<close>

lemma unat_less_power_u16 [simp]: "unat (w :: u16) < 65536"
  using unsigned_less [of w] by simp

lemma word_less_plus_one:
  fixes a c :: "'a::len word"
  assumes "c \<noteq> - 1" and "a \<le> c"
  shows "a < c + 1"
proof -
  have "1 + c \<noteq> 0" using assms(1) by (simp add: add_eq_0_iff)
  then show ?thesis using assms(2) by (simp add: word_less_nat_alt word_le_nat_alt unatSuc add.commute [of c])
qed

section \<open>Invariants of step relations\<close>

text \<open>
  A component whose calls interleave is a start state and a step relation; an invariant
  that holds at the start and is kept by every step holds in every state a run reaches.
\<close>

locale step_invariant =
  fixes init :: "'s \<Rightarrow> bool"
    and step :: "'s \<Rightarrow> 's \<Rightarrow> bool"
    and inv :: "'s \<Rightarrow> bool"
  assumes inv_init: "init s \<Longrightarrow> inv s"
    and inv_step: "inv s \<Longrightarrow> step s t \<Longrightarrow> inv t"
begin

lemma inv_steps: "step\<^sup>*\<^sup>* s t \<Longrightarrow> inv s \<Longrightarrow> inv t"
  by (induction rule: rtranclp_induct) (auto intro: inv_step)

lemma inv_reachable: "init s \<Longrightarrow> step\<^sup>*\<^sup>* s t \<Longrightarrow> inv t"
  by (blast intro: inv_steps inv_init)

text \<open>A relation between two states that every step extends holds along every run.\<close>

lemma steps_rel:
  assumes run: "step\<^sup>*\<^sup>* s t" and inv: "inv s"
    and refl: "R s s"
    and ext: "\<And>u v. inv u \<Longrightarrow> R s u \<Longrightarrow> step u v \<Longrightarrow> R s v"
  shows "R s t"
proof -
  from run have "R s t \<and> inv t"
    by (induction rule: rtranclp_induct) (auto intro: refl inv ext inv_step)
  then show ?thesis ..
qed

end

end
