(* ===== verification/Lock_Manager.thy ===== *)
theory Lock_Manager
  imports Ams_Prelude
begin

text \<open>
  The table lock manager of \<^verbatim>\<open>pg-txn/src/lock_manager.rs\<close>: lock modes and their
  conflict matrix, the per-table entry with its granted set and FIFO queue, and the
  manager's operations.  A blocking \<^verbatim>\<open>acquire\<close> is modelled by its loop body
  \<open>acquire_iter\<close>, run once when the call starts and once per wakeup; the step relation
  \<open>lm_step\<close> interleaves such iterations with the other calls.  The manager carries the
  shared victim set of \<^verbatim>\<open>deadlock.rs\<close> because \<^verbatim>\<open>acquire\<close> consumes it.
\<close>

section \<open>Lock modes\<close>

datatype LockMode = AccessShare | RowExclusive | Exclusive | AccessExclusive

text \<open>\<^verbatim>\<open>derive(PartialOrd, Ord)\<close>: modes are ordered as they are declared.\<close>

fun mode_rank :: "LockMode \<Rightarrow> nat" where
  "mode_rank AccessShare = 0"
| "mode_rank RowExclusive = 1"
| "mode_rank Exclusive = 2"
| "mode_rank AccessExclusive = 3"

lemma mode_rank_inject: "mode_rank a = mode_rank b \<Longrightarrow> a = b"
  by (cases a; cases b) simp_all

instantiation LockMode :: linorder
begin

definition less_eq_LockMode :: "LockMode \<Rightarrow> LockMode \<Rightarrow> bool" where
  "less_eq_LockMode a b \<longleftrightarrow> mode_rank a \<le> mode_rank b"

definition less_LockMode :: "LockMode \<Rightarrow> LockMode \<Rightarrow> bool" where
  "less_LockMode a b \<longleftrightarrow> mode_rank a < mode_rank b"

instance
  by standard (auto simp: less_eq_LockMode_def less_LockMode_def intro: mode_rank_inject)

end

fun conflicts_with :: "LockMode \<Rightarrow> LockMode \<Rightarrow> bool" where
  "conflicts_with AccessExclusive _ = True"
| "conflicts_with _ AccessExclusive = True"
| "conflicts_with RowExclusive Exclusive = True"
| "conflicts_with Exclusive RowExclusive = True"
| "conflicts_with Exclusive Exclusive = True"
| "conflicts_with _ _ = False"

section \<open>Lock entries\<close>

record Waiter =
  w_xid :: TxnId
  w_mode :: LockMode

record LockEntry =
  granted :: "(TxnId, LockMode) hmap"
  wait_queue :: "Waiter list"

definition entry_default :: LockEntry where
  "entry_default = \<lparr>granted = [], wait_queue = []\<rparr>"

text \<open>The three gates of \<^verbatim>\<open>LockEntry::can_grant\<close>, in order.\<close>

definition holds_at_least :: "LockEntry \<Rightarrow> TxnId \<Rightarrow> LockMode \<Rightarrow> bool" where
  "holds_at_least e xid mode =
     (case hm_get (granted e) xid of Some held \<Rightarrow> mode \<le> held | None \<Rightarrow> False)"

definition can_grant :: "LockEntry \<Rightarrow> TxnId \<Rightarrow> LockMode \<Rightarrow> bool" where
  "can_grant e xid mode =
     (if holds_at_least e xid mode then True
      else if (case wait_queue e of head # _ \<Rightarrow> w_xid head \<noteq> xid | [] \<Rightarrow> False) then False
      else list_all (\<lambda>(holder, held). holder = xid \<or> \<not> conflicts_with held mode) (granted e))"

definition grant :: "LockEntry \<Rightarrow> TxnId \<Rightarrow> LockMode \<Rightarrow> LockEntry" where
  "grant e xid mode =
     (let q = (case wait_queue e of
                 head # rest \<Rightarrow> if w_xid head = xid then rest else wait_queue e
               | [] \<Rightarrow> []);
          g = (case hm_get (granted e) xid of
                 None \<Rightarrow> hm_insert xid mode (granted e)
               | Some held \<Rightarrow> if held < mode then hm_insert xid mode (granted e) else granted e)
      in e\<lparr>granted := g, wait_queue := q\<rparr>)"

definition enqueue_if_absent :: "LockEntry \<Rightarrow> TxnId \<Rightarrow> LockMode \<Rightarrow> LockEntry" where
  "enqueue_if_absent e xid mode =
     (if list_ex (\<lambda>w. w_xid w = xid) (wait_queue e) then e
      else e\<lparr>wait_queue := wait_queue e @ [\<lparr>w_xid = xid, w_mode = mode\<rparr>]\<rparr>)"

function regrant_heads :: "LockEntry \<Rightarrow> LockEntry" where
  "regrant_heads e =
     (case wait_queue e of
        [] \<Rightarrow> e
      | head # _ \<Rightarrow>
          if \<not> can_grant e (w_xid head) (w_mode head) then e
          else regrant_heads (grant e (w_xid head) (w_mode head)))"
  by pat_completeness auto
termination
  by (relation "measure (\<lambda>e. length (wait_queue e))") (auto simp: grant_def Let_def)

declare regrant_heads.simps [simp del]

section \<open>The lock manager\<close>

record LockManager =
  entries :: "(Oid, LockEntry) hmap"
  deadlock_victims :: "TxnId set"

definition lm_new :: LockManager where
  "lm_new = \<lparr>entries = [], deadlock_victims = {}\<rparr>"

datatype acquire_result = Acquired | DeadlockVictim TxnId | Waiting

definition entry_is_empty :: "LockEntry \<Rightarrow> bool" where
  "entry_is_empty e \<longleftrightarrow> granted e = [] \<and> wait_queue e = []"

definition entry_or_default :: "LockManager \<Rightarrow> Oid \<Rightarrow> LockEntry" where
  "entry_or_default lm table =
     (case hm_get (entries lm) table of Some e \<Rightarrow> e | None \<Rightarrow> entry_default)"

text \<open>
  One pass of the loop of \<^verbatim>\<open>LockManager::acquire\<close>: \<open>Waiting\<close> is the point where the
  thread sleeps on the condition variable.
\<close>

definition acquire_iter ::
    "LockManager \<Rightarrow> TxnId \<Rightarrow> Oid \<Rightarrow> LockMode \<Rightarrow> LockManager \<times> acquire_result" where
  "acquire_iter lm xid table mode =
     (if xid \<in> deadlock_victims lm then
        let lm' = lm\<lparr>deadlock_victims := deadlock_victims lm - {xid}\<rparr> in
        (case hm_get (entries lm) table of
           None \<Rightarrow> (lm', DeadlockVictim xid)
         | Some e \<Rightarrow>
             let e' = regrant_heads
                   (e\<lparr>wait_queue := filter (\<lambda>w. w_xid w \<noteq> xid) (wait_queue e)\<rparr>)
             in (lm'\<lparr>entries := (if entry_is_empty e' then hm_remove table (entries lm)
                                else hm_insert table e' (entries lm))\<rparr>,
                 DeadlockVictim xid))
      else
        let e = entry_or_default lm table in
        if can_grant e xid mode
        then (lm\<lparr>entries := hm_insert table (grant e xid mode) (entries lm)\<rparr>, Acquired)
        else (lm\<lparr>entries := hm_insert table (enqueue_if_absent e xid mode) (entries lm)\<rparr>,
              Waiting))"

definition try_acquire ::
    "LockManager \<Rightarrow> TxnId \<Rightarrow> Oid \<Rightarrow> LockMode \<Rightarrow> LockManager \<times> bool" where
  "try_acquire lm xid table mode =
     (let grantable = (case hm_get (entries lm) table of
                         None \<Rightarrow> True | Some e \<Rightarrow> can_grant e xid mode)
      in if grantable
         then (lm\<lparr>entries := hm_insert table (grant (entry_or_default lm table) xid mode)
                              (entries lm)\<rparr>, True)
         else (lm, False))"

text \<open>The body of the \<^verbatim>\<open>retain\<close> closure of \<^verbatim>\<open>release_all\<close>.\<close>

definition release_entry :: "TxnId \<Rightarrow> LockEntry \<Rightarrow> LockEntry" where
  "release_entry xid e =
     regrant_heads
       (e\<lparr>granted := hm_remove xid (granted e),
          wait_queue := filter (\<lambda>w. w_xid w \<noteq> xid) (wait_queue e)\<rparr>)"

definition release_all :: "LockManager \<Rightarrow> TxnId \<Rightarrow> LockManager" where
  "release_all lm xid =
     lm\<lparr>entries := filter (\<lambda>(_, e). \<not> entry_is_empty e)
                     (map (\<lambda>(t, e). (t, release_entry xid e)) (entries lm))\<rparr>"

definition is_granted :: "LockManager \<Rightarrow> TxnId \<Rightarrow> Oid \<Rightarrow> LockMode \<Rightarrow> bool" where
  "is_granted lm xid table mode =
     (case hm_get (entries lm) table of
        None \<Rightarrow> False | Some e \<Rightarrow> holds_at_least e xid mode)"

definition held_by :: "LockManager \<Rightarrow> TxnId \<Rightarrow> (Oid \<times> LockMode) list" where
  "held_by lm xid =
     sort_key fst (List.map_filter
       (\<lambda>(table, e). map_option (\<lambda>mode. (table, mode)) (hm_get (granted e) xid)) (entries lm))"

record TableLockState =
  tls_granted :: "(TxnId \<times> LockMode) list"
  tls_waiters :: "(TxnId \<times> LockMode) list"

definition lock_state_of :: "LockEntry \<Rightarrow> TableLockState" where
  "lock_state_of e =
     \<lparr>tls_granted = sort_key fst (granted e),
      tls_waiters = map (\<lambda>w. (w_xid w, w_mode w)) (wait_queue e)\<rparr>"

definition table_lock_state :: "LockManager \<Rightarrow> Oid \<Rightarrow> TableLockState option" where
  "table_lock_state lm table = map_option lock_state_of (hm_get (entries lm) table)"

definition table_lock_states :: "LockManager \<Rightarrow> (Oid \<times> TableLockState) list" where
  "table_lock_states lm =
     sort_key fst (map (\<lambda>(table, e). (table, lock_state_of e))
       (filter (\<lambda>(_, e). wait_queue e \<noteq> []) (entries lm)))"

text \<open>
  Calls interleave.  A transaction asks for one table lock at a time, so when it is already
  queued on a table the request it re-runs is the queued one.
\<close>

definition request_ok :: "LockManager \<Rightarrow> TxnId \<Rightarrow> Oid \<Rightarrow> LockMode \<Rightarrow> bool" where
  "request_ok lm xid table mode \<longleftrightarrow>
     list_all (\<lambda>w. w_xid w = xid \<longrightarrow> w_mode w = mode) (wait_queue (entry_or_default lm table))"

inductive lm_step :: "LockManager \<Rightarrow> LockManager \<Rightarrow> bool" where
  acquire: "request_ok lm xid table mode \<Longrightarrow> lm_step lm (fst (acquire_iter lm xid table mode))"
| try_acquire: "request_ok lm xid table mode \<Longrightarrow> lm_step lm (fst (try_acquire lm xid table mode))"
| release_all: "lm_step lm (release_all lm xid)"
| mark: "lm_step lm (lm\<lparr>deadlock_victims := insert xid (deadlock_victims lm)\<rparr>)"
| clear: "lm_step lm (lm\<lparr>deadlock_victims := deadlock_victims lm - {xid}\<rparr>)"

abbreviation lm_reachable :: "LockManager \<Rightarrow> bool" where
  "lm_reachable lm \<equiv> lm_step\<^sup>*\<^sup>* lm_new lm"

section \<open>Invariants\<close>

text \<open>Two holders of one table never hold conflicting modes.\<close>

definition compatible_grants :: "LockEntry \<Rightarrow> bool" where
  "compatible_grants e \<longleftrightarrow>
     (\<forall>x m y n. hm_get (granted e) x = Some m \<and> hm_get (granted e) y = Some n \<and> x \<noteq> y \<longrightarrow>
        \<not> conflicts_with m n)"

text \<open>A queued transaction is queued once and does not hold what it waits for.\<close>

definition genuine_waiters :: "LockEntry \<Rightarrow> bool" where
  "genuine_waiters e \<longleftrightarrow>
     distinct (map w_xid (wait_queue e)) \<and>
     (\<forall>w \<in> set (wait_queue e). \<not> holds_at_least e (w_xid w) (w_mode w))"

definition entry_safe :: "LockEntry \<Rightarrow> bool" where
  "entry_safe e \<longleftrightarrow> hm_ok (granted e) \<and> compatible_grants e \<and> genuine_waiters e"

text \<open>No wakeup is owed: the head of the queue cannot be granted.\<close>

definition head_blocked :: "LockEntry \<Rightarrow> bool" where
  "head_blocked e \<longleftrightarrow>
     (case wait_queue e of [] \<Rightarrow> True | w # _ \<Rightarrow> \<not> can_grant e (w_xid w) (w_mode w))"

definition lm_inv :: "LockManager \<Rightarrow> bool" where
  "lm_inv lm \<longleftrightarrow> hm_ok (entries lm) \<and>
     (\<forall>t e. hm_get (entries lm) t = Some e \<longrightarrow>
        entry_safe e \<and> head_blocked e \<and> \<not> entry_is_empty e)"

section \<open>Lemmas on entries\<close>

lemma conflicts_with_sym: "conflicts_with a b = conflicts_with b a"
  by (cases a; cases b) simp_all

lemma hm_all_iff:
  "hm_ok m \<Longrightarrow> list_all (\<lambda>(k, v). P k v) m \<longleftrightarrow> (\<forall>k v. hm_get m k = Some v \<longrightarrow> P k v)"
  by (auto simp: list_all_iff hm_get_iff_mem)

lemma can_grant_iff:
  assumes "hm_ok (granted e)"
  shows "can_grant e xid mode \<longleftrightarrow> holds_at_least e xid mode \<or>
    (wait_queue e = [] \<or> w_xid (hd (wait_queue e)) = xid) \<and>
    (\<forall>y n. hm_get (granted e) y = Some n \<longrightarrow> y = xid \<or> \<not> conflicts_with n mode)"
  using assms by (auto simp: can_grant_def hm_all_iff split: list.splits)

lemma granted_grant:
  "hm_get (granted (grant e xid mode)) y =
     (if y = xid \<and> \<not> holds_at_least e xid mode then Some mode else hm_get (granted e) y)"
  by (auto simp: grant_def Let_def holds_at_least_def hmap_simps split: option.splits)

lemma queue_grant:
  "wait_queue (grant e xid mode) =
     (case wait_queue e of [] \<Rightarrow> []
      | w # ws \<Rightarrow> if w_xid w = xid then ws else wait_queue e)"
  by (simp add: grant_def Let_def split: list.splits)

lemma hm_ok_grant [simp]: "hm_ok (granted e) \<Longrightarrow> hm_ok (granted (grant e xid mode))"
  by (simp add: grant_def Let_def split: option.splits)

lemma holds_grant_self: "holds_at_least (grant e xid mode) xid mode"
  by (auto simp: holds_at_least_def granted_grant split: option.splits)

lemma holds_grant_other: "y \<noteq> xid \<Longrightarrow> holds_at_least (grant e xid mode) y n = holds_at_least e y n"
  by (simp add: holds_at_least_def granted_grant)

lemma grant_holds [simp]:
  "holds_at_least e xid mode \<Longrightarrow> granted (grant e xid mode) = granted e"
  by (auto simp: grant_def Let_def holds_at_least_def split: option.splits)

text \<open>A grant that passed \<^const>\<open>can_grant\<close> keeps the granted modes compatible.\<close>

lemma compatible_grant:
  assumes "hm_ok (granted e)" and "compatible_grants e" and "can_grant e xid mode"
  shows "compatible_grants (grant e xid mode)"
proof (cases "holds_at_least e xid mode")
  case True
  then show ?thesis using assms(2) by (simp add: compatible_grants_def)
next
  case False
  then show ?thesis
    using assms unfolding compatible_grants_def can_grant_iff [OF assms(1)] granted_grant
    by (auto simp: conflicts_with_sym)
qed

text \<open>Granting the head of the queue.\<close>

lemma entry_safe_grant_head:
  assumes "entry_safe e" and q: "wait_queue e = w # ws" and "can_grant e (w_xid w) (w_mode w)"
  shows "entry_safe (grant e (w_xid w) (w_mode w))"
proof -
  have "w_xid w \<notin> w_xid ` set ws"
    using assms by (simp add: entry_safe_def genuine_waiters_def)
  then have "w_xid v \<noteq> w_xid w" if "v \<in> set ws" for v
    using imageI [OF that, of w_xid] by metis
  then have "genuine_waiters (grant e (w_xid w) (w_mode w))"
    using assms by (simp add: entry_safe_def genuine_waiters_def queue_grant holds_grant_other)
  then show ?thesis
    using assms by (simp add: entry_safe_def compatible_grant)
qed

lemma regrant_heads_safe: "entry_safe e \<Longrightarrow> entry_safe (regrant_heads e)"
proof (induction e rule: regrant_heads.induct)
  case (1 e)
  then show ?case
    by (subst regrant_heads.simps) (auto split: list.splits intro: entry_safe_grant_head)
qed

lemma regrant_heads_blocked: "head_blocked (regrant_heads e)"
proof (induction e rule: regrant_heads.induct)
  case (1 e)
  then show ?case
    by (subst regrant_heads.simps) (auto simp: head_blocked_def split: list.splits)
qed

text \<open>Every grant is kept, and what is granted on top is the removed prefix of the queue.\<close>

lemma regrant_heads_keeps: "holds_at_least e x m \<Longrightarrow> holds_at_least (regrant_heads e) x m"
proof (induction e rule: regrant_heads.induct)
  case (1 e)
  have "holds_at_least (grant e y n) x m" for y n
    using "1.prems" by (cases "x = y")
      (auto simp: holds_at_least_def granted_grant split: option.splits if_splits)
  with 1 show ?case
    by (subst regrant_heads.simps) (auto split: list.splits)
qed

lemma regrant_heads_prefix:
  "\<exists>ws. wait_queue e = ws @ wait_queue (regrant_heads e) \<and>
     (\<forall>w \<in> set ws. holds_at_least (regrant_heads e) (w_xid w) (w_mode w))"
proof (induction e rule: regrant_heads.induct)
  case (1 e)
  show ?case
  proof (cases "wait_queue e")
    case Nil
    then show ?thesis by (subst (1 2) regrant_heads.simps) simp
  next
    case (Cons w ws)
    show ?thesis
    proof (cases "can_grant e (w_xid w) (w_mode w)")
      case False
      then have "regrant_heads e = e"
        using Cons by (subst regrant_heads.simps) simp
      then show ?thesis by (intro exI [of _ "[]"]) simp
    next
      case True
      let ?e = "grant e (w_xid w) (w_mode w)"
      have r: "regrant_heads e = regrant_heads ?e"
        using Cons True by (subst regrant_heads.simps) simp
      have q: "wait_queue ?e = ws" using Cons by (simp add: queue_grant)
      obtain vs where vs: "ws = vs @ wait_queue (regrant_heads ?e)"
        and h: "\<forall>v \<in> set vs. holds_at_least (regrant_heads ?e) (w_xid v) (w_mode v)"
        using 1 [OF Cons] True q by auto
      have "holds_at_least (regrant_heads ?e) (w_xid w) (w_mode w)"
        by (rule regrant_heads_keeps) (rule holds_grant_self)
      then show ?thesis
        using Cons vs h r by (intro exI [of _ "w # vs"]) simp
    qed
  qed
qed

text \<open>Dropping a transaction from the queue or from both the queue and the grants.\<close>

lemma entry_safe_dequeue:
  "entry_safe e \<Longrightarrow> entry_safe (e\<lparr>wait_queue := filter P (wait_queue e)\<rparr>)"
  by (auto simp: entry_safe_def compatible_grants_def genuine_waiters_def holds_at_least_def
      distinct_map_filter)

lemma entry_safe_drop:
  "entry_safe e \<Longrightarrow> entry_safe (e\<lparr>granted := hm_remove xid (granted e),
     wait_queue := filter (\<lambda>w. w_xid w \<noteq> xid) (wait_queue e)\<rparr>)"
  by (auto simp: entry_safe_def compatible_grants_def genuine_waiters_def holds_at_least_def
      distinct_map_filter hmap_simps split: if_splits)

lemma entry_safe_default [simp]: "entry_safe entry_default"
  by (simp add: entry_safe_def entry_default_def compatible_grants_def genuine_waiters_def)

lemma head_blocked_default [simp]: "head_blocked entry_default"
  by (simp add: head_blocked_def entry_default_def)

text \<open>
  A granted request leaves the entry with its invariant: either nothing changed, because the
  mode was held, or the queue was empty.
\<close>

lemma grant_request:
  assumes safe: "entry_safe e" and blocked: "head_blocked e" and can: "can_grant e xid mode"
    and req: "list_all (\<lambda>w. w_xid w = xid \<longrightarrow> w_mode w = mode) (wait_queue e)"
  shows "entry_safe (grant e xid mode) \<and> head_blocked (grant e xid mode)"
proof -
  have ok: "hm_ok (granted e)" using safe by (simp add: entry_safe_def)
  show ?thesis
  proof (cases "wait_queue e")
    case Nil
    then have "wait_queue (grant e xid mode) = []" by (simp add: queue_grant)
    then show ?thesis
      using safe can ok by (simp add: entry_safe_def compatible_grant genuine_waiters_def head_blocked_def)
  next
    case (Cons w ws)
    have notcan: "\<not> can_grant e (w_xid w) (w_mode w)"
      using blocked Cons by (simp add: head_blocked_def)
    have "w_xid w \<noteq> xid" using notcan can req Cons by auto
    then have held: "holds_at_least e xid mode"
      using can Cons by (auto simp: can_grant_iff [OF ok])
    have "grant e xid mode = e"
      using held \<open>w_xid w \<noteq> xid\<close> Cons
      by (auto simp: grant_def Let_def holds_at_least_def split: option.splits)
    then show ?thesis using safe blocked by simp
  qed
qed

text \<open>A refused request is queued behind everyone, and the head stays blocked.\<close>

lemma enqueue_request:
  assumes safe: "entry_safe e" and blocked: "head_blocked e" and cannot: "\<not> can_grant e xid mode"
  shows "entry_safe (enqueue_if_absent e xid mode) \<and> head_blocked (enqueue_if_absent e xid mode)"
proof (cases "list_ex (\<lambda>w. w_xid w = xid) (wait_queue e)")
  case True
  then show ?thesis using safe blocked by (simp add: enqueue_if_absent_def)
next
  case False
  let ?e = "enqueue_if_absent e xid mode"
  have e': "?e = e\<lparr>wait_queue := wait_queue e @ [\<lparr>w_xid = xid, w_mode = mode\<rparr>]\<rparr>"
    using False by (simp add: enqueue_if_absent_def)
  have nothold: "\<not> holds_at_least e xid mode"
    using cannot by (auto simp: can_grant_def)
  have "entry_safe ?e"
    using safe False nothold unfolding e'
    by (auto simp: entry_safe_def compatible_grants_def genuine_waiters_def holds_at_least_def
        list_ex_iff split: option.splits)
  moreover have "head_blocked ?e"
    using blocked cannot unfolding e'
    by (cases "wait_queue e") (auto simp: head_blocked_def can_grant_def holds_at_least_def)
  ultimately show ?thesis by blast
qed

lemma enqueue_nonempty: "\<not> entry_is_empty (enqueue_if_absent e xid mode)"
  by (cases "wait_queue e") (auto simp: enqueue_if_absent_def entry_is_empty_def)

lemma grant_nonempty: "\<not> entry_is_empty (grant e xid mode)"
proof -
  have "granted (grant e xid mode) \<noteq> []"
    using holds_grant_self [of e xid mode] by (auto simp: holds_at_least_def)
  then show ?thesis by (simp add: entry_is_empty_def)
qed

section \<open>Lemmas on the manager\<close>

lemma lm_inv_entry:
  "lm_inv lm \<Longrightarrow> entry_safe (entry_or_default lm t) \<and> head_blocked (entry_or_default lm t)"
  by (auto simp: lm_inv_def entry_or_default_def split: option.splits)

lemma lm_inv_insert:
  "lm_inv lm \<Longrightarrow> entry_safe e \<Longrightarrow> head_blocked e \<Longrightarrow> \<not> entry_is_empty e \<Longrightarrow>
     lm_inv (lm\<lparr>entries := hm_insert t e (entries lm)\<rparr>)"
  by (simp add: lm_inv_def hmap_simps)

lemma lm_inv_remove: "lm_inv lm \<Longrightarrow> lm_inv (lm\<lparr>entries := hm_remove t (entries lm)\<rparr>)"
  by (auto simp: lm_inv_def hmap_simps split: if_splits)

lemma lm_inv_victims: "lm_inv (lm\<lparr>deadlock_victims := v\<rparr>) = lm_inv lm"
  by (simp add: lm_inv_def)

lemma lm_inv_acquire:
  assumes inv: "lm_inv lm" and req: "request_ok lm xid table mode"
  shows "lm_inv (fst (acquire_iter lm xid table mode))"
proof (cases "xid \<in> deadlock_victims lm")
  case True
  show ?thesis
  proof (cases "hm_get (entries lm) table")
    case None
    then show ?thesis using True inv by (simp add: acquire_iter_def Let_def lm_inv_victims)
  next
    case (Some e)
    let ?lm = "lm\<lparr>deadlock_victims := deadlock_victims lm - {xid}\<rparr>"
    let ?e = "regrant_heads (e\<lparr>wait_queue := filter (\<lambda>w. w_xid w \<noteq> xid) (wait_queue e)\<rparr>)"
    have "entry_safe e" using inv Some by (simp add: lm_inv_def)
    then have e': "entry_safe ?e" "head_blocked ?e"
      by (simp_all add: regrant_heads_safe entry_safe_dequeue regrant_heads_blocked)
    have inv': "lm_inv ?lm" using inv by (simp add: lm_inv_victims)
    show ?thesis
      using True Some lm_inv_remove [OF inv', of table] lm_inv_insert [OF inv' e', of table]
      by (simp add: acquire_iter_def Let_def)
  qed
next
  case False
  let ?e = "entry_or_default lm table"
  have e: "entry_safe ?e" "head_blocked ?e" using lm_inv_entry [OF inv] by auto
  have "list_all (\<lambda>w. w_xid w = xid \<longrightarrow> w_mode w = mode) (wait_queue ?e)"
    using req by (simp add: request_ok_def)
  then show ?thesis
    using False e inv grant_request [OF e] enqueue_request [OF e]
    by (simp add: acquire_iter_def Let_def lm_inv_insert grant_nonempty enqueue_nonempty)
qed

lemma lm_inv_try_acquire:
  assumes inv: "lm_inv lm" and req: "request_ok lm xid table mode"
  shows "lm_inv (fst (try_acquire lm xid table mode))"
proof -
  let ?e = "entry_or_default lm table"
  have e: "entry_safe ?e" "head_blocked ?e" using lm_inv_entry [OF inv] by auto
  have req': "list_all (\<lambda>w. w_xid w = xid \<longrightarrow> w_mode w = mode) (wait_queue ?e)"
    using req by (simp add: request_ok_def)
  have dflt: "can_grant entry_default xid mode" by (simp add: can_grant_def entry_default_def)
  show ?thesis
    using inv grant_request [OF e _ req'] dflt
    by (auto simp: try_acquire_def Let_def lm_inv_insert grant_nonempty entry_or_default_def
        split: option.splits)
qed

lemma hm_get_map_snd:
  "hm_get (map (\<lambda>(k, v). (k, f v)) m) k = map_option f (hm_get m k)"
  by (induction m) auto

lemma hm_ok_map_snd: "hm_ok (map (\<lambda>(k, v). (k, f v)) m) = hm_ok m"
  by (simp add: hm_ok_def o_def case_prod_unfold)

lemma hm_get_release_all:
  assumes "hm_ok (entries lm)"
  shows "hm_get (entries (release_all lm xid)) t =
    (case hm_get (entries lm) t of None \<Rightarrow> None
     | Some e \<Rightarrow> let e' = release_entry xid e in if entry_is_empty e' then None else Some e')"
  using assms
  by (auto simp: release_all_def hmap_simps hm_ok_map_snd hm_get_map_snd Let_def split: option.splits)

lemma lm_inv_release_all:
  assumes inv: "lm_inv lm"
  shows "lm_inv (release_all lm xid)"
proof -
  have ok: "hm_ok (entries lm)" using inv by (simp add: lm_inv_def)
  have "hm_ok (entries (release_all lm xid))"
    using ok by (simp add: release_all_def hm_ok_map_snd)
  moreover have "entry_safe (release_entry xid e)" if "hm_get (entries lm) t = Some e" for t e
    using inv that by (auto simp: lm_inv_def release_entry_def intro!: regrant_heads_safe entry_safe_drop)
  moreover have "head_blocked (release_entry xid e)" for e
    by (simp add: release_entry_def regrant_heads_blocked)
  ultimately show ?thesis
    unfolding lm_inv_def hm_get_release_all [OF ok]
    by (auto simp: Let_def split: option.splits if_splits)
qed

interpretation lm: step_invariant "\<lambda>lm. lm = lm_new" lm_step lm_inv
proof
  show "lm_inv lm" if "lm = lm_new" for lm
    using that by (simp add: lm_inv_def lm_new_def)
next
  show "lm_inv t" if "lm_inv s" and "lm_step s t" for s t
    using that(2,1)
    by (cases rule: lm_step.cases)
      (simp_all add: lm_inv_acquire lm_inv_try_acquire lm_inv_release_all lm_inv_victims)
qed

lemma reachable_lm_inv: "lm_reachable lm \<Longrightarrow> lm_inv lm"
  using lm.inv_reachable by blast

lemma conflicts_with_mono:
  "conflicts_with m n \<Longrightarrow> m \<le> m' \<Longrightarrow> n \<le> n' \<Longrightarrow> conflicts_with m' n'"
  by (cases m; cases n; cases m'; cases n') (simp_all add: less_eq_LockMode_def)

lemma granted_regrant_heads:
  "hm_get (granted (regrant_heads e)) x = hm_get (granted e) x \<or> x \<in> w_xid ` set (wait_queue e)"
proof (induction e rule: regrant_heads.induct)
  case (1 e)
  show ?case
  proof (cases "wait_queue e")
    case Nil
    then show ?thesis by (subst regrant_heads.simps) simp
  next
    case (Cons w ws)
    then show ?thesis
      using 1 [OF Cons] by (subst regrant_heads.simps) (auto simp: granted_grant queue_grant split: if_splits)
  qed
qed

lemma queue_regrant_heads: "set (wait_queue (regrant_heads e)) \<subseteq> set (wait_queue e)"
  using regrant_heads_prefix [of e] by auto

lemma release_entry_self:
  "hm_get (granted (release_entry xid e)) xid = None \<and>
   (\<forall>w \<in> set (wait_queue (release_entry xid e)). w_xid w \<noteq> xid)"
  using granted_regrant_heads [of "e\<lparr>granted := hm_remove xid (granted e),
      wait_queue := filter (\<lambda>w. w_xid w \<noteq> xid) (wait_queue e)\<rparr>" xid]
    queue_regrant_heads [of "e\<lparr>granted := hm_remove xid (granted e),
      wait_queue := filter (\<lambda>w. w_xid w \<noteq> xid) (wait_queue e)\<rparr>"]
  by (auto simp: release_entry_def hmap_simps)

lemma release_entry_other:
  assumes "y \<noteq> xid" and "holds_at_least e y m"
  shows "holds_at_least (release_entry xid e) y m"
  unfolding release_entry_def
  using assms by (intro regrant_heads_keeps) (simp add: holds_at_least_def hmap_simps)

lemma holds_not_empty: "holds_at_least e y m \<Longrightarrow> \<not> entry_is_empty e"
  by (auto simp: holds_at_least_def entry_is_empty_def)

lemma is_granted_iff:
  "is_granted lm x t m \<longleftrightarrow> (\<exists>e. hm_get (entries lm) t = Some e \<and> holds_at_least e x m)"
  by (simp add: is_granted_def split: option.splits)

lemma holds_at_leastD: "holds_at_least e x m \<Longrightarrow> \<exists>n. hm_get (granted e) x = Some n \<and> m \<le> n"
  by (simp add: holds_at_least_def split: option.splits)

lemma holds_grant_mono: "holds_at_least e y n \<Longrightarrow> holds_at_least (grant e x m) y n"
  by (auto simp: holds_at_least_def granted_grant split: option.splits if_splits)

lemma is_granted_default: "is_granted lm x t m = holds_at_least (entry_or_default lm t) x m"
  by (simp add: is_granted_def entry_or_default_def holds_at_least_def entry_default_def
      split: option.splits)

lemma is_granted_insert:
  "is_granted (lm\<lparr>entries := hm_insert t e (entries lm)\<rparr>) y t' n =
     (if t' = t then holds_at_least e y n else is_granted lm y t' n)"
  by (simp add: is_granted_def hmap_simps)

lemma holds_enqueue:
  "holds_at_least (enqueue_if_absent e x m) y n = holds_at_least e y n"
  by (simp add: enqueue_if_absent_def holds_at_least_def)

lemma entry_or_default_insert:
  "entry_or_default (lm\<lparr>entries := hm_insert t e (entries lm)\<rparr>) t = e"
  by (simp add: entry_or_default_def hmap_simps)

section \<open>Properties\<close>

text \<open>
  C2. Table locks exclude each other: in every reachable state of the lock manager, under
  any interleaving of calls, two different transactions never hold conflicting modes on one
  table.
\<close>

theorem granted_locks_never_conflict:
  assumes "lm_reachable lm" and "is_granted lm x t m" and "is_granted lm y t n" and "x \<noteq> y"
  shows "\<not> conflicts_with m n"
proof
  assume c: "conflicts_with m n"
  obtain e where e: "hm_get (entries lm) t = Some e" "holds_at_least e x m" "holds_at_least e y n"
    using assms(2,3) by (auto simp: is_granted_iff)
  obtain m' n' where g: "hm_get (granted e) x = Some m'" "m \<le> m'" "hm_get (granted e) y = Some n'" "n \<le> n'"
    using holds_at_leastD [OF e(2)] holds_at_leastD [OF e(3)] by blast
  have "\<not> conflicts_with m' n'"
    using reachable_lm_inv [OF assms(1)] e(1) g(1,3) assms(4)
    by (auto simp: lm_inv_def entry_safe_def compatible_grants_def)
  then show False using conflicts_with_mono [OF c g(2,4)] by simp
qed

text \<open>
  C8. No lost wakeup: whenever a table has a queue, the head of the queue is blocked by a
  granted lock of another transaction whose mode conflicts with the request.  So a waiter
  held back only by queue order always has a head in front of it that waits for a holder.
\<close>

theorem queue_head_waits_for_a_holder:
  assumes "lm_reachable lm" and "hm_get (entries lm) t = Some e" and "wait_queue e = w # ws"
  shows "\<exists>y n. hm_get (granted e) y = Some n \<and> y \<noteq> w_xid w \<and> conflicts_with n (w_mode w)"
proof -
  have "entry_safe e" "head_blocked e"
    using reachable_lm_inv [OF assms(1)] assms(2) by (auto simp: lm_inv_def)
  then show ?thesis
    using assms(3) by (auto simp: entry_safe_def head_blocked_def can_grant_iff)
qed

text \<open>
  C16. \<^verbatim>\<open>release_all\<close> ends a transaction's locking: it holds no table lock and waits in
  no queue afterwards, and every other transaction keeps what it held.
\<close>

theorem release_all_releases_exactly:
  assumes "lm_reachable lm"
  shows "\<not> is_granted (release_all lm xid) xid t m \<and>
    (hm_get (entries (release_all lm xid)) t = Some e \<longrightarrow>
       (\<forall>w \<in> set (wait_queue e). w_xid w \<noteq> xid)) \<and>
    (y \<noteq> xid \<longrightarrow> is_granted lm y t n \<longrightarrow> is_granted (release_all lm xid) y t n)"
proof -
  have ok: "hm_ok (entries lm)" using reachable_lm_inv [OF assms] by (simp add: lm_inv_def)
  have self: "\<not> holds_at_least (release_entry xid e') xid m" for e'
    using release_entry_self [of xid e'] by (simp add: holds_at_least_def)
  show ?thesis
    using release_entry_self [of xid] self
    by (auto simp: is_granted_iff hm_get_release_all [OF ok] Let_def
        dest: release_entry_other holds_not_empty split: option.splits if_splits)
qed

text \<open>
  C17. Two-phase locking and the outcome of an \<^verbatim>\<open>acquire\<close> pass: no grant of anyone is
  lost; \<open>Acquired\<close> means the mode is held; \<open>Waiting\<close> means the request is queued and the
  mode is not held; and the pass reports \<open>DeadlockVictim\<close> exactly when the caller is marked,
  in which case the mark is consumed.
\<close>

theorem acquire_outcome:
  assumes "acquire_iter lm xid t m = (lm', r)"
  shows "(is_granted lm y t' n \<longrightarrow> is_granted lm' y t' n) \<and>
    (r = Acquired \<longrightarrow> is_granted lm' xid t m) \<and>
    (r = Waiting \<longrightarrow> \<not> is_granted lm' xid t m \<and>
       xid \<in> w_xid ` set (wait_queue (entry_or_default lm' t))) \<and>
    (r = DeadlockVictim xid \<longleftrightarrow> xid \<in> deadlock_victims lm) \<and>
    deadlock_victims lm' = deadlock_victims lm - {xid}"
proof (cases "xid \<in> deadlock_victims lm")
  case True
  have "is_granted lm' y t' n" if h: "is_granted lm y t' n"
  proof (cases "hm_get (entries lm) t")
    case None
    then show ?thesis using assms True h by (auto simp: acquire_iter_def Let_def is_granted_def)
  next
    case (Some e)
    let ?e = "regrant_heads (e\<lparr>wait_queue := filter (\<lambda>w. w_xid w \<noteq> xid) (wait_queue e)\<rparr>)"
    have "holds_at_least ?e y n" if "holds_at_least e y n"
      using that by (intro regrant_heads_keeps) (simp add: holds_at_least_def)
    then show ?thesis
      using assms True Some h holds_not_empty [of ?e y n]
      by (auto simp: acquire_iter_def Let_def is_granted_iff hmap_simps split: if_splits)
  qed
  then show ?thesis
    using assms True by (auto simp: acquire_iter_def Let_def split: option.splits if_splits)
next
  case False
  let ?e = "entry_or_default lm t"
  have q: "xid \<in> w_xid ` set (wait_queue (enqueue_if_absent ?e xid m))"
    by (force simp: enqueue_if_absent_def list_ex_iff image_iff)
  have c: "\<not> can_grant ?e xid m \<Longrightarrow> \<not> holds_at_least ?e xid m"
    by (auto simp: can_grant_def)
  show ?thesis
    using assms False q c
    by (auto simp: acquire_iter_def Let_def is_granted_insert holds_enqueue holds_grant_self
        is_granted_default [of lm] entry_or_default_insert intro: holds_grant_mono
        split: if_splits)
qed

text \<open>
  C18. Fairness: while another transaction heads the queue of a table, a request that is not
  already satisfied is never granted ahead of it; \<^verbatim>\<open>try_acquire\<close> fails without a trace and
  \<^verbatim>\<open>acquire\<close> leaves the caller queued behind every earlier waiter.
\<close>

theorem no_barging:
  assumes "hm_get (entries lm) t = Some e" and "wait_queue e = w # ws" and "w_xid w \<noteq> xid"
    and "\<not> is_granted lm xid t m" and "xid \<notin> deadlock_victims lm"
  shows "try_acquire lm xid t m = (lm, False) \<and>
    snd (acquire_iter lm xid t m) = Waiting \<and>
    (\<exists>vs. wait_queue (entry_or_default (fst (acquire_iter lm xid t m)) t) = wait_queue e @ vs)"
proof -
  have "\<not> can_grant e xid m"
    using assms by (simp add: can_grant_def is_granted_def)
  then show ?thesis
    using assms
    by (auto simp: try_acquire_def acquire_iter_def entry_or_default_def hmap_simps
        enqueue_if_absent_def Let_def)
qed

section \<open>Witnesses\<close>

text \<open>Transactions 1 and 2 read table 7; 3 queues for \<open>AccessExclusive\<close>.\<close>

definition lm_ex1 :: LockManager where
  "lm_ex1 = fst (acquire_iter (fst (acquire_iter lm_new 1 7 AccessShare)) 2 7 AccessShare)"

definition lm_ex2 :: LockManager where
  "lm_ex2 = fst (acquire_iter lm_ex1 3 7 AccessExclusive)"

lemmas lm_eval = acquire_iter_def try_acquire_def entry_or_default_def entry_default_def
  can_grant_def holds_at_least_def grant_def enqueue_if_absent_def lm_new_def Let_def
  is_granted_def less_eq_LockMode_def less_LockMode_def request_ok_def

lemma lm_ex1_eval: "lm_ex1 = \<lparr>entries = [(7, \<lparr>granted = [(1, AccessShare), (2, AccessShare)],
    wait_queue = []\<rparr>)], deadlock_victims = {}\<rparr>"
  by (simp add: lm_ex1_def lm_eval)

lemma lm_ex2_eval: "lm_ex2 = \<lparr>entries = [(7, \<lparr>granted = [(1, AccessShare), (2, AccessShare)],
    wait_queue = [\<lparr>w_xid = 3, w_mode = AccessExclusive\<rparr>]\<rparr>)], deadlock_victims = {}\<rparr>"
  by (simp add: lm_ex2_def lm_ex1_eval lm_eval)

lemma lm_ex1_reachable: "lm_reachable lm_ex1"
proof -
  have "lm_step lm_new (fst (acquire_iter lm_new 1 7 AccessShare))"
    by (rule lm_step.acquire) (simp add: lm_eval)
  moreover have "lm_step (fst (acquire_iter lm_new 1 7 AccessShare)) lm_ex1"
    unfolding lm_ex1_def by (rule lm_step.acquire) (simp add: lm_eval)
  ultimately show ?thesis by (meson rtranclp.intros)
qed

lemma lm_ex2_reachable: "lm_reachable lm_ex2"
proof -
  have "lm_step lm_ex1 lm_ex2"
    unfolding lm_ex2_def by (rule lm_step.acquire) (simp add: lm_ex1_eval lm_eval)
  with lm_ex1_reachable show ?thesis by (rule rtranclp.intros(2))
qed

theorem granted_locks_never_conflict_witness:
  "lm_reachable lm_ex1 \<and> is_granted lm_ex1 1 7 AccessShare \<and> is_granted lm_ex1 2 7 AccessShare \<and>
   \<not> conflicts_with AccessShare AccessShare"
proof -
  have h: "is_granted lm_ex1 1 7 AccessShare" "is_granted lm_ex1 2 7 AccessShare"
    by (simp_all add: lm_ex1_eval lm_eval)
  show ?thesis
    using h lm_ex1_reachable granted_locks_never_conflict [OF lm_ex1_reachable h] by simp
qed

theorem queue_head_waits_for_a_holder_witness:
  "\<exists>y n. hm_get [(1::TxnId, AccessShare), (2, AccessShare)] y = Some n \<and> y \<noteq> 3 \<and>
     conflicts_with n AccessExclusive"
  using queue_head_waits_for_a_holder [OF lm_ex2_reachable, of 7
      "\<lparr>granted = [(1, AccessShare), (2, AccessShare)],
        wait_queue = [\<lparr>w_xid = 3, w_mode = AccessExclusive\<rparr>]\<rparr>"
      "\<lparr>w_xid = 3, w_mode = AccessExclusive\<rparr>" "[]"]
  by (simp add: lm_ex2_eval)

theorem release_all_releases_exactly_witness:
  "is_granted lm_ex1 2 7 AccessShare \<and> is_granted (release_all lm_ex1 1) 2 7 AccessShare \<and>
   \<not> is_granted (release_all lm_ex1 1) 1 7 AccessShare"
proof -
  have h: "is_granted lm_ex1 2 7 AccessShare" by (simp add: lm_ex1_eval lm_eval)
  show ?thesis
    using h release_all_releases_exactly [OF lm_ex1_reachable, of 1 7 AccessShare _ 2 AccessShare] by simp
qed

theorem acquire_outcome_witness:
  "acquire_iter lm_ex1 3 7 AccessExclusive = (lm_ex2, Waiting) \<and>
   \<not> is_granted lm_ex2 3 7 AccessExclusive"
proof -
  have h: "acquire_iter lm_ex1 3 7 AccessExclusive = (lm_ex2, Waiting)"
    by (simp add: lm_ex2_def lm_ex1_eval lm_eval)
  show ?thesis using h acquire_outcome [OF h] by simp
qed

theorem no_barging_witness:
  "try_acquire lm_ex2 4 7 AccessShare = (lm_ex2, False)"
proof -
  have "hm_get (entries lm_ex2) 7 = Some \<lparr>granted = [(1, AccessShare), (2, AccessShare)],
      wait_queue = [\<lparr>w_xid = 3, w_mode = AccessExclusive\<rparr>]\<rparr>"
    by (simp add: lm_ex2_eval)
  from no_barging [OF this, of "\<lparr>w_xid = 3, w_mode = AccessExclusive\<rparr>" "[]" 4 AccessShare]
  show ?thesis by (simp add: lm_ex2_eval is_granted_def holds_at_least_def)
qed

end
