(* ===== verification/Txn_Visibility.thy ===== *)
theory Txn_Visibility
  imports Ams_Prelude
begin

text \<open>
  The commit log, MVCC snapshots and the visibility judgment:
  \<^verbatim>\<open>pg-storage/src/clog.rs\<close>, \<^verbatim>\<open>pg-txn/src/clog_mem.rs\<close>,
  \<^verbatim>\<open>pg-txn/src/snapshot.rs\<close> and \<^verbatim>\<open>pg-txn/src/visibility.rs\<close>.
  The interface \<open>clog_accessor\<close> is the trait \<^verbatim>\<open>ClogAccessor\<close>; it is
  interpreted by the in-memory commit log.
\<close>

section \<open>Commit log\<close>

datatype TxnState = InProgress | Committed | Aborted | SubCommitted

text \<open>The trait \<^verbatim>\<open>ClogAccessor\<close> with what its clients rely on.\<close>

locale clog_accessor =
  fixes get_state :: "'c \<Rightarrow> TxnId \<Rightarrow> TxnState"
    and set_state :: "'c \<Rightarrow> TxnId \<Rightarrow> TxnState \<Rightarrow> 'c"
  assumes get_set: "get_state (set_state c x st) y = (if y = x then st else get_state c y)"
begin

lemma get_set_same: "get_state (set_state c x st) x = st"
  by (simp add: get_set)

lemma get_set_other: "y \<noteq> x \<Longrightarrow> get_state (set_state c x st) y = get_state c y"
  by (simp add: get_set)

end

text \<open>\<^verbatim>\<open>NoOpClogAccessor\<close>: every XID reads as committed.\<close>

definition noop_get_state :: "TxnId \<Rightarrow> TxnState" where
  "noop_get_state xid = Committed"

record InMemoryClogAccessor =
  states :: "(TxnId, TxnState) hmap"
  never_gc :: bool

definition clog_new :: InMemoryClogAccessor where
  "clog_new = \<lparr>states = [], never_gc = True\<rparr>"

definition clog_with_gc_enabled :: InMemoryClogAccessor where
  "clog_with_gc_enabled = \<lparr>states = [], never_gc = False\<rparr>"

definition clog_len :: "InMemoryClogAccessor \<Rightarrow> nat" where
  "clog_len c = length (states c)"

text \<open>\<^verbatim>\<open>gc_committed_below\<close> returns the number of entries removed.\<close>

definition gc_committed_below ::
    "InMemoryClogAccessor \<Rightarrow> TxnId \<Rightarrow> InMemoryClogAccessor \<times> nat" where
  "gc_committed_below c bound =
     (if never_gc c then (c, 0)
      else let before = length (states c);
               kept = filter (\<lambda>(xid, st). \<not> (st = Committed \<and> xid < bound)) (states c)
           in (c\<lparr>states := kept\<rparr>, before - length kept))"

definition clog_get_state :: "InMemoryClogAccessor \<Rightarrow> TxnId \<Rightarrow> TxnState" where
  "clog_get_state c xid =
     (case hm_get (states c) xid of Some st \<Rightarrow> st | None \<Rightarrow> InProgress)"

definition clog_set_state ::
    "InMemoryClogAccessor \<Rightarrow> TxnId \<Rightarrow> TxnState \<Rightarrow> InMemoryClogAccessor" where
  "clog_set_state c xid st = c\<lparr>states := hm_insert xid st (states c)\<rparr>"

section \<open>Snapshots\<close>

record Snapshot =
  snap_xmin :: TxnId
  snap_xmax :: TxnId
  xip :: "TxnId list"
  current_xid :: TxnId
  curcid :: u32

definition everything :: Snapshot where
  "everything = \<lparr>snap_xmin = 0, snap_xmax = - 1, xip = [], current_xid = TxnId_INVALID, curcid = 0\<rparr>"

definition set_current_xid :: "Snapshot \<Rightarrow> TxnId \<Rightarrow> Snapshot" where
  "set_current_xid s xid = s\<lparr>current_xid := xid\<rparr>"

definition set_curcid :: "Snapshot \<Rightarrow> u32 \<Rightarrow> Snapshot" where
  "set_curcid s cid = s\<lparr>curcid := cid\<rparr>"

text \<open>The 32-bit counter wraps, as \<^verbatim>\<open>+= 1\<close> does in a release build.\<close>

definition advance_curcid :: "Snapshot \<Rightarrow> Snapshot \<times> u32" where
  "advance_curcid s = (let s' = s\<lparr>curcid := curcid s + 1\<rparr> in (s', curcid s'))"

section \<open>Visibility\<close>

datatype Visibility = Visible | Invisible | Uncertain

text \<open>
  \<^verbatim>\<open>PgVisibilityOracle::is_visible\<close>.  The commit log enters as its lookup function.
\<close>

definition oracle_is_visible ::
    "(TxnId \<Rightarrow> TxnState) \<Rightarrow> TxnId \<Rightarrow> TxnId \<Rightarrow> u32 \<Rightarrow> Snapshot \<Rightarrow> Visibility" where
  "oracle_is_visible get_state xmin xmax t_cid s =
     (let self_xid = current_xid s; cid = curcid s in
      if xmin = self_xid \<and> cid \<le> t_cid then Invisible
      else if xmin \<noteq> self_xid \<and> snap_xmax s \<le> xmin then Invisible
      else if xmin \<noteq> self_xid \<and> xmin \<in> set (xip s) then Invisible
      else if xmin \<noteq> self_xid \<and> get_state xmin \<noteq> Committed then Invisible
      else if xmax = TxnId_INVALID then Visible
      else if xmax = self_xid then (if t_cid < cid then Invisible else Visible)
      else if snap_xmax s \<le> xmax then Visible
      else if xmax \<in> set (xip s) then Visible
      else if get_state xmax \<noteq> Committed then Visible
      else Invisible)"

text \<open>The free function \<^verbatim>\<open>visibility.rs::is_visible\<close>, the \<open>bool\<close> twin.\<close>

definition is_visible ::
    "(TxnId \<Rightarrow> TxnState) \<Rightarrow> TxnId \<Rightarrow> TxnId \<Rightarrow> u32 \<Rightarrow> Snapshot \<Rightarrow> bool" where
  "is_visible get_state t_xmin t_xmax t_cid s =
     (let self_xid = current_xid s; cid = curcid s in
      if (if t_xmin = self_xid then cid \<le> t_cid
          else snap_xmax s \<le> t_xmin \<or> t_xmin \<in> set (xip s) \<or> get_state t_xmin \<noteq> Committed)
      then False
      else if t_xmax = TxnId_INVALID then True
      else if t_xmax = self_xid then cid \<le> t_cid
      else if snap_xmax s \<le> t_xmax then True
      else if t_xmax \<in> set (xip s) then True
      else if get_state t_xmax \<noteq> Committed then True
      else False)"

text \<open>
  What a snapshot knows of another transaction: it had ended, committed, when the
  snapshot was taken.
\<close>

definition sees_commit :: "(TxnId \<Rightarrow> TxnState) \<Rightarrow> Snapshot \<Rightarrow> TxnId \<Rightarrow> bool" where
  "sees_commit get_state s x \<longleftrightarrow>
     x < snap_xmax s \<and> x \<notin> set (xip s) \<and> get_state x = Committed"

section \<open>Lemmas\<close>

interpretation mem_clog: clog_accessor clog_get_state clog_set_state
  by unfold_locales (simp add: clog_get_state_def clog_set_state_def hmap_simps)

lemma clog_get_state_gc:
  assumes "hm_ok (states c)"
  shows "clog_get_state (fst (gc_committed_below c bound)) xid =
    (if \<not> never_gc c \<and> xid < bound \<and> clog_get_state c xid = Committed
     then InProgress else clog_get_state c xid)"
proof (cases "never_gc c")
  case True
  then show ?thesis by (simp add: gc_committed_below_def)
next
  case False
  then show ?thesis
    using assms by (auto simp: gc_committed_below_def Let_def clog_get_state_def hmap_simps
        split: option.splits)
qed

text \<open>
  The judgment in terms of what the snapshot knows: the inserter is an earlier command of
  the snapshot's own transaction or a transaction the snapshot knows committed, and the
  deleter is neither.
\<close>

lemma is_visible_iff:
  "is_visible gs xmin xmax cid s \<longleftrightarrow>
     (if xmin = current_xid s then cid < curcid s else sees_commit gs s xmin) \<and>
     (xmax = TxnId_INVALID \<or>
      (if xmax = current_xid s then curcid s \<le> cid else \<not> sees_commit gs s xmax))"
  by (auto simp: is_visible_def sees_commit_def Let_def)

text \<open>The judgment reads the commit log only below \<open>xmax\<close> and outside \<open>xip\<close>.\<close>

lemma is_visible_cong:
  assumes "\<And>x. x < snap_xmax s \<Longrightarrow> x \<notin> set (xip s) \<Longrightarrow> x \<noteq> current_xid s \<Longrightarrow> gs x = gs' x"
  shows "is_visible gs xmin xmax cid s = is_visible gs' xmin xmax cid s"
  using assms by (auto simp: is_visible_iff sees_commit_def)

text \<open>
  C14. The production oracle and the \<open>bool\<close> twin the access methods call are the same
  judgment, and the oracle never answers \<open>Uncertain\<close>.
\<close>

theorem oracle_agrees_with_is_visible:
  "oracle_is_visible gs xmin xmax t_cid s =
     (if is_visible gs xmin xmax t_cid s then Visible else Invisible)"
  by (auto simp: oracle_is_visible_def is_visible_def Let_def not_le not_less)

text \<open>Commands of one transaction: each step advances the command counter and nothing else.\<close>

lemma advance_curcid_iterate: "((fst \<circ> advance_curcid) ^^ n) s = s\<lparr>curcid := curcid s + of_nat n\<rparr>"
  by (induction n) (simp_all add: advance_curcid_def Let_def add.assoc add.commute)

lemma later_command:
  fixes c :: u32
  assumes "unat c + n < 2 ^ 32"
  shows "c < c + of_nat n \<longleftrightarrow> 0 < n"
proof -
  have "unat (c + of_nat n) = unat c + n" using assms by (simp add: unat_word_ariths unat_of_nat)
  then show ?thesis by (simp add: word_less_nat_alt)
qed

text \<open>
  C15. Halloween protection.  Take any number \<open>n\<close> of commands after the one that wrote, as long as
  the 32-bit command counter does not wrap.  A row version the transaction inserted is invisible to
  the inserting command itself and visible to every later command; a committed row it deleted is
  visible to the deleting command itself and invisible to every later command.
\<close>

theorem own_write_visible_from_next_command:
  assumes "unat (curcid s) + n < 2 ^ 32" and "sees_commit gs s xmin" and "xmin \<noteq> current_xid s"
    and "current_xid s \<noteq> TxnId_INVALID"
  shows "(is_visible gs (current_xid s) TxnId_INVALID (curcid s) (((fst \<circ> advance_curcid) ^^ n) s) \<longleftrightarrow> 0 < n) \<and>
    (is_visible gs xmin (current_xid s) (curcid s) (((fst \<circ> advance_curcid) ^^ n) s) \<longleftrightarrow> n = 0)"
  using later_command [OF assms(1)] assms(2-4)
  by (simp add: is_visible_iff advance_curcid_iterate sees_commit_def not_less [symmetric])

text \<open>Transaction 7 with XID 3 committed before it: its insert is visible three commands later.\<close>

theorem own_write_visible_from_next_command_witness:
  "is_visible noop_get_state 7 TxnId_INVALID 5
     (((fst \<circ> advance_curcid) ^^ 3) \<lparr>snap_xmin = 7, snap_xmax = 9, xip = [7], current_xid = 7, curcid = 5\<rparr>)"
proof -
  let ?s = "\<lparr>snap_xmin = 7, snap_xmax = 9, xip = [7], current_xid = 7, curcid = 5\<rparr>"
  have "unat (curcid ?s) + 3 < 2 ^ 32" "sees_commit noop_get_state ?s 3" "3 \<noteq> current_xid ?s" "current_xid ?s \<noteq> TxnId_INVALID"
    by (simp_all add: sees_commit_def noop_get_state_def TxnId_INVALID_def)
  from own_write_visible_from_next_command [OF this] show ?thesis by simp
qed

end
