(* ===== verification/Txn_Manager.thy ===== *)
theory Txn_Manager
  imports Txn_Visibility
begin

text \<open>
  The transaction manager of \<^verbatim>\<open>pg-txn/src/manager.rs\<close> over the XID clock of
  \<^verbatim>\<open>pg-storage/src/txn_id.rs\<close>: begin, the commit and abort hard order, snapshots
  with the vacuum-horizon registry, and row-lock waits.

  The commit log and the write-ahead log are traits in the code, so their types are
  parameters here (\<open>'c\<close>, \<open>'w\<close>); the log's two operations and the record constructor come in
  the record \<open>CommitWal\<close>.  The step relation \<open>txn_step\<close> interleaves the critical sections of
  concurrent calls: an ending transaction first makes its record durable, then sets its
  commit-log state, then leaves the active set, and other calls run in between.
\<close>

section \<open>State\<close>

record 'c TxnManager =
  txn_id_clock :: TxnId
  clog :: 'c
  active :: "TxnId set"
  snapshot_xmins :: "(TxnId, nat) hmap"
  live_snapshots :: nat
  row_wait_registry :: "(TxnId, TxnId) hmap"
  txn_victims :: "TxnId set"

definition txn_manager_new :: "TxnId \<Rightarrow> 'c \<Rightarrow> 'c TxnManager" where
  "txn_manager_new start c =
     \<lparr>txn_id_clock = start, clog = c, active = {}, snapshot_xmins = [], live_snapshots = 0,
      row_wait_registry = [], txn_victims = {}\<rparr>"

text \<open>The XID clock: \<^verbatim>\<open>alloc\<close> is \<^verbatim>\<open>fetch_add(1)\<close>, which wraps.\<close>

definition clock_alloc :: "TxnId \<Rightarrow> TxnId \<times> TxnId" where
  "clock_alloc next = (next, next + 1)"

section \<open>Begin, commit, abort\<close>

definition begin_txn :: "'c TxnManager \<Rightarrow> 'c TxnManager \<times> TxnId" where
  "begin_txn tm =
     (let (xid, next) = clock_alloc (txn_id_clock tm)
      in (tm\<lparr>txn_id_clock := next, active := insert xid (active tm)\<rparr>, xid))"

text \<open>The critical sections of \<^verbatim>\<open>end_txn\<close>, one after the other.\<close>

definition end_clear_victim :: "TxnId \<Rightarrow> 'c TxnManager \<Rightarrow> 'c TxnManager" where
  "end_clear_victim xid tm = tm\<lparr>txn_victims := txn_victims tm - {xid}\<rparr>"

definition end_set_state ::
    "('c \<Rightarrow> TxnId \<Rightarrow> TxnState \<Rightarrow> 'c) \<Rightarrow> TxnId \<Rightarrow> TxnState \<Rightarrow> 'c TxnManager \<Rightarrow> 'c TxnManager" where
  "end_set_state set_state xid st tm = tm\<lparr>clog := set_state (clog tm) xid st\<rparr>"

definition end_remove_active :: "TxnId \<Rightarrow> 'c TxnManager \<Rightarrow> 'c TxnManager" where
  "end_remove_active xid tm = tm\<lparr>active := active tm - {xid}\<rparr>"

definition end_txn ::
    "('c \<Rightarrow> TxnId \<Rightarrow> TxnState \<Rightarrow> 'c) \<Rightarrow> TxnId \<Rightarrow> TxnState \<Rightarrow> 'c TxnManager \<Rightarrow> 'c TxnManager" where
  "end_txn set_state xid st tm =
     end_remove_active xid (end_set_state set_state xid st (end_clear_victim xid tm))"

datatype txn_wal_record = TxnCommit TxnId | TxnAbort TxnId

datatype storage_error = WalWriteFailed | WalRecordFailed

text \<open>
  The trait \<^verbatim>\<open>CommitWal\<close> and the record constructors of the storage crate: encoding a
  record may fail, appending yields its LSN or fails, flushing succeeds or fails.
\<close>

record ('w, 'r) CommitWal =
  mk_record :: "txn_wal_record \<Rightarrow> 'r option"
  record_size :: "'r \<Rightarrow> u64"
  wal_append :: "'w \<Rightarrow> 'r \<Rightarrow> 'w \<times> Lsn option"
  wal_flush_to :: "'w \<Rightarrow> Lsn \<Rightarrow> 'w \<times> bool"

text \<open>Append a terminal record and flush through its end boundary.\<close>

definition log_terminal ::
    "('w, 'r) CommitWal \<Rightarrow> 'w \<Rightarrow> txn_wal_record \<Rightarrow> 'w \<times> (unit, storage_error) outcome" where
  "log_terminal ops w r =
     (case mk_record ops r of
        None \<Rightarrow> (w, Err WalRecordFailed)
      | Some rec \<Rightarrow>
          (case wal_append ops w rec of
             (w1, None) \<Rightarrow> (w1, Err WalWriteFailed)
           | (w1, Some lsn) \<Rightarrow>
               (case wal_flush_to ops w1 (lsn + record_size ops rec) of
                  (w2, True) \<Rightarrow> (w2, Ok ())
                | (w2, False) \<Rightarrow> (w2, Err WalWriteFailed))))"

text \<open>\<open>force_fail\<close> is the failure-injection hook \<^verbatim>\<open>commit_txn_should_fail\<close>.\<close>

definition commit_txn ::
    "('w, 'r) CommitWal \<Rightarrow> ('c \<Rightarrow> TxnId \<Rightarrow> TxnState \<Rightarrow> 'c) \<Rightarrow> bool \<Rightarrow> TxnId \<Rightarrow>
     'w \<times> 'c TxnManager \<Rightarrow> ('w \<times> 'c TxnManager) \<times> (unit, storage_error) outcome" where
  "commit_txn ops set_state force_fail xid s =
     (let (w, tm) = s in
      if force_fail then (s, Err WalWriteFailed)
      else (case log_terminal ops w (TxnCommit xid) of
              (w', Ok _) \<Rightarrow> ((w', end_txn set_state xid Committed tm), Ok ())
            | (w', Err e) \<Rightarrow> ((w', tm), Err e)
            | (w', Panic) \<Rightarrow> ((w', tm), Panic)))"

definition abort_txn ::
    "('w, 'r) CommitWal \<Rightarrow> ('c \<Rightarrow> TxnId \<Rightarrow> TxnState \<Rightarrow> 'c) \<Rightarrow> TxnId \<Rightarrow>
     'w \<times> 'c TxnManager \<Rightarrow> ('w \<times> 'c TxnManager) \<times> (unit, storage_error) outcome" where
  "abort_txn ops set_state xid s =
     (let (w, tm) = s in
      case log_terminal ops w (TxnAbort xid) of
        (w', Ok _) \<Rightarrow> ((w', end_txn set_state xid Aborted tm), Ok ())
      | (w', Err e) \<Rightarrow> ((w', tm), Err e)
      | (w', Panic) \<Rightarrow> ((w', tm), Panic))"

section \<open>Row-lock waits\<close>

definition register_row_wait :: "TxnId \<Rightarrow> TxnId \<Rightarrow> 'c TxnManager \<Rightarrow> 'c TxnManager" where
  "register_row_wait self blocking tm =
     tm\<lparr>row_wait_registry := hm_insert self blocking (row_wait_registry tm)\<rparr>"

definition unregister_row_wait :: "TxnId \<Rightarrow> 'c TxnManager \<Rightarrow> 'c TxnManager" where
  "unregister_row_wait self tm =
     tm\<lparr>row_wait_registry := hm_remove self (row_wait_registry tm)\<rparr>"

definition wait_edges :: "'c TxnManager \<Rightarrow> (TxnId \<times> TxnId) list" where
  "wait_edges tm = sort_key fst (row_wait_registry tm)"

datatype wait_result = WaitDone | SelfWait TxnId | WaitVictim TxnId | Sleeping

text \<open>One pass of the loop of \<^verbatim>\<open>wait_for\<close>; \<open>Sleeping\<close> is the wait on the condition variable.\<close>

definition wait_for_iter ::
    "TxnId \<Rightarrow> TxnId \<Rightarrow> 'c TxnManager \<Rightarrow> 'c TxnManager \<times> wait_result" where
  "wait_for_iter self blocking tm =
     (if self = blocking then (tm, SelfWait self)
      else if self \<in> txn_victims tm then
        (tm\<lparr>txn_victims := txn_victims tm - {self},
            row_wait_registry := hm_remove self (row_wait_registry tm)\<rparr>, WaitVictim self)
      else if blocking \<notin> active tm then
        (tm\<lparr>row_wait_registry := hm_remove self (row_wait_registry tm)\<rparr>, WaitDone)
      else (tm, Sleeping))"

definition active_xids :: "'c TxnManager \<Rightarrow> TxnId list" where
  "active_xids tm = sorted_list_of_set (active tm)"

definition is_active :: "'c TxnManager \<Rightarrow> TxnId \<Rightarrow> bool" where
  "is_active tm xid \<longleftrightarrow> xid \<in> active tm"

section \<open>Snapshots and the vacuum horizon\<close>

text \<open>The guard returned with the snapshot pins the snapshot's \<open>xmin\<close>.\<close>

definition take_snapshot :: "'c TxnManager \<Rightarrow> TxnId \<Rightarrow> 'c TxnManager \<times> Snapshot" where
  "take_snapshot tm cur =
     (let xmax = txn_id_clock tm;
          ip = sorted_list_of_set (active tm);
          xmin = (case ip of [] \<Rightarrow> xmax | x # _ \<Rightarrow> x);
          cnt = (case hm_get (snapshot_xmins tm) xmin of None \<Rightarrow> 0 | Some n \<Rightarrow> n)
      in (tm\<lparr>snapshot_xmins := hm_insert xmin (cnt + 1) (snapshot_xmins tm),
             live_snapshots := live_snapshots tm + 1\<rparr>,
          \<lparr>snap_xmin = xmin, snap_xmax = xmax, xip = ip, current_xid = cur, curcid = 0\<rparr>))"

text \<open>\<^verbatim>\<open>SnapshotGuard::drop\<close>.\<close>

definition drop_guard :: "TxnId \<Rightarrow> 'c TxnManager \<Rightarrow> 'c TxnManager" where
  "drop_guard xmin tm =
     (let m = snapshot_xmins tm;
          m' = (case hm_get m xmin of
                  None \<Rightarrow> m
                | Some n \<Rightarrow> if n - 1 = 0 then hm_remove xmin m else hm_insert xmin (n - 1) m)
      in tm\<lparr>snapshot_xmins := m', live_snapshots := live_snapshots tm - 1\<rparr>)"

definition oldest_snapshot_xmin :: "'c TxnManager \<Rightarrow> TxnId" where
  "oldest_snapshot_xmin tm =
     (case sort (map fst (snapshot_xmins tm)) of
        x # _ \<Rightarrow> x
      | [] \<Rightarrow> (case sorted_list_of_set (active tm) of x # _ \<Rightarrow> x | [] \<Rightarrow> txn_id_clock tm))"

section \<open>Interleaving\<close>

text \<open>
  A system state is the manager, the transactions whose \<^verbatim>\<open>commit_txn\<close> or
  \<^verbatim>\<open>abort_txn\<close> is past the durable log record (with the state to set and whether it is set
  yet), and the snapshots whose guard is alive.
\<close>

record 'c txn_sys =
  mgr :: "'c TxnManager"
  ending :: "TxnId \<Rightarrow> (TxnState \<times> bool) option"
  taken :: "Snapshot list"

inductive txn_step ::
    "('c \<Rightarrow> TxnId \<Rightarrow> TxnState \<Rightarrow> 'c) \<Rightarrow> 'c txn_sys \<Rightarrow> 'c txn_sys \<Rightarrow> bool"
  for set_state :: "'c \<Rightarrow> TxnId \<Rightarrow> TxnState \<Rightarrow> 'c" where
  begin_step: "txn_id_clock (mgr s) \<noteq> - 1 \<Longrightarrow>
     txn_step set_state s (s\<lparr>mgr := fst (begin_txn (mgr s))\<rparr>)"
| durable_step: "xid \<in> active (mgr s) \<Longrightarrow> ending s xid = None \<Longrightarrow> st \<in> {Committed, Aborted} \<Longrightarrow>
     txn_step set_state s (s\<lparr>ending := (ending s)(xid \<mapsto> (st, False))\<rparr>)"
| set_step: "ending s xid = Some (st, False) \<Longrightarrow>
     txn_step set_state s
       (s\<lparr>mgr := end_set_state set_state xid st (end_clear_victim xid (mgr s)),
          ending := (ending s)(xid \<mapsto> (st, True))\<rparr>)"
| remove_step: "ending s xid = Some (st, True) \<Longrightarrow>
     txn_step set_state s
       (s\<lparr>mgr := end_remove_active xid (mgr s), ending := (ending s)(xid := None)\<rparr>)"
| snapshot_step: "txn_step set_state s
     (s\<lparr>mgr := fst (take_snapshot (mgr s) cur),
        taken := snd (take_snapshot (mgr s) cur) # taken s\<rparr>)"
| drop_step: "snap \<in> set (taken s) \<Longrightarrow> txn_step set_state s
     (s\<lparr>mgr := drop_guard (snap_xmin snap) (mgr s), taken := remove1 snap (taken s)\<rparr>)"
| register_step: "txn_step set_state s (s\<lparr>mgr := register_row_wait self blocking (mgr s)\<rparr>)"
| unregister_step: "txn_step set_state s (s\<lparr>mgr := unregister_row_wait self (mgr s)\<rparr>)"
| wait_step: "txn_step set_state s (s\<lparr>mgr := fst (wait_for_iter self blocking (mgr s))\<rparr>)"
| mark_step: "txn_step set_state s
     (s\<lparr>mgr := (mgr s)\<lparr>txn_victims := insert xid (txn_victims (mgr s))\<rparr>\<rparr>)"

text \<open>
  A system starts with a recovered commit log whose XIDs from the clock on are unused.
\<close>

definition txn_init :: "('c \<Rightarrow> TxnId \<Rightarrow> TxnState) \<Rightarrow> 'c txn_sys \<Rightarrow> bool" where
  "txn_init get_state s \<longleftrightarrow>
     (\<exists>start c. mgr s = txn_manager_new start c \<and> 0 < start \<and>
        (\<forall>x\<ge>start. get_state c x = InProgress)) \<and>
     ending s = Map.empty \<and> taken s = []"

abbreviation txn_steps ::
    "('c \<Rightarrow> TxnId \<Rightarrow> TxnState \<Rightarrow> 'c) \<Rightarrow> 'c txn_sys \<Rightarrow> 'c txn_sys \<Rightarrow> bool" where
  "txn_steps set_state \<equiv> (txn_step set_state)\<^sup>*\<^sup>*"

section \<open>Invariants\<close>

text \<open>A snapshot is well formed, and what it lists as running covers what still runs.\<close>

definition snap_wf :: "Snapshot \<Rightarrow> bool" where
  "snap_wf s \<longleftrightarrow> sorted (xip s) \<and> distinct (xip s) \<and>
     (\<forall>x \<in> set (xip s). snap_xmin s \<le> x \<and> x < snap_xmax s) \<and> snap_xmin s \<le> snap_xmax s"

definition snap_frame :: "Snapshot \<Rightarrow> 'c TxnManager \<Rightarrow> bool" where
  "snap_frame s tm \<longleftrightarrow> snap_xmax s \<le> txn_id_clock tm \<and>
     (\<forall>x \<in> active tm. x < snap_xmax s \<longrightarrow> x \<in> set (xip s))"

definition registry_count :: "(TxnId, nat) hmap \<Rightarrow> TxnId \<Rightarrow> nat" where
  "registry_count m x = (case hm_get m x of None \<Rightarrow> 0 | Some n \<Rightarrow> n)"

definition registry_inv :: "'c txn_sys \<Rightarrow> bool" where
  "registry_inv s \<longleftrightarrow> hm_ok (snapshot_xmins (mgr s)) \<and>
     (\<forall>x. registry_count (snapshot_xmins (mgr s)) x =
            length (filter (\<lambda>snap. snap_xmin snap = x) (taken s))) \<and>
     (\<forall>x. hm_get (snapshot_xmins (mgr s)) x \<noteq> Some 0) \<and>
     live_snapshots (mgr s) = length (taken s)"

definition active_inv :: "'c txn_sys \<Rightarrow> bool" where
  "active_inv s \<longleftrightarrow> finite (active (mgr s)) \<and>
     (\<forall>x \<in> active (mgr s). 0 < x \<and> x < txn_id_clock (mgr s)) \<and>
     dom (ending s) \<subseteq> active (mgr s) \<and> 0 < txn_id_clock (mgr s)"

definition snaps_inv :: "'c txn_sys \<Rightarrow> bool" where
  "snaps_inv s \<longleftrightarrow> (\<forall>snap \<in> set (taken s). snap_wf snap \<and> snap_frame snap (mgr s))"

text \<open>
  The commit log of a running transaction is still unset until its terminal state is
  written, and it is exactly that state from then on.
\<close>

definition clog_inv :: "('c \<Rightarrow> TxnId \<Rightarrow> TxnState) \<Rightarrow> 'c txn_sys \<Rightarrow> bool" where
  "clog_inv get_state s \<longleftrightarrow>
     (\<forall>x\<ge>txn_id_clock (mgr s). get_state (clog (mgr s)) x = InProgress) \<and>
     (\<forall>x \<in> active (mgr s). get_state (clog (mgr s)) x =
        (case ending s x of Some (st, True) \<Rightarrow> st | _ \<Rightarrow> InProgress)) \<and>
     (\<forall>x st b. ending s x = Some (st, b) \<longrightarrow> st \<in> {Committed, Aborted})"

definition txn_inv :: "('c \<Rightarrow> TxnId \<Rightarrow> TxnState) \<Rightarrow> 'c txn_sys \<Rightarrow> bool" where
  "txn_inv get_state s \<longleftrightarrow> active_inv s \<and> snaps_inv s \<and> registry_inv s \<and> clog_inv get_state s"

section \<open>Lemmas\<close>

named_theorems txn_defs \<open>the manager's state updates\<close>

lemmas txn_updates [txn_defs] = begin_txn_def clock_alloc_def end_set_state_def end_clear_victim_def
  end_remove_active_def register_row_wait_def unregister_row_wait_def Let_def

lemma wait_for_iter_frame [simp]:
  "active (fst (wait_for_iter a b tm)) = active tm"
  "txn_id_clock (fst (wait_for_iter a b tm)) = txn_id_clock tm"
  "clog (fst (wait_for_iter a b tm)) = clog tm"
  "snapshot_xmins (fst (wait_for_iter a b tm)) = snapshot_xmins tm"
  "live_snapshots (fst (wait_for_iter a b tm)) = live_snapshots tm"
  by (simp_all add: wait_for_iter_def)

lemma take_snapshot_frame [simp]:
  "active (fst (take_snapshot tm cur)) = active tm"
  "txn_id_clock (fst (take_snapshot tm cur)) = txn_id_clock tm"
  "clog (fst (take_snapshot tm cur)) = clog tm"
  by (simp_all add: take_snapshot_def Let_def)

lemma take_snapshot_fields [simp]:
  "snap_xmax (snd (take_snapshot tm cur)) = txn_id_clock tm"
  "xip (snd (take_snapshot tm cur)) = sorted_list_of_set (active tm)"
  "current_xid (snd (take_snapshot tm cur)) = cur"
  by (simp_all add: take_snapshot_def Let_def)

lemma drop_guard_frame [simp]:
  "active (drop_guard x tm) = active tm"
  "txn_id_clock (drop_guard x tm) = txn_id_clock tm"
  "clog (drop_guard x tm) = clog tm"
  by (simp_all add: drop_guard_def Let_def)

lemma sorted_list_of_set_Cons_min:
  assumes "finite A" and "sorted_list_of_set A = x # xs"
  shows "x \<in> A \<and> (\<forall>y \<in> A. x \<le> y)"
proof -
  have "set (x # xs) = A" using assms by (metis set_sorted_list_of_set)
  moreover have "sorted (x # xs)" using assms by (metis sorted_sorted_list_of_set)
  ultimately show ?thesis by auto
qed

lemma take_snapshot_xmin_le:
  assumes "finite (active tm)" and "x \<in> active tm"
  shows "snap_xmin (snd (take_snapshot tm cur)) \<le> x"
  using assms sorted_list_of_set_Cons_min [OF assms(1)]
  by (auto simp: take_snapshot_def Let_def split: list.splits)

lemma take_snapshot_wf:
  assumes "finite (active tm)" and "\<forall>x \<in> active tm. x < txn_id_clock tm"
  shows "snap_wf (snd (take_snapshot tm cur))"
proof -
  have "snap_xmin (snd (take_snapshot tm cur)) \<le> txn_id_clock tm"
    using assms sorted_list_of_set_Cons_min [OF assms(1)]
    by (auto simp: take_snapshot_def Let_def intro: less_imp_le split: list.splits)
  then show ?thesis
    using assms take_snapshot_xmin_le [OF assms(1)] by (auto simp: snap_wf_def)
qed

lemma take_snapshot_frame_self: "finite (active tm) \<Longrightarrow> snap_frame (snd (take_snapshot tm cur)) tm"
  by (simp add: snap_frame_def)

lemma snap_frame_begin:
  assumes "snap_frame s tm" and "txn_id_clock tm \<noteq> - 1"
  shows "snap_frame s (fst (begin_txn tm))"
  using assms word_less_plus_one [OF assms(2), of "snap_xmax s"]
  by (auto simp: snap_frame_def txn_defs)

text \<open>Every step keeps a snapshot's frame.\<close>

lemma snap_frame_step: "txn_step set_state s t \<Longrightarrow> snap_frame snap (mgr s) \<Longrightarrow> snap_frame snap (mgr t)"
proof (induction rule: txn_step.induct)
  case (begin_step s)
  then show ?case by (simp add: snap_frame_begin)
qed (auto simp: snap_frame_def txn_defs)

lemma active_inv_step: "txn_step set_state s t \<Longrightarrow> active_inv s \<Longrightarrow> active_inv t"
proof (induction rule: txn_step.induct)
  case (begin_step s)
  let ?c = "txn_id_clock (mgr s)"
  have lt: "x < ?c + 1" if "x \<le> ?c" for x
    using word_less_plus_one [OF begin_step(1) that] .
  have "0 < ?c" using begin_step by (simp add: active_inv_def)
  then have "0 < ?c + 1" using lt [of 0] by simp
  then show ?case
    using begin_step lt \<open>0 < ?c\<close> less_imp_le by (fastforce simp: active_inv_def txn_defs)
qed (auto simp: active_inv_def txn_defs)

lemma snaps_inv_step:
  assumes "txn_step set_state s t" and "active_inv s" and "snaps_inv s"
  shows "snaps_inv t"
proof -
  have frame: "snap_frame snap (mgr t)" if "snap_frame snap (mgr s)" for snap
    using snap_frame_step [OF assms(1) that] .
  show ?thesis
    using assms(1)
  proof (cases rule: txn_step.cases)
    case (snapshot_step cur)
    have "snap_wf (snd (take_snapshot (mgr s) cur))"
      using assms(2) by (intro take_snapshot_wf) (auto simp: active_inv_def)
    moreover have "snap_frame (snd (take_snapshot (mgr s) cur)) (mgr s)"
      using assms(2) by (intro take_snapshot_frame_self) (simp add: active_inv_def)
    ultimately show ?thesis
      using assms(3) frame snapshot_step by (auto simp: snaps_inv_def)
  next
    case (drop_step snap)
    then show ?thesis
      using assms(3) frame by (auto simp: snaps_inv_def dest: notin_set_remove1 set_remove1_subset [THEN subsetD])
  qed (use assms(3) frame in \<open>auto simp: snaps_inv_def\<close>)
qed

lemma registry_count_insert:
  "registry_count (hm_insert k n m) x = (if x = k then n else registry_count m x)"
  by (simp add: registry_count_def hmap_simps)

lemma registry_count_remove:
  "registry_count (hm_remove k m) x = (if x = k then 0 else registry_count m x)"
  by (simp add: registry_count_def hmap_simps)

lemma registry_take_snapshot:
  "snapshot_xmins (fst (take_snapshot tm cur)) =
     hm_insert (snap_xmin (snd (take_snapshot tm cur)))
       (registry_count (snapshot_xmins tm) (snap_xmin (snd (take_snapshot tm cur))) + 1)
       (snapshot_xmins tm)"
  "live_snapshots (fst (take_snapshot tm cur)) = live_snapshots tm + 1"
  by (simp_all add: take_snapshot_def Let_def registry_count_def)

lemma registry_drop_guard:
  assumes "0 < registry_count (snapshot_xmins tm) k"
  shows "snapshot_xmins (drop_guard k tm) =
    (let n = registry_count (snapshot_xmins tm) k in
     if n = 1 then hm_remove k (snapshot_xmins tm) else hm_insert k (n - 1) (snapshot_xmins tm))"
  using assms by (auto simp: drop_guard_def Let_def registry_count_def split: option.splits)

lemma length_filter_remove1:
  "x \<in> set xs \<Longrightarrow> length (filter P (remove1 x xs)) = length (filter P xs) - (if P x then 1 else 0)"
  by (auto simp: filter_remove1 length_remove1)

lemma registry_inv_drop:
  assumes inv: "registry_inv s" and mem: "snap \<in> set (taken s)"
  shows "registry_inv (s\<lparr>mgr := drop_guard (snap_xmin snap) (mgr s), taken := remove1 snap (taken s)\<rparr>)"
proof -
  let ?k = "snap_xmin snap"
  have "snap \<in> set (filter (\<lambda>q. snap_xmin q = ?k) (taken s))" using mem by simp
  then have pos: "0 < registry_count (snapshot_xmins (mgr s)) ?k"
    using inv by (metis registry_inv_def length_pos_if_in_set)
  have live: "live_snapshots (drop_guard ?k (mgr s)) = live_snapshots (mgr s) - 1"
    by (simp add: drop_guard_def Let_def)
  show ?thesis
    using inv pos mem
    by (auto simp: registry_inv_def registry_drop_guard Let_def registry_count_insert
        registry_count_remove length_filter_remove1 live length_remove1 hmap_simps
        simp del: length_greater_0_conv split: if_splits)
qed

lemma registry_inv_step: "txn_step set_state s t \<Longrightarrow> registry_inv s \<Longrightarrow> registry_inv t"
proof (induction rule: txn_step.induct)
  case (snapshot_step s cur)
  then show ?case
    by (auto simp: registry_inv_def registry_take_snapshot registry_count_insert hmap_simps)
next
  case (drop_step snap s)
  then show ?case by (simp add: registry_inv_drop)
qed (auto simp: registry_inv_def txn_defs)

context clog_accessor
begin

lemma clog_inv_step:
  "txn_step set_state s t \<Longrightarrow> active_inv s \<Longrightarrow> clog_inv get_state s \<Longrightarrow> clog_inv get_state t"
proof (induction rule: txn_step.induct)
  case (begin_step s)
  let ?c = "txn_id_clock (mgr s)"
  have "?c < ?c + 1" using word_less_plus_one [OF begin_step(1)] by simp
  moreover have "?c \<notin> active (mgr s)"
    using begin_step(2) by (auto simp: active_inv_def)
  then have "ending s ?c = None"
    using begin_step(2) unfolding active_inv_def by blast
  ultimately show ?case
    using begin_step by (auto simp: clog_inv_def txn_defs dest: order.trans less_imp_le)
next
  case (set_step s xid st)
  have "xid \<in> active (mgr s)" using set_step by (auto simp: active_inv_def)
  then have "xid < txn_id_clock (mgr s)" using set_step by (auto simp: active_inv_def)
  moreover have "st = Committed \<or> st = Aborted"
    using set_step unfolding clog_inv_def by blast
  ultimately show ?case
    using set_step by (auto simp: clog_inv_def txn_defs get_set)
qed (auto simp: clog_inv_def txn_defs)

sublocale txn: step_invariant "txn_init get_state" "txn_step set_state" "txn_inv get_state"
proof
  show "txn_inv get_state s" if "txn_init get_state s" for s
    using that by (auto simp: txn_init_def txn_inv_def txn_manager_new_def active_inv_def snaps_inv_def
        registry_inv_def registry_count_def clog_inv_def)
next
  show "txn_inv get_state t" if "txn_inv get_state s" and "txn_step set_state s t" for s t
    using that by (auto simp: txn_inv_def intro: active_inv_step snaps_inv_step registry_inv_step clog_inv_step)
qed

end

section \<open>What a snapshot sees\<close>

text \<open>The transactions that had ended, committed, in a given state.\<close>

definition ended_committed :: "('c \<Rightarrow> TxnId \<Rightarrow> TxnState) \<Rightarrow> 'c TxnManager \<Rightarrow> TxnId \<Rightarrow> bool" where
  "ended_committed get_state tm x \<longleftrightarrow>
     x < txn_id_clock tm \<and> x \<notin> active tm \<and> get_state (clog tm) x = Committed"

context clog_accessor
begin

text \<open>Only an ending transaction's own commit-log state is ever written.\<close>

lemma clog_step:
  "txn_step set_state s t \<Longrightarrow> get_state (clog (mgr t)) x = get_state (clog (mgr s)) x \<or>
     (\<exists>st. ending s x = Some (st, False))"
  by (induction rule: txn_step.induct) (auto simp: txn_defs get_set)

text \<open>Below a snapshot's horizon and outside its running set the commit log is frozen.\<close>

lemma clog_frozen:
  assumes "txn_steps set_state s t" and "txn_inv get_state s" and "snap_frame snap (mgr s)"
    and "x < snap_xmax snap" and "x \<notin> set (xip snap)"
  shows "get_state (clog (mgr t)) x = get_state (clog (mgr s)) x"
proof -
  let ?R = "\<lambda>s t. snap_frame snap (mgr t) \<and> get_state (clog (mgr t)) x = get_state (clog (mgr s)) x"
  have "?R s t"
  proof (rule txn.steps_rel [OF assms(1,2)])
    show "?R s s" using assms(3) by simp
  next
    fix u v
    assume inv: "txn_inv get_state u" and R: "?R s u" and st: "txn_step set_state u v"
    have "x \<notin> active (mgr u)"
      using R assms(4,5) by (auto simp: snap_frame_def)
    then have "ending u x = None"
      using inv unfolding txn_inv_def active_inv_def by blast
    then have "get_state (clog (mgr v)) x = get_state (clog (mgr u)) x"
      using clog_step [OF st, of x] by auto
    then show "?R s v" using R snap_frame_step [OF st] by simp
  qed
  then show ?thesis by simp
qed

lemma terminal_state_final:
  assumes "txn_steps set_state s t" and "txn_inv get_state s"
    and "get_state (clog (mgr s)) x \<noteq> InProgress"
  shows "get_state (clog (mgr t)) x = get_state (clog (mgr s)) x"
proof (rule txn.steps_rel [OF assms(1,2), where R = "\<lambda>s t. get_state (clog (mgr t)) x = get_state (clog (mgr s)) x"])
  fix u v
  assume inv: "txn_inv get_state u" and R: "get_state (clog (mgr u)) x = get_state (clog (mgr s)) x"
    and st: "txn_step set_state u v"
  have "ending u x \<noteq> Some (st', False)" for st'
  proof
    assume e: "ending u x = Some (st', False)"
    then have "x \<in> active (mgr u)" using inv by (auto simp: txn_inv_def active_inv_def)
    then have "get_state (clog (mgr u)) x = InProgress"
      using inv e by (auto simp: txn_inv_def clog_inv_def)
    then show False using R assms(3) by simp
  qed
  then show "get_state (clog (mgr v)) x = get_state (clog (mgr s)) x"
    using clog_step [OF st, of x] R by auto
qed simp

lemma visibility_stable:
  assumes "txn_steps set_state s t" and "txn_inv get_state s" and "snap_frame snap (mgr s)"
  shows "is_visible (get_state (clog (mgr t))) xmin xmax cid (snap\<lparr>curcid := k\<rparr>) =
    is_visible (get_state (clog (mgr s))) xmin xmax cid (snap\<lparr>curcid := k\<rparr>)"
  using clog_frozen [OF assms] by (intro is_visible_cong) simp

text \<open>The horizon bounds every snapshot alive now or taken later.\<close>

lemma registry_key_iff:
  assumes "registry_inv s"
  shows "k \<in> fst ` set (snapshot_xmins (mgr s)) \<longleftrightarrow> (\<exists>q \<in> set (taken s). snap_xmin q = k)"
proof -
  have nz: "hm_get (snapshot_xmins (mgr s)) k \<noteq> Some 0" using assms by (simp add: registry_inv_def)
  have "k \<in> fst ` set (snapshot_xmins (mgr s)) \<longleftrightarrow> registry_count (snapshot_xmins (mgr s)) k \<noteq> 0"
    using nz map_of_eq_None_iff [of "snapshot_xmins (mgr s)" k]
    by (cases "hm_get (snapshot_xmins (mgr s)) k") (auto simp: registry_count_def)
  also have "\<dots> \<longleftrightarrow> filter (\<lambda>q. snap_xmin q = k) (taken s) \<noteq> []"
    using assms by (simp add: registry_inv_def)
  finally show ?thesis by (simp add: filter_empty_conv)
qed

lemma oldest_le:
  assumes inv: "txn_inv get_state s"
  shows "(\<forall>snap \<in> set (taken s). oldest_snapshot_xmin (mgr s) \<le> snap_xmin snap) \<and>
    (\<forall>x \<in> active (mgr s). oldest_snapshot_xmin (mgr s) \<le> x) \<and>
    oldest_snapshot_xmin (mgr s) \<le> txn_id_clock (mgr s)"
proof -
  have act: "finite (active (mgr s))" "\<And>x. x \<in> active (mgr s) \<Longrightarrow> x < txn_id_clock (mgr s)"
    using inv by (auto simp: txn_inv_def active_inv_def)
  have key: "k \<in> fst ` set (snapshot_xmins (mgr s)) \<longleftrightarrow> (\<exists>q \<in> set (taken s). snap_xmin q = k)" for k
    using inv by (simp add: txn_inv_def registry_key_iff)
  show ?thesis
  proof (cases "sort (map fst (snapshot_xmins (mgr s)))")
    case Nil
    have "fst ` set (snapshot_xmins (mgr s)) = {}" using Nil by (metis set_map set_sort set_empty)
    then have "taken s = []" using key by (cases "taken s") auto
    then show ?thesis
      using Nil act sorted_list_of_set_Cons_min [OF act(1)]
      by (auto simp: oldest_snapshot_xmin_def intro: less_imp_le split: list.splits)
  next
    case (Cons h hs)
    have h: "oldest_snapshot_xmin (mgr s) = h" using Cons by (simp add: oldest_snapshot_xmin_def)
    have keys: "set (h # hs) = fst ` set (snapshot_xmins (mgr s))" "sorted (h # hs)"
      using Cons by (metis set_map set_sort, metis sorted_sort)
    obtain q where q: "q \<in> set (taken s)" "snap_xmin q = h" using key [of h] keys(1) by auto
    then have wf: "snap_wf q" "snap_frame q (mgr s)" using inv by (auto simp: txn_inv_def snaps_inv_def)
    have "h \<le> x" if "x \<in> active (mgr s)" for x
      using wf that q(2) by (cases "x < snap_xmax q") (auto simp: snap_wf_def snap_frame_def)
    moreover have "h \<le> txn_id_clock (mgr s)"
      using wf q(2) by (auto simp: snap_wf_def snap_frame_def)
    moreover have "h \<le> snap_xmin p" if "p \<in> set (taken s)" for p
      using key [of "snap_xmin p"] keys that by (metis set_ConsD sorted_simps(2) order_refl)
    ultimately show ?thesis using h by simp
  qed
qed

lemma oldest_bounds_later:
  assumes "txn_steps set_state s t" and "txn_inv get_state s" and "snap \<in> set (taken t)"
  shows "oldest_snapshot_xmin (mgr s) \<le> snap_xmin snap"
proof -
  let ?h = "oldest_snapshot_xmin (mgr s)"
  let ?R = "\<lambda>s t. (\<forall>snap \<in> set (taken t). ?h \<le> snap_xmin snap) \<and>
     (\<forall>x \<in> active (mgr t). ?h \<le> x) \<and> ?h \<le> txn_id_clock (mgr t)"
  have "?R s t"
  proof (rule txn.steps_rel [OF assms(1,2)])
    show "?R s s" using oldest_le [OF assms(2)] .
  next
    fix u v
    assume inv: "txn_inv get_state u" and R: "?R s u" and st: "txn_step set_state u v"
    show "?R s v"
      using st
    proof (cases rule: txn_step.cases)
      case begin_step
      then show ?thesis
        using R word_less_plus_one [of "txn_id_clock (mgr u)" ?h] by (auto simp: txn_defs less_imp_le)
    next
      case (snapshot_step cur)
      have "?h \<le> snap_xmin (snd (take_snapshot (mgr u) cur))"
        using R inv sorted_list_of_set_Cons_min [of "active (mgr u)"]
        by (auto simp: take_snapshot_def Let_def txn_inv_def active_inv_def split: list.splits)
      then show ?thesis using R snapshot_step by auto
    next
      case (drop_step q)
      then show ?thesis using R set_remove1_subset [of q "taken u"] by auto
    qed (use R in \<open>auto simp: txn_defs\<close>)
  qed
  then show ?thesis using assms(3) by blast
qed

lemma dead_below_horizon_invisible:
  assumes run: "txn_steps set_state s t" and inv: "txn_inv get_state s" and snap: "snap \<in> set (taken t)"
    and "xmax \<noteq> TxnId_INVALID" and lt: "xmax < oldest_snapshot_xmin (mgr s)"
    and com: "get_state (clog (mgr s)) xmax = Committed" and own: "current_xid snap \<noteq> xmax"
  shows "\<not> is_visible (get_state (clog (mgr t))) xmin xmax cid (snap\<lparr>curcid := k\<rparr>)"
proof -
  have "xmax < snap_xmin snap" using lt oldest_bounds_later [OF run inv snap] by simp
  moreover have "snap_wf snap"
    using snap txn.inv_steps [OF run inv] by (simp add: txn_inv_def snaps_inv_def)
  moreover have "get_state (clog (mgr t)) xmax = Committed"
    using terminal_state_final [OF run inv] com by simp
  ultimately have "sees_commit (get_state (clog (mgr t))) (snap\<lparr>curcid := k\<rparr>) xmax"
    by (auto simp: sees_commit_def snap_wf_def)
  then show ?thesis using assms(4) own by (auto simp: is_visible_iff)
qed

lemma aborted_inserter_invisible:
  assumes run: "txn_steps set_state s t" and inv: "txn_inv get_state s"
    and ab: "get_state (clog (mgr s)) xmin = Aborted" and own: "current_xid snap \<noteq> xmin"
  shows "\<not> is_visible (get_state (clog (mgr t))) xmin xmax cid snap"
  using terminal_state_final [OF run inv, of xmin] ab own by (auto simp: is_visible_iff sees_commit_def)

lemma snapshot_sees_ended:
  assumes run: "txn_steps set_state s t" and inv: "txn_inv get_state s" and "x \<noteq> cur"
  shows "sees_commit (get_state (clog (mgr t))) ((snd (take_snapshot (mgr s) cur))\<lparr>curcid := k\<rparr>) x \<longleftrightarrow>
    ended_committed get_state (mgr s) x"
proof -
  let ?snap = "snd (take_snapshot (mgr s) cur)"
  have fin: "finite (active (mgr s))" using inv by (simp add: txn_inv_def active_inv_def)
  have "get_state (clog (mgr t)) x = get_state (clog (mgr s)) x"
    if "x < txn_id_clock (mgr s)" and "x \<notin> active (mgr s)"
    using clog_frozen [OF run inv take_snapshot_frame_self [OF fin, of cur]] that fin by simp
  then show ?thesis using fin by (auto simp: sees_commit_def ended_committed_def)
qed

end

section \<open>A whole call as a run of steps\<close>

lemma end_txn_run:
  assumes "xid \<in> active (mgr s)" and "ending s xid = None" and "st \<in> {Committed, Aborted}"
  shows "txn_steps set_state s (s\<lparr>mgr := end_txn set_state xid st (mgr s)\<rparr>)"
proof -
  let ?s1 = "s\<lparr>ending := (ending s)(xid \<mapsto> (st, False))\<rparr>"
  let ?s2 = "?s1\<lparr>mgr := end_set_state set_state xid st (end_clear_victim xid (mgr ?s1)),
          ending := (ending ?s1)(xid \<mapsto> (st, True))\<rparr>"
  let ?s3 = "?s2\<lparr>mgr := end_remove_active xid (mgr ?s2), ending := (ending ?s2)(xid := None)\<rparr>"
  have "txn_step set_state s ?s1" using assms by (rule durable_step)
  moreover have "txn_step set_state ?s1 ?s2" by (rule set_step) simp
  moreover have "txn_step set_state ?s2 ?s3" by (rule remove_step) simp
  moreover have "?s3 = s\<lparr>mgr := end_txn set_state xid st (mgr s)\<rparr>"
    using assms(2) by (simp add: end_txn_def fun_upd_idem)
  ultimately show ?thesis by (metis (no_types, lifting) rtranclp.rtrancl_into_rtrancl rtranclp.rtrancl_refl)
qed

lemma begin_txn_run:
  "txn_id_clock (mgr s) \<noteq> - 1 \<Longrightarrow> txn_steps set_state s (s\<lparr>mgr := fst (begin_txn (mgr s))\<rparr>)"
  by (rule r_into_rtranclp) (rule begin_step)

lemma take_snapshot_run:
  "txn_steps set_state s (s\<lparr>mgr := fst (take_snapshot (mgr s) cur),
     taken := snd (take_snapshot (mgr s) cur) # taken s\<rparr>)"
  by (rule r_into_rtranclp) (rule snapshot_step)

text \<open>
  A concrete run over the in-memory commit log: transactions 1 and 2 begin, 1 commits, 3
  takes a snapshot, then 2 commits.
\<close>

definition txn_ex0 :: "InMemoryClogAccessor txn_sys" where
  "txn_ex0 = \<lparr>mgr = txn_manager_new TxnId_FIRST clog_new, ending = Map.empty, taken = []\<rparr>"

definition txn_ex1 :: "InMemoryClogAccessor txn_sys" where
  "txn_ex1 = txn_ex0\<lparr>mgr := end_txn clog_set_state 1 Committed
     (fst (begin_txn (fst (begin_txn (mgr txn_ex0)))))\<rparr>"

definition txn_ex2 :: "InMemoryClogAccessor txn_sys" where
  "txn_ex2 = txn_ex1\<lparr>mgr := end_txn clog_set_state 2 Committed (fst (take_snapshot (mgr txn_ex1) 3)),
     taken := [snd (take_snapshot (mgr txn_ex1) 3)]\<rparr>"

lemmas txn_ex_simps = txn_ex0_def txn_ex1_def txn_ex2_def txn_manager_new_def txn_defs end_txn_def
  clog_new_def clog_set_state_def clog_get_state_def TxnId_FIRST_def

lemma txn_ex_init: "txn_init clog_get_state txn_ex0"
  unfolding txn_init_def
  by (intro conjI exI [of _ TxnId_FIRST] exI [of _ clog_new]) (simp_all add: txn_ex_simps)

lemma txn_ex1_run: "txn_steps clog_set_state txn_ex0 txn_ex1"
proof -
  let ?a = "txn_ex0\<lparr>mgr := fst (begin_txn (mgr txn_ex0))\<rparr>"
  let ?b = "?a\<lparr>mgr := fst (begin_txn (mgr ?a))\<rparr>"
  have "txn_steps clog_set_state txn_ex0 ?a" by (rule begin_txn_run) (simp add: txn_ex_simps)
  also have "txn_steps clog_set_state ?a ?b" by (rule begin_txn_run) (simp add: txn_ex_simps)
  also have "txn_steps clog_set_state ?b (?b\<lparr>mgr := end_txn clog_set_state 1 Committed (mgr ?b)\<rparr>)"
    by (rule end_txn_run) (simp_all add: txn_ex_simps)
  finally show ?thesis by (simp add: txn_ex1_def)
qed

lemma txn_ex2_run: "txn_steps clog_set_state txn_ex1 txn_ex2"
proof -
  let ?a = "txn_ex1\<lparr>mgr := fst (take_snapshot (mgr txn_ex1) 3),
     taken := snd (take_snapshot (mgr txn_ex1) 3) # taken txn_ex1\<rparr>"
  have "txn_steps clog_set_state txn_ex1 ?a" by (rule take_snapshot_run)
  also have "txn_steps clog_set_state ?a (?a\<lparr>mgr := end_txn clog_set_state 2 Committed (mgr ?a)\<rparr>)"
    by (rule end_txn_run) (simp_all add: txn_ex_simps)
  finally show ?thesis by (simp add: txn_ex2_def txn_ex1_def txn_ex0_def)
qed

lemma txn_ex1_mgr: "mgr txn_ex1 = \<lparr>txn_id_clock = 3,
    clog = \<lparr>states = [(1, Committed)], never_gc = True\<rparr>, active = {2}, snapshot_xmins = [],
    live_snapshots = 0, row_wait_registry = [], txn_victims = {}\<rparr>"
  by (auto simp: txn_ex_simps)

lemma txn_ex2_state: "mgr txn_ex2 = \<lparr>txn_id_clock = 3,
    clog = \<lparr>states = [(1, Committed), (2, Committed)], never_gc = True\<rparr>, active = {},
    snapshot_xmins = [(2, 1)], live_snapshots = 1, row_wait_registry = [], txn_victims = {}\<rparr>"
  "taken txn_ex2 = [\<lparr>snap_xmin = 2, snap_xmax = 3, xip = [2], current_xid = 3, curcid = 0\<rparr>]"
  by (simp_all add: txn_ex2_def txn_ex1_mgr take_snapshot_def end_txn_def txn_defs clog_set_state_def)

lemmas txn_ex_eval = txn_ex1_mgr txn_ex2_state clog_get_state_def TxnId_INVALID_def

section \<open>Properties\<close>

text \<open>
  C1. Snapshot isolation.  Whatever runs after a snapshot was taken, a tuple version is visible
  to it exactly when its inserter is the taker, in an earlier command, or had ended committed
  when the snapshot was taken, and its deleter is not the taker in an earlier command and
  had not ended committed then.
\<close>

theorem snapshot_isolation:
  assumes "txn_init clog_get_state s0" and "txn_steps clog_set_state s0 s" and "txn_steps clog_set_state s t"
  shows "is_visible (clog_get_state (clog (mgr t))) xmin xmax cid
       ((snd (take_snapshot (mgr s) cur))\<lparr>curcid := k\<rparr>) \<longleftrightarrow>
     (if xmin = cur then cid < k else ended_committed clog_get_state (mgr s) xmin) \<and>
     (xmax = TxnId_INVALID \<or>
      \<not> (if xmax = cur then cid < k else ended_committed clog_get_state (mgr s) xmax))"
proof -
  have inv: "txn_inv clog_get_state s" using assms(1,2) by (rule mem_clog.txn.inv_reachable)
  show ?thesis
    using mem_clog.snapshot_sees_ended [OF assms(3) inv, where cur = cur and k = k]
    by (auto simp: is_visible_iff)
qed

theorem snapshot_isolation_witness:
  "is_visible (clog_get_state (clog (mgr txn_ex2))) 1 2 0 ((snd (take_snapshot (mgr txn_ex1) 3))\<lparr>curcid := 0\<rparr>)"
  using snapshot_isolation [OF txn_ex_init txn_ex1_run txn_ex2_run, where xmin = 1 and xmax = 2 and cid = 0 and cur = 3 and k = 0]
  by (simp add: ended_committed_def txn_ex_eval)

text \<open>
  C7. Vacuum horizon.  A tuple whose deleter committed below the horizon computed in some
  state is invisible to every snapshot alive then or in any later state, unless it is the
  deleter's own.
\<close>

theorem vacuum_horizon_safe:
  assumes "txn_init clog_get_state s0" and "txn_steps clog_set_state s0 s" and "txn_steps clog_set_state s t"
    and "snap \<in> set (taken t)" and "xmax \<noteq> TxnId_INVALID"
    and "xmax < oldest_snapshot_xmin (mgr s)"
    and "clog_get_state (clog (mgr s)) xmax = Committed" and "current_xid snap \<noteq> xmax"
  shows "\<not> is_visible (clog_get_state (clog (mgr t))) xmin xmax cid (snap\<lparr>curcid := k\<rparr>)"
  using mem_clog.dead_below_horizon_invisible [OF assms(3) mem_clog.txn.inv_reachable [OF assms(1,2)] assms(4-)] .

theorem vacuum_horizon_safe_witness:
  "\<not> is_visible (clog_get_state (clog (mgr txn_ex2))) 0 1 0
     (\<lparr>snap_xmin = 2, snap_xmax = 3, xip = [2], current_xid = 3, curcid = 0\<rparr>\<lparr>curcid := 0\<rparr>)"
  by (rule vacuum_horizon_safe [OF txn_ex_init txn_ex1_run txn_ex2_run])
    (simp_all add: txn_ex_eval oldest_snapshot_xmin_def)

text \<open>C12. A terminal commit-log state never changes again.\<close>

theorem terminal_states_are_final:
  assumes "txn_init clog_get_state s0" and "txn_steps clog_set_state s0 s" and "txn_steps clog_set_state s t"
    and "clog_get_state (clog (mgr s)) x \<noteq> InProgress"
  shows "clog_get_state (clog (mgr t)) x = clog_get_state (clog (mgr s)) x"
  using assms(3) mem_clog.txn.inv_reachable [OF assms(1,2)] assms(4)
  by (rule mem_clog.terminal_state_final)

theorem terminal_states_are_final_witness:
  "clog_get_state (clog (mgr txn_ex2)) 1 = clog_get_state (clog (mgr txn_ex1)) 1 \<and>
   clog_get_state (clog (mgr txn_ex1)) 1 = Committed"
  using terminal_states_are_final [OF txn_ex_init txn_ex1_run txn_ex2_run, of 1]
  by (simp add: txn_ex_eval)

text \<open>
  C13. The horizon registry is exact: it counts, for every \<open>xmin\<close>, the live snapshots with that
  \<open>xmin\<close>, keeps no empty entry, and the live counter is their total.
\<close>

theorem snapshot_registry_exact:
  assumes "txn_init clog_get_state s0" and "txn_steps clog_set_state s0 s"
  shows "registry_count (snapshot_xmins (mgr s)) x = length (filter (\<lambda>snap. snap_xmin snap = x) (taken s)) \<and>
    hm_get (snapshot_xmins (mgr s)) x \<noteq> Some 0 \<and> live_snapshots (mgr s) = length (taken s)"
  using mem_clog.txn.inv_reachable [OF assms] by (simp add: txn_inv_def registry_inv_def)

theorem snapshot_registry_exact_witness:
  "registry_count (snapshot_xmins (mgr txn_ex2)) 2 = 1"
  using snapshot_registry_exact [OF txn_ex_init rtranclp_trans [OF txn_ex1_run txn_ex2_run], of 2]
  by (simp add: txn_ex_eval)

text \<open>
  C11. The commit hard order.  A commit that returns success has appended its record and
  flushed through the record's end before the commit-log state was set and the transaction
  left the active set; a commit that fails leaves the manager as it was.
\<close>

theorem commit_hard_order:
  assumes "commit_txn ops set_state force_fail xid (w, tm) = ((w', tm'), r)"
  shows "r = Ok () \<and>
      (\<exists>rec w1 lsn. mk_record ops (TxnCommit xid) = Some rec \<and> wal_append ops w rec = (w1, Some lsn) \<and>
         wal_flush_to ops w1 (lsn + record_size ops rec) = (w', True)) \<and>
      clog tm' = set_state (clog tm) xid Committed \<and> active tm' = active tm - {xid} \<and>
      txn_victims tm' = txn_victims tm - {xid}
    \<or> (\<exists>e. r = Err e) \<and> tm' = tm"
  using assms
  by (auto simp: commit_txn_def log_terminal_def end_txn_def txn_defs
      split: if_splits option.splits prod.splits bool.splits)

definition ex_wal :: "(txn_wal_record list, txn_wal_record) CommitWal" where
  "ex_wal = \<lparr>mk_record = Some, record_size = (\<lambda>_. 8),
     wal_append = (\<lambda>w r. (w @ [r], Some (8 * of_nat (length w)))),
     wal_flush_to = (\<lambda>w lsn. (w, lsn \<le> 8 * of_nat (length w)))\<rparr>"

theorem commit_hard_order_witness:
  "snd (commit_txn ex_wal clog_set_state False 2 ([], mgr txn_ex1)) = Ok () \<and>
   active (snd (fst (commit_txn ex_wal clog_set_state False 2 ([], mgr txn_ex1)))) = {}"
  using commit_hard_order [of ex_wal clog_set_state False 2 "[]" "mgr txn_ex1"]
  by (auto simp: commit_txn_def log_terminal_def ex_wal_def txn_ex1_mgr end_txn_def txn_defs)

end
