(* ===== verification/Deadlock.thy ===== *)
theory Deadlock
  imports Lock_Manager Txn_Manager "HOL-Library.Product_Lexorder"
begin

text \<open>
  The deadlock detector of \<^verbatim>\<open>pg-txn/src/deadlock.rs\<close>: the victim registry, the merged
  wait-for graph, the depth-first cycle search, and one detection round.  A round reads the
  managers twice (once to find cycles, once to re-verify them), so \<open>tick\<close> takes both states
  it reads.  The threads' sleeping and the wakeup broadcasts have no state of their own.
\<close>

section \<open>Victims\<close>

type_synonym DeadlockVictims = "TxnId set"

definition victims_mark :: "DeadlockVictims \<Rightarrow> TxnId \<Rightarrow> DeadlockVictims" where
  "victims_mark v xid = insert xid v"

definition victims_take :: "DeadlockVictims \<Rightarrow> TxnId \<Rightarrow> DeadlockVictims \<times> bool" where
  "victims_take v xid = (v - {xid}, xid \<in> v)"

definition victims_clear :: "DeadlockVictims \<Rightarrow> TxnId \<Rightarrow> DeadlockVictims" where
  "victims_clear v xid = v - {xid}"

definition victims_marked :: "DeadlockVictims \<Rightarrow> TxnId list" where
  "victims_marked v = sorted_list_of_set v"

section \<open>The wait-for graph\<close>

type_synonym edge = "TxnId \<times> TxnId"

definition table_wait_edges :: "TableLockState \<Rightarrow> edge list" where
  "table_wait_edges st =
     concat (map (\<lambda>(waiter, waiter_mode).
       map (\<lambda>(holder, _). (waiter, holder))
         (filter (\<lambda>(holder, holder_mode). holder \<noteq> waiter \<and> conflicts_with holder_mode waiter_mode)
           (tls_granted st))) (tls_waiters st))"

definition wait_for_edges :: "'c TxnManager \<Rightarrow> LockManager \<Rightarrow> edge list" where
  "wait_for_edges tm lm =
     remdups_adj (sort (wait_edges tm @ concat (map (table_wait_edges \<circ> snd) (table_lock_states lm))))"

section \<open>Cycle search\<close>

type_synonym adjacency = "(TxnId, TxnId list) hmap"

fun adjacency_push :: "adjacency \<Rightarrow> edge \<Rightarrow> adjacency" where
  "adjacency_push adj (a, b) =
     hm_insert a ((case hm_get adj a of None \<Rightarrow> [] | Some ts \<Rightarrow> ts) @ [b]) adj"

definition adjacency_of :: "edge list \<Rightarrow> adjacency" where
  "adjacency_of edges =
     map (\<lambda>(a, ts). (a, remdups_adj (sort ts))) (foldl adjacency_push [] edges)"

definition children_of :: "adjacency \<Rightarrow> TxnId \<Rightarrow> TxnId list" where
  "children_of adj node = (case hm_get adj node of None \<Rightarrow> [] | Some ts \<Rightarrow> ts)"

datatype color = WHITE | GRAY | BLACK

definition color_of :: "(TxnId, color) hmap \<Rightarrow> TxnId \<Rightarrow> color" where
  "color_of cm x = (case hm_get cm x of None \<Rightarrow> WHITE | Some c \<Rightarrow> c)"

text \<open>
  The explicit stack pairs each node of \<^verbatim>\<open>path\<close> with its cursor in \<^verbatim>\<open>next_child\<close>, top first,
  so the path is the stack read from the bottom.  A gray successor that is not on the path
  is the code's panic, the result \<open>None\<close>.
\<close>

abbreviation stack_path :: "(TxnId \<times> nat) list \<Rightarrow> TxnId list" where
  "stack_path stack \<equiv> rev (map fst stack)"

definition adjacency_nodes :: "adjacency \<Rightarrow> TxnId set" where
  "adjacency_nodes adj = fst ` set adj \<union> \<Union> (set ` snd ` set adj)"

definition white_nodes :: "adjacency \<Rightarrow> (TxnId, color) hmap \<Rightarrow> TxnId set" where
  "white_nodes adj cm = {x \<in> adjacency_nodes adj. color_of cm x = WHITE}"

definition pending :: "adjacency \<Rightarrow> (TxnId \<times> nat) list \<Rightarrow> nat" where
  "pending adj stack = sum_list (map (\<lambda>(n, c). Suc (length (children_of adj n) - c)) stack)"

lemma finite_white_nodes [simp]: "finite (white_nodes adj cm)"
  by (simp add: white_nodes_def adjacency_nodes_def)

lemma color_of_insert [simp]: "color_of (hm_insert k c cm) x = (if x = k then c else color_of cm x)"
  by (simp add: color_of_def hmap_simps)

lemma children_in_nodes: "i < length (children_of adj n) \<Longrightarrow> children_of adj n ! i \<in> adjacency_nodes adj"
  by (auto simp: children_of_def adjacency_nodes_def split: option.splits dest!: map_of_SomeD)
    (force dest: nth_mem)

lemma white_nodes_gray:
  "color_of cm x = WHITE \<Longrightarrow> x \<in> adjacency_nodes adj \<Longrightarrow>
     card (white_nodes adj (hm_insert x GRAY cm)) < card (white_nodes adj cm)"
  by (rule psubset_card_mono) (auto simp: white_nodes_def)

lemma white_nodes_black: "card (white_nodes adj (hm_insert x BLACK cm)) \<le> card (white_nodes adj cm)"
  by (rule card_mono) (auto simp: white_nodes_def)

function dfs ::
    "adjacency \<Rightarrow> (TxnId, color) hmap \<Rightarrow> (TxnId \<times> nat) list \<Rightarrow> TxnId list list \<Rightarrow>
     ((TxnId, color) hmap \<times> TxnId list list) option" where
  "dfs adj cm [] cycles = Some (cm, cycles)"
| "dfs adj cm ((node, cursor) # rest) cycles =
     (let children = children_of adj node in
      if cursor < length children then
        (let next = children ! cursor; stack = (node, cursor + 1) # rest in
         case color_of cm next of
           GRAY \<Rightarrow>
             if next \<in> set (stack_path stack)
             then dfs adj cm stack (cycles @ [dropWhile (\<lambda>n. n \<noteq> next) (stack_path stack)])
             else None
         | WHITE \<Rightarrow> dfs adj (hm_insert next GRAY cm) ((next, 0) # stack) cycles
         | BLACK \<Rightarrow> dfs adj cm stack cycles)
      else dfs adj (hm_insert node BLACK cm) rest cycles)"
  by pat_completeness auto
termination
  by (relation "measures [\<lambda>(adj, cm, _, _). card (white_nodes adj cm), \<lambda>(adj, _, stack, _). pending adj stack]")
    (auto simp: pending_def children_in_nodes white_nodes_gray le_neq_implies_less [OF white_nodes_black])

fun dfs_all ::
    "adjacency \<Rightarrow> (TxnId, color) hmap \<Rightarrow> TxnId list \<Rightarrow> TxnId list list \<Rightarrow> TxnId list list option" where
  "dfs_all adj cm [] cycles = Some cycles"
| "dfs_all adj cm (start # nodes) cycles =
     (if color_of cm start \<noteq> WHITE then dfs_all adj cm nodes cycles
      else case dfs adj (hm_insert start GRAY cm) [(start, 0)] cycles of
             None \<Rightarrow> None
           | Some (cm', cycles') \<Rightarrow> dfs_all adj cm' nodes cycles')"

definition find_cycles :: "edge list \<Rightarrow> TxnId list list option" where
  "find_cycles edges =
     (let adj = adjacency_of edges in dfs_all adj [] (sort (map fst adj)) [])"

section \<open>Detection\<close>

text \<open>The edges of a cycle, the closing one included: \<^verbatim>\<open>zip(cycle().skip(1))\<close>.\<close>

definition cycle_edges :: "TxnId list \<Rightarrow> edge list" where
  "cycle_edges c = zip c (rotate1 c)"

text \<open>An empty cycle is the panic of \<^verbatim>\<open>max().expect\<close>, the result \<open>None\<close>.\<close>

fun mark_victims ::
    "'c TxnManager \<Rightarrow> edge set \<Rightarrow> TxnId list list \<Rightarrow> DeadlockVictims \<Rightarrow> DeadlockVictims option" where
  "mark_victims tm fresh [] victims = Some victims"
| "mark_victims tm fresh (c # cs) victims =
     (if c = [] then None
      else let victim = Max (set c) in
      if victim \<in> victims then mark_victims tm fresh cs victims
      else if \<not> is_active tm victim then mark_victims tm fresh cs victims
      else if \<not> list_all (\<lambda>e. e \<in> fresh) (cycle_edges c) then mark_victims tm fresh cs victims
      else mark_victims tm fresh cs (victims_mark victims victim))"

definition prune_victims :: "'c TxnManager \<Rightarrow> DeadlockVictims \<Rightarrow> DeadlockVictims" where
  "prune_victims tm victims =
     foldl (\<lambda>v xid. if is_active tm xid then v else victims_clear v xid) victims (victims_marked victims)"

text \<open>\<open>tm1\<close>, \<open>lm1\<close> are the managers at the first snapshot, \<open>tm2\<close>, \<open>lm2\<close> at the second.\<close>

definition tick ::
    "'c TxnManager \<Rightarrow> LockManager \<Rightarrow> 'c TxnManager \<Rightarrow> LockManager \<Rightarrow> DeadlockVictims \<Rightarrow>
     DeadlockVictims option" where
  "tick tm1 lm1 tm2 lm2 victims =
     (let v = prune_victims tm1 victims; edges = wait_for_edges tm1 lm1 in
      if edges = [] then Some v
      else case find_cycles edges of
             None \<Rightarrow> None
           | Some cycles \<Rightarrow>
               if cycles = [] then Some v
               else mark_victims tm2 (set (wait_for_edges tm2 lm2)) cycles v)"

section \<open>The graph the search walks\<close>

lemma adjacency_foldl:
  "(case hm_get (foldl adjacency_push adj es) x of None \<Rightarrow> [] | Some ts \<Rightarrow> ts) =
     (case hm_get adj x of None \<Rightarrow> [] | Some ts \<Rightarrow> ts) @ map snd (filter (\<lambda>e. fst e = x) es)"
proof (induction es arbitrary: adj)
  case (Cons e es)
  then show ?case by (cases e) (auto simp: hmap_simps)
qed simp

lemma set_children_of: "set (children_of (adjacency_of edges) x) = set edges `` {x}"
proof -
  have "children_of (adjacency_of edges) x = remdups_adj (sort (map snd (filter (\<lambda>e. fst e = x) edges)))"
    using adjacency_foldl [of "[]" edges x]
    by (auto simp: children_of_def adjacency_of_def map_of_map split: option.splits)
  then show ?thesis by force
qed

lemma adjacency_keys: "fst ` set (foldl adjacency_push adj es) = fst ` set adj \<union> fst ` set es"
proof (induction es arbitrary: adj)
  case (Cons e es)
  have "fst ` set (adjacency_push adj e) = insert (fst e) (fst ` set adj)"
    by (cases e) (simp add: dom_map_of_conv_image_fst [symmetric] update_conv')
  then show ?case using Cons by auto
qed simp

lemma adjacency_of_keys: "fst ` set (adjacency_of edges) = fst ` set edges"
  using adjacency_keys [of "[]" edges] by (force simp: adjacency_of_def)

section \<open>Correctness of the search\<close>

definition is_cycle :: "edge set \<Rightarrow> TxnId list \<Rightarrow> bool" where
  "is_cycle E c \<longleftrightarrow> c \<noteq> [] \<and> set (cycle_edges c) \<subseteq> E"

text \<open>
  While no cycle has been found, the children before a node's cursor are black, except the one
  the search went down into, which is the node above on the stack.
\<close>

fun explored :: "adjacency \<Rightarrow> (TxnId, color) hmap \<Rightarrow> TxnId option \<Rightarrow> (TxnId \<times> nat) list \<Rightarrow> bool" where
  "explored adj cm up [] = True"
| "explored adj cm up ((n, c) # rest) =
     ((\<forall>i < c. i < length (children_of adj n) \<longrightarrow>
         color_of cm (children_of adj n ! i) = BLACK \<or> Some (children_of adj n ! i) = up) \<and>
      explored adj cm (Some n) rest)"

definition black_closed :: "edge set \<Rightarrow> (TxnId, color) hmap \<Rightarrow> bool" where
  "black_closed E cm \<longleftrightarrow>
     (\<forall>x. color_of cm x = BLACK \<longrightarrow> (\<forall>y. (x, y) \<in> E \<longrightarrow> color_of cm y = BLACK) \<and> (x, x) \<notin> E\<^sup>+)"

definition dfs_inv ::
    "edge set \<Rightarrow> adjacency \<Rightarrow> (TxnId, color) hmap \<Rightarrow> (TxnId \<times> nat) list \<Rightarrow> TxnId list list \<Rightarrow> bool" where
  "dfs_inv E adj cm stack cycles \<longleftrightarrow>
     (\<forall>x. color_of cm x = GRAY \<longleftrightarrow> x \<in> fst ` set stack) \<and> distinct (map fst stack) \<and>
     successively (\<lambda>b a. (a, b) \<in> E) (map fst stack) \<and> (\<forall>c \<in> set cycles. is_cycle E c) \<and>
     (cycles = [] \<longrightarrow> black_closed E cm \<and> explored adj cm None stack)"

lemma explored_mono:
  assumes "explored adj cm up stack" and "\<And>x. color_of cm x = BLACK \<Longrightarrow> color_of cm' x = BLACK"
    and "\<And>x. up = Some x \<Longrightarrow> color_of cm' x = BLACK \<or> up' = Some x"
  shows "explored adj cm' up' stack"
  using assms
proof (induction stack arbitrary: up up')
  case (Cons p rest)
  obtain n c where p: "p = (n, c)" by (cases p)
  have "explored adj cm' (Some n) rest"
    using Cons.prems(1,2) p by (intro Cons.IH [of "Some n"]) auto
  then show ?case using Cons.prems p by auto
qed simp

lemma zip_chain:
  "successively P (x # xs) \<Longrightarrow> P (last (x # xs)) z \<Longrightarrow> \<forall>(a, b) \<in> set (zip (x # xs) (xs @ [z])). P a b"
  by (induction xs arbitrary: x) auto

lemma chain_cycle:
  assumes "successively (\<lambda>a b. (a, b) \<in> E) c" and "c \<noteq> []" and "(last c, hd c) \<in> E"
  shows "is_cycle E c"
  using assms zip_chain [of "\<lambda>a b. (a, b) \<in> E" "hd c" "tl c" "hd c"]
  by (cases c) (auto simp: is_cycle_def cycle_edges_def)

lemma successively_dropWhile: "successively P xs \<Longrightarrow> successively P (dropWhile Q xs)"
  by (metis successively_append_iff takeWhile_dropWhile_id)

text \<open>The path from a gray successor to the top of the stack is a cycle.\<close>

lemma back_edge_cycle:
  assumes "successively (\<lambda>b a. (a, b) \<in> E) (map fst ((node, k) # rest))"
    and "next \<in> fst ` set ((node, k) # rest)" and "(node, next) \<in> E"
  shows "is_cycle E (dropWhile (\<lambda>n. n \<noteq> next) (stack_path ((node, k) # rest)))"
proof (rule chain_cycle)
  let ?p = "stack_path ((node, k) # rest)"
  have mem: "next \<in> set ?p" using assms(2) by auto
  have "successively (\<lambda>a b. (a, b) \<in> E) ?p" using assms(1) by (simp only: successively_rev)
  then show "successively (\<lambda>a b. (a, b) \<in> E) (dropWhile (\<lambda>n. n \<noteq> next) ?p)"
    by (rule successively_dropWhile)
  show ne: "dropWhile (\<lambda>n. n \<noteq> next) ?p \<noteq> []" using mem by (simp only: dropWhile_eq_Nil_conv) auto
  have "hd (dropWhile (\<lambda>n. n \<noteq> next) ?p) = next" using hd_dropWhile [OF ne] by blast
  moreover have "last (dropWhile (\<lambda>n. n \<noteq> next) ?p) = node"
    using ne by (metis last_appendR last_snoc takeWhile_dropWhile_id rev.simps(2) list.simps(9) fst_conv)
  ultimately show "(last (dropWhile (\<lambda>n. n \<noteq> next) ?p), hd (dropWhile (\<lambda>n. n \<noteq> next) ?p)) \<in> E"
    using assms(3) by simp
qed

lemma black_closed_star:
  assumes "black_closed E cm" and "(x, y) \<in> E\<^sup>*" and "color_of cm x = BLACK"
  shows "color_of cm y = BLACK"
  using assms(2,3,1) by (induction rule: rtrancl_induct) (auto simp: black_closed_def)

lemma black_closed_insert:
  assumes closed: "black_closed E cm" and "color_of cm n \<noteq> BLACK"
    and kids: "\<And>y. (n, y) \<in> E \<Longrightarrow> color_of cm y = BLACK"
  shows "black_closed E (hm_insert n BLACK cm)"
proof -
  have "(n, n) \<notin> E\<^sup>+"
    using black_closed_star [OF closed] kids assms(2) by (metis tranclD)
  then show ?thesis using closed kids by (auto simp: black_closed_def)
qed

text \<open>The four branches of a search step keep the invariant.\<close>

lemma dfs_inv_gray:
  assumes "dfs_inv E adj cm ((n, c) # rest) cycles" and "set (children_of adj n) = E `` {n}"
    and "c < length (children_of adj n)" and "color_of cm (children_of adj n ! c) = GRAY"
  shows "dfs_inv E adj cm ((n, c + 1) # rest)
    (cycles @ [dropWhile (\<lambda>x. x \<noteq> children_of adj n ! c) (stack_path ((n, c + 1) # rest))])"
proof -
  have "(n, children_of adj n ! c) \<in> E" using assms(2,3) nth_mem by blast
  moreover have "children_of adj n ! c \<in> fst ` set ((n, c + 1) # rest)"
    using assms(1,4) by (auto simp: dfs_inv_def)
  ultimately have "is_cycle E (dropWhile (\<lambda>x. x \<noteq> children_of adj n ! c) (stack_path ((n, c + 1) # rest)))"
    using assms(1) by (intro back_edge_cycle) (auto simp: dfs_inv_def)
  then show ?thesis using assms(1) by (auto simp: dfs_inv_def)
qed

lemma dfs_inv_white:
  assumes "dfs_inv E adj cm ((n, c) # rest) cycles" and "set (children_of adj n) = E `` {n}"
    and "c < length (children_of adj n)" and white: "color_of cm (children_of adj n ! c) = WHITE"
  shows "dfs_inv E adj (hm_insert (children_of adj n ! c) GRAY cm)
    ((children_of adj n ! c, 0) # (n, c + 1) # rest) cycles"
proof -
  let ?x = "children_of adj n ! c"
  have "(n, ?x) \<in> E" using assms(2,3) nth_mem by blast
  moreover have "color_of cm y = GRAY \<longleftrightarrow> y \<in> fst ` set ((n, c) # rest)" for y
    using assms(1) unfolding dfs_inv_def by blast
  then have "?x \<noteq> n" and "?x \<notin> fst ` set rest" using white by (metis color.distinct(1) fst_conv image_insert insert_iff list.simps(15))+
  moreover have "explored adj (hm_insert ?x GRAY cm) (Some n) rest" if "explored adj cm (Some n) rest"
    by (rule explored_mono [OF that]) (use white in auto)
  moreover have "black_closed E (hm_insert ?x GRAY cm)" if "black_closed E cm"
    using that white by (auto simp: black_closed_def)
  ultimately show ?thesis
    using assms(1) white by (auto simp: dfs_inv_def less_Suc_eq)
qed

lemma dfs_inv_black:
  assumes "dfs_inv E adj cm ((n, c) # rest) cycles" and "color_of cm (children_of adj n ! c) = BLACK"
  shows "dfs_inv E adj cm ((n, c + 1) # rest) cycles"
  using assms by (auto simp: dfs_inv_def less_Suc_eq)

lemma dfs_inv_pop:
  assumes inv: "dfs_inv E adj cm ((n, c) # rest) cycles" and kids: "set (children_of adj n) = E `` {n}"
    and fin: "\<not> c < length (children_of adj n)"
  shows "dfs_inv E adj (hm_insert n BLACK cm) rest cycles"
proof -
  have "black_closed E (hm_insert n BLACK cm)" if "cycles = []"
  proof (rule black_closed_insert)
    show "black_closed E cm" using inv that by (simp add: dfs_inv_def)
    show "color_of cm n \<noteq> BLACK" using inv unfolding dfs_inv_def by (metis color.distinct(5) fst_conv image_eqI list.set_intros(1))
    fix y assume "(n, y) \<in> E"
    then have "y \<in> set (children_of adj n)" using kids by simp
    then obtain i where "i < length (children_of adj n)" "y = children_of adj n ! i" by (metis in_set_conv_nth)
    then show "color_of cm y = BLACK" using inv that fin by (auto simp: dfs_inv_def)
  qed
  moreover have "explored adj (hm_insert n BLACK cm) None rest" if "explored adj cm (Some n) rest"
    using that by (rule explored_mono) auto
  moreover have "successively (\<lambda>b a. (a, b) \<in> E) (map fst rest)"
    using inv by (cases rest) (auto simp: dfs_inv_def)
  ultimately show ?thesis using inv by (auto simp: dfs_inv_def)
qed

lemma dfs_correct:
  assumes "dfs_inv E adj cm stack cycles" and "\<And>x. set (children_of adj x) = E `` {x}"
  shows "\<exists>cm' cycles'. dfs adj cm stack cycles = Some (cm', cycles') \<and> dfs_inv E adj cm' [] cycles' \<and>
    (\<forall>x. color_of cm x \<noteq> WHITE \<longrightarrow> color_of cm' x \<noteq> WHITE)"
  using assms
proof (induction adj cm stack cycles rule: dfs.induct)
  case (2 adj cm n c rest cycles)
  let ?cs = "children_of adj n" and ?x = "children_of adj n ! c"
  note inv = 2(5) and kids = 2(6)
  show ?case
  proof (cases "c < length ?cs")
    case False
    have i: "dfs_inv E adj (hm_insert n BLACK cm) rest cycles" using inv kids False by (rule dfs_inv_pop)
    have e: "dfs adj cm ((n, c) # rest) cycles = dfs adj (hm_insert n BLACK cm) rest cycles"
      using False by (simp add: Let_def)
    show ?thesis unfolding e using 2(4) [OF refl False i kids] by (auto split: if_splits)
  next
    case True
    show ?thesis
    proof (cases "color_of cm ?x")
      case WHITE
      note i = dfs_inv_white [OF inv kids True WHITE]
      have e: "dfs adj cm ((n, c) # rest) cycles =
          dfs adj (hm_insert ?x GRAY cm) ((?x, 0) # (n, c + 1) # rest) cycles"
        using True WHITE by (simp add: Let_def)
      show ?thesis unfolding e using 2(1) [OF refl True refl refl WHITE i kids] by (auto split: if_splits)
    next
      case GRAY
      have mem: "?x \<in> set (stack_path ((n, c + 1) # rest))"
        using inv GRAY by (auto simp: dfs_inv_def)
      note i = dfs_inv_gray [OF inv kids True GRAY]
      have e: "dfs adj cm ((n, c) # rest) cycles = dfs adj cm ((n, c + 1) # rest)
          (cycles @ [dropWhile (\<lambda>y. y \<noteq> ?x) (stack_path ((n, c + 1) # rest))])"
        using True GRAY mem by (simp add: Let_def)
      show ?thesis unfolding e using 2(2) [OF refl True refl refl GRAY mem i kids] .
    next
      case BLACK
      note i = dfs_inv_black [OF inv BLACK]
      have e: "dfs adj cm ((n, c) # rest) cycles = dfs adj cm ((n, c + 1) # rest) cycles"
        using True BLACK by (simp add: Let_def)
      show ?thesis unfolding e using 2(3) [OF refl True refl refl BLACK i kids] .
    qed
  qed
qed auto

lemma dfs_all_correct:
  assumes "dfs_inv E adj cm [] cycles" and "\<And>x. set (children_of adj x) = E `` {x}"
  shows "\<exists>cm' cycles'. dfs_all adj cm nodes cycles = Some cycles' \<and> dfs_inv E adj cm' [] cycles' \<and>
    (\<forall>x. color_of cm x \<noteq> WHITE \<or> x \<in> set nodes \<longrightarrow> color_of cm' x \<noteq> WHITE)"
  using assms(1)
proof (induction nodes arbitrary: cm cycles)
  case (Cons x nodes)
  show ?case
  proof (cases "color_of cm x = WHITE")
    case False
    then show ?thesis using Cons.IH [OF Cons.prems] by auto
  next
    case True
    have "dfs_inv E adj (hm_insert x GRAY cm) [(x, 0)] cycles"
      using Cons.prems True by (auto simp: dfs_inv_def black_closed_def)
    from dfs_correct [OF this assms(2)] obtain cm1 cycles1 where
      d: "dfs adj (hm_insert x GRAY cm) [(x, 0)] cycles = Some (cm1, cycles1)"
        "dfs_inv E adj cm1 [] cycles1"
        "\<And>y. color_of (hm_insert x GRAY cm) y \<noteq> WHITE \<Longrightarrow> color_of cm1 y \<noteq> WHITE" by blast
    then show ?thesis using Cons.IH [OF d(2)] True by (fastforce split: if_splits)
  qed
qed auto

lemma cycle_trancl:
  assumes "is_cycle E c"
  shows "(hd c, hd c) \<in> E\<^sup>+"
proof -
  have walk: "(x, z) \<in> E\<^sup>+" if "set (zip (x # xs) (xs @ [z])) \<subseteq> E" for x z xs
    using that by (induction xs arbitrary: x) (auto intro: trancl_into_trancl2)
  show ?thesis
    using assms walk [of "hd c" "tl c" "hd c"] by (cases c) (auto simp: is_cycle_def cycle_edges_def)
qed

lemma find_cycles_correct:
  "\<exists>cycles. find_cycles edges = Some cycles \<and> (\<forall>c \<in> set cycles. is_cycle (set edges) c) \<and>
     (cycles = [] \<longleftrightarrow> acyclic (set edges))"
proof -
  let ?adj = "adjacency_of edges" and ?E = "set edges"
  have "dfs_inv ?E ?adj [] [] []" by (simp add: dfs_inv_def black_closed_def color_of_def)
  from dfs_all_correct [OF this set_children_of, of "sort (map fst ?adj)"] obtain cm cycles where
    r: "find_cycles edges = Some cycles" and inv: "dfs_inv ?E ?adj cm [] cycles"
      and all: "\<And>x. x \<in> fst ` ?E \<Longrightarrow> color_of cm x \<noteq> WHITE"
    by (auto simp: find_cycles_def Let_def adjacency_of_keys)
  have black: "color_of cm x = BLACK" if "x \<in> fst ` ?E" for x
    using all [OF that] inv by (cases "color_of cm x") (auto simp: dfs_inv_def)
  have "acyclic ?E" if "cycles = []"
    unfolding acyclic_def
  proof
    fix x
    show "(x, x) \<notin> ?E\<^sup>+"
    proof
      assume c: "(x, x) \<in> ?E\<^sup>+"
      then have "x \<in> fst ` ?E" by (metis tranclD fst_conv image_eqI)
      then show False using black [of x] inv that c by (auto simp: dfs_inv_def black_closed_def)
    qed
  qed
  moreover have "cycles = []" if "acyclic ?E"
    using that inv cycle_trancl by (cases cycles) (auto simp: dfs_inv_def acyclic_def)
  ultimately show ?thesis using r inv by (auto simp: dfs_inv_def)
qed

section \<open>Marking\<close>

lemma mark_victims_correct:
  assumes "\<forall>c \<in> set cycles. c \<noteq> []"
  shows "mark_victims tm fresh cycles victims =
    Some (victims \<union> {Max (set c) | c. c \<in> set cycles \<and> Max (set c) \<in> active tm \<and> set (cycle_edges c) \<subseteq> fresh})"
  using assms
proof (induction cycles arbitrary: victims)
  case (Cons c cycles)
  have "list_all (\<lambda>e. e \<in> fresh) (cycle_edges c) \<longleftrightarrow> set (cycle_edges c) \<subseteq> fresh"
    by (auto simp: list_all_iff)
  then show ?case
    using Cons.prems Cons.IH [of victims] Cons.IH [of "insert (Max (set c)) victims"]
    by (auto simp: Let_def is_active_def victims_mark_def)
qed auto

lemma prune_victims_eq:
  assumes "finite victims"
  shows "prune_victims tm victims = victims \<inter> active tm"
proof -
  have "foldl (\<lambda>v xid. if is_active tm xid then v else victims_clear v xid) v xs =
      v - (set xs - active tm)" for v xs
    by (induction xs arbitrary: v) (auto simp: is_active_def victims_clear_def)
  then show ?thesis using assms by (auto simp: prune_victims_def victims_marked_def)
qed

lemma set_wait_for_edges:
  "set (wait_for_edges tm lm) = set (row_wait_registry tm) \<union>
     {(w_xid w, h) | table e w h m. (table, e) \<in> set (entries lm) \<and> w \<in> set (wait_queue e) \<and>
        (h, m) \<in> set (granted e) \<and> h \<noteq> w_xid w \<and> conflicts_with m (w_mode w)}"
  (is "_ = _ \<union> ?R")
proof -
  have "\<Union> (set ` (table_wait_edges \<circ> snd) ` set (table_lock_states lm)) = ?R"
    by (force simp: table_lock_states_def table_wait_edges_def lock_state_of_def)
  then show ?thesis by (simp add: wait_for_edges_def wait_edges_def)
qed

lemma mark_found_cycles:
  assumes "find_cycles edges = Some cycles"
  shows "mark_victims tm fresh cycles victims =
    Some (victims \<union> {Max (set c) | c. c \<in> set cycles \<and> Max (set c) \<in> active tm \<and> set (cycle_edges c) \<subseteq> fresh})"
  using find_cycles_correct [of edges] assms by (intro mark_victims_correct) (auto simp: is_cycle_def)

lemma cycle_node_source: "is_cycle E c \<Longrightarrow> x \<in> set c \<Longrightarrow> \<exists>y. (x, y) \<in> E"
proof -
  assume c: "is_cycle E c" and x: "x \<in> set c"
  then obtain i where i: "i < length c" "x = c ! i" by (metis in_set_conv_nth)
  then have "(x, rotate1 c ! i) \<in> set (cycle_edges c)" by (auto simp: cycle_edges_def set_zip)
  then show ?thesis using c by (auto simp: is_cycle_def)
qed

text \<open>Two transactions that wait for each other's row locks.\<close>

definition deadlock_ex :: "InMemoryClogAccessor TxnManager" where
  "deadlock_ex = register_row_wait 2 1 (register_row_wait 1 2
     (fst (begin_txn (fst (begin_txn (txn_manager_new TxnId_FIRST clog_new))))))"

lemma deadlock_ex_edges: "set (wait_for_edges deadlock_ex lm_new) = {(1, 2), (2, 1)}"
  "active deadlock_ex = {1, 2}"
  by (auto simp: set_wait_for_edges deadlock_ex_def lm_new_def txn_defs txn_manager_new_def TxnId_FIRST_def)

lemma deadlock_ex_cyclic: "\<not> acyclic (set (wait_for_edges deadlock_ex lm_new))"
proof -
  have "(1, 1) \<in> (set (wait_for_edges deadlock_ex lm_new))\<^sup>+"
    by (rule trancl_into_trancl [OF r_into_trancl, of _ 2]) (simp_all add: deadlock_ex_edges)
  then show ?thesis by (auto simp: acyclic_def)
qed

section \<open>Properties\<close>

text \<open>
  C3. The cycle search terminates without panicking, every list it reports is a closed walk of
  edges of the graph, and it reports none exactly when the graph is acyclic.
\<close>

theorem find_cycles_exact:
  "\<exists>cycles. find_cycles edges = Some cycles \<and> (\<forall>c \<in> set cycles. is_cycle (set edges) c) \<and>
     (cycles = [] \<longleftrightarrow> acyclic (set edges))"
  by (rule find_cycles_correct)

theorem find_cycles_exact_witness: "find_cycles [(1, 2), (2, 1)] = Some [[1, 2]] \<and> \<not> acyclic {(1::TxnId, 2), (2, 1)}"
proof -
  have "find_cycles [(1, 2), (2, 1)] = Some [[1, 2]]" by code_simp
  then show ?thesis using find_cycles_exact [of "[(1, 2), (2, 1)]"] by auto
qed

text \<open>
  C10. A detection round never panics, and it only adds marks that break a real deadlock: a new
  victim is active at the second snapshot and is the youngest transaction of a cycle present
  in both snapshots of the wait-for graph.
\<close>

theorem tick_marks_only_deadlocked:
  assumes "finite victims"
  shows "\<exists>v. tick tm1 lm1 tm2 lm2 victims = Some v \<and>
    (\<forall>x \<in> v. x \<in> victims \<and> x \<in> active tm1 \<or>
       x \<in> active tm2 \<and> (\<exists>c. is_cycle (set (wait_for_edges tm1 lm1)) c \<and>
         is_cycle (set (wait_for_edges tm2 lm2)) c \<and> x = Max (set c)))"
proof -
  obtain cycles where c: "find_cycles (wait_for_edges tm1 lm1) = Some cycles"
    "\<And>c. c \<in> set cycles \<Longrightarrow> is_cycle (set (wait_for_edges tm1 lm1)) c"
    using find_cycles_correct by blast
  have both: "is_cycle (set (wait_for_edges tm2 lm2)) c"
    if "c \<in> set cycles" and "set (cycle_edges c) \<subseteq> set (wait_for_edges tm2 lm2)" for c
    using c(2) that by (auto simp: is_cycle_def)
  let ?new = "{Max (set c) | c. c \<in> set cycles \<and> Max (set c) \<in> active tm2 \<and>
     set (cycle_edges c) \<subseteq> set (wait_for_edges tm2 lm2)}"
  have "tick tm1 lm1 tm2 lm2 victims = Some (victims \<inter> active tm1) \<or>
    tick tm1 lm1 tm2 lm2 victims = Some (victims \<inter> active tm1 \<union> ?new)"
    by (simp add: tick_def Let_def c(1) mark_found_cycles [OF c(1)] prune_victims_eq [OF assms])
  moreover have "\<forall>x \<in> ?new. x \<in> active tm2 \<and> (\<exists>c. is_cycle (set (wait_for_edges tm1 lm1)) c \<and>
         is_cycle (set (wait_for_edges tm2 lm2)) c \<and> x = Max (set c))"
    using c(2) both by blast
  ultimately show ?thesis by blast
qed

theorem tick_marks_only_deadlocked_witness:
  "\<exists>v. tick deadlock_ex lm_new deadlock_ex lm_new {7} = Some v \<and> 7 \<notin> v"
proof -
  have no7: "x \<noteq> 7" if "x \<in> active deadlock_ex" for x using that by (auto simp: deadlock_ex_edges)
  show ?thesis
    using tick_marks_only_deadlocked [of "{7}" deadlock_ex lm_new deadlock_ex lm_new] no7 by fastforce
qed

text \<open>
  C9. Deadlocks are broken: when the wait-for graph is cyclic, stays the same during the
  round, and the waiting transactions are active, the round leaves a transaction of some cycle marked.
\<close>

theorem tick_breaks_deadlock:
  assumes "finite victims" and cyc: "\<not> acyclic (set (wait_for_edges tm lm))"
    and act: "\<forall>(waiter, holder) \<in> set (wait_for_edges tm lm). waiter \<in> active tm"
  shows "\<exists>v c x. tick tm lm tm lm victims = Some v \<and> is_cycle (set (wait_for_edges tm lm)) c \<and> x \<in> set c \<inter> v"
proof -
  let ?E = "wait_for_edges tm lm"
  obtain cycles c where c: "find_cycles ?E = Some (c # cycles)" and ic: "is_cycle (set ?E) c"
    using find_cycles_correct [of ?E] cyc by (metis list.exhaust list.set_intros(1))
  have mem: "Max (set c) \<in> set c" using ic by (auto simp: is_cycle_def)
  then have "Max (set c) \<in> active tm" using cycle_node_source [OF ic mem] act by auto
  moreover have "?E \<noteq> []" using cyc by (auto simp: acyclic_def)
  ultimately have "\<exists>v. tick tm lm tm lm victims = Some v \<and> Max (set c) \<in> v"
    using ic unfolding tick_def Let_def c option.case mark_found_cycles [OF c] by (auto simp: is_cycle_def)
  then show ?thesis using ic mem by blast
qed

theorem tick_breaks_deadlock_witness:
  "\<exists>v. tick deadlock_ex lm_new deadlock_ex lm_new {} = Some v \<and> v \<noteq> {}"
  using tick_breaks_deadlock [of "{}" deadlock_ex lm_new] deadlock_ex_cyclic
  by (auto simp: deadlock_ex_edges)

end
