(* ===== verification/Page_Format.thy ===== *)
theory Page_Format
  imports Ams_Prelude
begin

unbundle bit_operations_syntax

text \<open>
  The page header of \<^verbatim>\<open>pg-storage/src/page.rs\<close> and the line pointers of
  \<^verbatim>\<open>pg-am-heap/src/line_pointer.rs\<close> and \<^verbatim>\<open>page.rs\<close>, byte for byte.  A page is a byte list;
  the lemmas show that the codecs are inverse to each other and that writing a field leaves
  the other bytes alone (\<open>page_simps\<close>).
\<close>

section \<open>Header\<close>

definition PAGE_HEADER_SIZE :: nat where "PAGE_HEADER_SIZE = 32"
definition PAGE_FORMAT_VERSION :: u16 where "PAGE_FORMAT_VERSION = 1"

type_synonym page = "u8 list"

definition page_pd_lsn :: "page \<Rightarrow> Lsn" where
  "page_pd_lsn page = le_word (slice_of page 0 8)"

definition set_page_pd_lsn :: "page \<Rightarrow> Lsn \<Rightarrow> page" where
  "set_page_pd_lsn page lsn = write_at page 0 (le_bytes 8 lsn)"

definition page_pd_flags :: "page \<Rightarrow> u16" where
  "page_pd_flags page = le_word (slice_of page 12 14)"

definition set_page_pd_flags :: "page \<Rightarrow> u16 \<Rightarrow> page" where
  "set_page_pd_flags page flags = write_at page 12 (le_bytes 2 flags)"

record PageHeader =
  pd_lsn :: Lsn
  pd_checksum :: u32
  pd_flags :: u16
  pd_lower :: u16
  pd_upper :: u16
  pd_special :: u16
  pd_pagesize_version :: u16
  pd_prune_xid :: u32

definition header_new :: "u16 \<Rightarrow> PageHeader" where
  "header_new page_size =
     \<lparr>pd_lsn = Lsn_INVALID, pd_checksum = 0, pd_flags = 0, pd_lower = of_nat PAGE_HEADER_SIZE,
      pd_upper = page_size, pd_special = page_size, pd_pagesize_version = PAGE_FORMAT_VERSION,
      pd_prune_xid = 0\<rparr>"

definition header_read_from :: "page \<Rightarrow> PageHeader" where
  "header_read_from page =
     \<lparr>pd_lsn = page_pd_lsn page,
      pd_checksum = le_word (slice_of page 8 12),
      pd_flags = le_word (slice_of page 12 14),
      pd_lower = le_word (slice_of page 14 16),
      pd_upper = le_word (slice_of page 16 18),
      pd_special = le_word (slice_of page 18 20),
      pd_pagesize_version = le_word (slice_of page 20 22),
      pd_prune_xid = le_word (slice_of page 22 26)\<rparr>"

definition header_write_to :: "PageHeader \<Rightarrow> page \<Rightarrow> page" where
  "header_write_to h page =
     (let p = set_page_pd_lsn page (pd_lsn h);
          p = write_at p 8 (le_bytes 4 (pd_checksum h));
          p = write_at p 12 (le_bytes 2 (pd_flags h));
          p = write_at p 14 (le_bytes 2 (pd_lower h));
          p = write_at p 16 (le_bytes 2 (pd_upper h));
          p = write_at p 18 (le_bytes 2 (pd_special h));
          p = write_at p 20 (le_bytes 2 (pd_pagesize_version h));
          p = write_at p 22 (le_bytes 4 (pd_prune_xid h))
      in write_at p 26 (replicate (PAGE_HEADER_SIZE - 26) 0))"

definition init_page :: "page \<Rightarrow> page" where
  "init_page page = header_write_to (header_new (of_nat PAGE_SIZE)) page"

section \<open>Line pointers\<close>

definition LINE_POINTER_SIZE :: nat where "LINE_POINTER_SIZE = 4"
definition LP_OFF_MASK :: u32 where "LP_OFF_MASK = 0x7FFF"
definition LP_FLAGS_SHIFT :: nat where "LP_FLAGS_SHIFT = 15"
definition LP_FLAGS_MASK :: u32 where "LP_FLAGS_MASK = 3"
definition LP_LEN_SHIFT :: nat where "LP_LEN_SHIFT = 17"

datatype LpFlags = Unused | Normal | Redirect | Dead

text \<open>The discriminant \<^verbatim>\<open>flags as u32\<close>.\<close>

fun lp_flags_as_u32 :: "LpFlags \<Rightarrow> u32" where
  "lp_flags_as_u32 Unused = 0"
| "lp_flags_as_u32 Normal = 1"
| "lp_flags_as_u32 Redirect = 2"
| "lp_flags_as_u32 Dead = 3"

definition lp_flags_from_bits :: "u32 \<Rightarrow> LpFlags" where
  "lp_flags_from_bits bits =
     (let b = bits AND LP_FLAGS_MASK in
      if b = 0 then Unused else if b = 1 then Normal else if b = 2 then Redirect else Dead)"

type_synonym LinePointer = u32

definition lp_new :: "u16 \<Rightarrow> LpFlags \<Rightarrow> u16 \<Rightarrow> LinePointer" where
  "lp_new off flags len =
     (ucast off AND LP_OFF_MASK) OR push_bit LP_FLAGS_SHIFT (lp_flags_as_u32 flags)
       OR push_bit LP_LEN_SHIFT (ucast len)"

definition lp_off :: "LinePointer \<Rightarrow> u16" where
  "lp_off lp = ucast (lp AND LP_OFF_MASK)"

definition lp_flags :: "LinePointer \<Rightarrow> LpFlags" where
  "lp_flags lp = lp_flags_from_bits (drop_bit LP_FLAGS_SHIFT lp)"

definition lp_len :: "LinePointer \<Rightarrow> u16" where
  "lp_len lp = ucast (drop_bit LP_LEN_SHIFT lp)"

definition lp_with_flags :: "LinePointer \<Rightarrow> LpFlags \<Rightarrow> LinePointer" where
  "lp_with_flags lp flags = lp_new (lp_off lp) flags (lp_len lp)"

definition lp_from_le_bytes :: "u8 list \<Rightarrow> LinePointer" where
  "lp_from_le_bytes bytes = le_word bytes"

definition lp_to_le_bytes :: "LinePointer \<Rightarrow> u8 list" where
  "lp_to_le_bytes lp = le_bytes 4 lp"

text \<open>The storage crate's own codec of the same layout.\<close>

definition LP_NORMAL :: u32 where "LP_NORMAL = 1"

definition encode_line_pointer :: "u16 \<Rightarrow> u16 \<Rightarrow> u8 list" where
  "encode_line_pointer off len =
     le_bytes 4 ((ucast off AND 0x7FFF) OR push_bit 15 LP_NORMAL OR push_bit 17 (ucast len AND 0x7FFF))"

definition decode_line_pointer :: "u8 list \<Rightarrow> u16 \<times> u16 \<times> bool" where
  "decode_line_pointer bytes =
     (let raw = le_word bytes :: u32;
          off = ucast (raw AND 0x7FFF) :: u16;
          len = ucast (drop_bit 17 raw AND 0x7FFF) :: u16
      in (off, len, drop_bit 15 raw AND 3 = LP_NORMAL))"

section \<open>Lemmas\<close>

lemmas page_consts = PAGE_SIZE_def PAGE_HEADER_SIZE_def LINE_POINTER_SIZE_def

text \<open>The writes of a header run left to right and leave the rest of the page behind it.\<close>

lemma write_at_append: "a = length xs \<Longrightarrow> write_at (xs @ ys) a bs = (xs @ bs) @ drop (length bs) ys"
  by (simp add: write_at_def)

lemma slice_of_append: "a = length xs \<Longrightarrow> b = a + length ys \<Longrightarrow> slice_of (xs @ ys @ zs) a b = ys"
  by (simp add: slice_of_def)

definition header_bytes :: "PageHeader \<Rightarrow> u8 list" where
  "header_bytes h = le_bytes 8 (pd_lsn h) @ le_bytes 4 (pd_checksum h) @ le_bytes 2 (pd_flags h) @
     le_bytes 2 (pd_lower h) @ le_bytes 2 (pd_upper h) @ le_bytes 2 (pd_special h) @
     le_bytes 2 (pd_pagesize_version h) @ le_bytes 4 (pd_prune_xid h) @ replicate 6 0"

lemma length_header_bytes [simp]: "length (header_bytes h) = 32"
  by (simp add: header_bytes_def)

lemma header_write_eq: "header_write_to h page = header_bytes h @ drop PAGE_HEADER_SIZE page"
proof -
  have "header_write_to h page = header_write_to h ([] @ page)" by simp
  also have "\<dots> = header_bytes h @ drop PAGE_HEADER_SIZE page"
    unfolding header_write_to_def set_page_pd_lsn_def Let_def
    by (subst write_at_append, simp)+ (simp add: header_bytes_def PAGE_HEADER_SIZE_def)
  finally show ?thesis .
qed

lemma header_read_bytes: "header_read_from (header_bytes h @ rest) = h"
proof -
  have "slice_of (header_bytes h @ rest) a b = slice_of (header_bytes h) a b" if "b \<le> 32" for a b
    using that by (simp add: slice_of_def)
  then show ?thesis
    by (simp add: header_read_from_def page_pd_lsn_def) (simp add: header_bytes_def slice_of_def)
qed

lemma header_read_write: "header_read_from (header_write_to h page) = h"
  by (simp add: header_write_eq header_read_bytes)

lemma length_header_write [simp]:
  "PAGE_HEADER_SIZE \<le> length page \<Longrightarrow> length (header_write_to h page) = length page"
  by (simp add: header_write_eq PAGE_HEADER_SIZE_def)

lemma mask15: "(0x7FFF :: u32) = mask 15" by (simp add: mask_eq_exp_minus_1)

lemma mask2: "(3 :: u32) = mask 2" by (simp add: mask_eq_exp_minus_1)

lemma bit_small: "unat (w :: 'a::len word) < 2 ^ k \<Longrightarrow> bit w n \<Longrightarrow> n < k"
  by (metis bit_take_bit_iff take_bit_nat_eq_self_iff unsigned_take_bit_eq word_unat_eq_iff)

lemma bit_ucast_small: "unat (w :: u16) < 2 ^ 15 \<Longrightarrow> bit (ucast w :: u32) n \<longleftrightarrow> n < 15 \<and> bit w n"
  using bit_small [of w 15 n] by (auto simp: bit_simps)

lemma lp_flags_less: "unat (lp_flags_as_u32 f) < 2 ^ 2"
  by (cases f) simp_all

lemma lp_flags_inverse: "lp_flags_from_bits (lp_flags_as_u32 f) = f"
  by (cases f) (simp_all add: lp_flags_from_bits_def LP_FLAGS_MASK_def)

text \<open>The three fields of a line pointer do not overlap when they fit 15 bits.\<close>

lemmas lp_defs = lp_new_def lp_off_def lp_flags_def lp_len_def LP_OFF_MASK_def LP_FLAGS_SHIFT_def
  LP_LEN_SHIFT_def LP_FLAGS_MASK_def mask15 mask2

lemma bit_lp_new:
  assumes "unat off < 2 ^ 15" and "unat len < 2 ^ 15"
  shows "bit (lp_new off f len) n \<longleftrightarrow>
    (if n < 15 then bit off n else if n < 17 then bit (lp_flags_as_u32 f) (n - 15)
     else n < 32 \<and> bit len (n - 17))"
  using bit_small [OF lp_flags_less, of f "n - 15"] assms(2) bit_small [OF assms(2), of "n - 17"]
  by (auto simp: lp_defs bit_simps bit_ucast_small [OF assms(1)] possible_bit_def)

lemma lp_off_new [simp]:
  assumes "unat off < 32768" and "unat len < 32768"
  shows "lp_off (lp_new off f len) = off"
  by (rule bit_word_eqI)
    (use assms bit_small [of off 15] in \<open>auto simp: lp_off_def LP_OFF_MASK_def mask15 bit_simps bit_lp_new\<close>)

lemma lp_len_new [simp]:
  assumes "unat off < 32768" and "unat len < 32768"
  shows "lp_len (lp_new off f len) = len"
  by (rule bit_word_eqI)
    (use assms bit_small [of len 15] in \<open>auto simp: lp_len_def LP_LEN_SHIFT_def bit_simps bit_lp_new\<close>)

lemma lp_flags_new [simp]:
  assumes "unat off < 32768" and "unat len < 32768"
  shows "lp_flags (lp_new off f len) = f"
proof -
  have "drop_bit 15 (lp_new off f len) AND mask 2 = lp_flags_as_u32 f"
    by (rule bit_word_eqI)
      (use assms bit_small [OF lp_flags_less, of f] in \<open>auto simp: bit_simps bit_lp_new\<close>)
  moreover have "lp_flags_as_u32 f AND mask 2 = lp_flags_as_u32 f"
    by (rule bit_word_eqI) (use bit_small [OF lp_flags_less, of f] in \<open>auto simp: bit_simps\<close>)
  ultimately show ?thesis
    using lp_flags_inverse [of f] by (simp add: lp_flags_def lp_flags_from_bits_def LP_FLAGS_SHIFT_def LP_FLAGS_MASK_def mask2)
qed

lemma take_bit_small: "take_bit 15 w = w \<Longrightarrow> unat (w :: u16) < 32768"
proof -
  assume "take_bit 15 w = w"
  then have "unat w = take_bit 15 (unat w)" by (metis unsigned_take_bit_eq)
  also have "\<dots> < 2 ^ 15" by (rule take_bit_nat_less_exp)
  finally show ?thesis by simp
qed

lemma lp_off_less [simp]: "unat (lp_off lp) < 32768"
  by (rule take_bit_small, rule bit_word_eqI) (auto simp: lp_off_def LP_OFF_MASK_def mask15 bit_simps)

lemma lp_len_less [simp]: "unat (lp_len lp) < 32768"
  by (rule take_bit_small, rule bit_word_eqI) (auto simp: lp_len_def LP_LEN_SHIFT_def bit_simps dest: bit_imp_le_length)

lemma lp_bytes_inverse [simp]: "lp_from_le_bytes (lp_to_le_bytes lp) = lp"
  by (simp add: lp_from_le_bytes_def lp_to_le_bytes_def)

lemma length_lp_to_le_bytes [simp]: "length (lp_to_le_bytes lp) = 4"
  by (simp add: lp_to_le_bytes_def)

lemma lp_with_flags_fields [simp]:
  "lp_off (lp_with_flags lp f) = lp_off lp" "lp_len (lp_with_flags lp f) = lp_len lp"
  "lp_flags (lp_with_flags lp f) = f"
  by (simp_all add: lp_with_flags_def)

section \<open>Properties\<close>

text \<open>
  Header round trip: a header written to a page reads back unchanged, and writing it
  touches nothing past its 32 bytes.
\<close>

theorem page_header_roundtrip:
  assumes "PAGE_HEADER_SIZE \<le> length page"
  shows "header_read_from (header_write_to h page) = h \<and>
    drop PAGE_HEADER_SIZE (header_write_to h page) = drop PAGE_HEADER_SIZE page \<and>
    length (header_write_to h page) = length page"
  using assms by (simp add: header_write_eq header_read_bytes PAGE_HEADER_SIZE_def)

theorem page_header_roundtrip_witness:
  "pd_upper (header_read_from (init_page (replicate PAGE_SIZE 7))) = 8192"
  using page_header_roundtrip [of "replicate PAGE_SIZE 7" "header_new (of_nat PAGE_SIZE)"]
  by (simp add: init_page_def header_new_def PAGE_SIZE_def PAGE_HEADER_SIZE_def)

text \<open>
  The storage crate's line-pointer codec and the heap crate's agree: encoding is the heap's
  \<^verbatim>\<open>Normal\<close> pointer, and decoding any heap pointer returns its offset, its length and whether it is \<^verbatim>\<open>Normal\<close>.
\<close>

theorem line_pointer_codecs_agree:
  assumes "unat off < 32768" and "unat len < 32768"
  shows "encode_line_pointer off len = lp_to_le_bytes (lp_new off Normal len) \<and>
    decode_line_pointer (lp_to_le_bytes (lp_new off f len)) = (off, len, f = Normal)"
proof -
  have "ucast len AND mask 15 = (ucast len :: u32)"
    by (rule bit_word_eqI) (use assms(2) bit_small [of len 15] in \<open>auto simp: bit_simps\<close>)
  then have enc: "encode_line_pointer off len = lp_to_le_bytes (lp_new off Normal len)"
    by (simp add: encode_line_pointer_def lp_to_le_bytes_def lp_new_def LP_NORMAL_def LP_OFF_MASK_def
        LP_FLAGS_SHIFT_def LP_LEN_SHIFT_def mask15)
  let ?lp = "lp_new off f len"
  have dec: "drop_bit 17 ?lp AND mask 15 = drop_bit 17 ?lp"
    by (rule bit_word_eqI) (auto simp: bit_simps dest: bit_imp_le_length)
  have "lp_flags ?lp = Normal \<longleftrightarrow> drop_bit 15 ?lp AND 3 = 1"
    unfolding lp_flags_def lp_flags_from_bits_def LP_FLAGS_SHIFT_def LP_FLAGS_MASK_def Let_def
    by (auto split: if_splits)
  then show ?thesis
    using enc lp_off_new [OF assms, of f] lp_len_new [OF assms, of f] lp_flags_new [OF assms, of f] dec
    by (simp add: decode_line_pointer_def lp_to_le_bytes_def LP_NORMAL_def lp_off_def lp_len_def
        LP_OFF_MASK_def LP_LEN_SHIFT_def mask15)
qed

theorem line_pointer_codecs_agree_witness:
  "decode_line_pointer (lp_to_le_bytes (lp_new 8000 Dead 192)) = (8000, 192, False)"
  using line_pointer_codecs_agree [of 8000 192 Dead] by simp

end
