(* ===== verification/Storage_File.thy ===== *)
theory Storage_File
  imports Ams_Prelude
begin

text \<open>
  Files and storage errors: \<^verbatim>\<open>pg-storage/src/error.rs\<close> and
  \<^verbatim>\<open>pg-storage/src/positioned_file.rs\<close>.  A file is a length and its bytes, with the copy
  the last \<^verbatim>\<open>fsync\<close> made durable beside them.  Every call to the operating system may fail:
  the operations take the outcome of each call as the argument \<open>io\<close>, and a write that fails may
  have stored a prefix of its buffer.  After a crash every byte that was not synced is, at the
  machine's choice, the one last written or the one last synced.
\<close>

section \<open>Errors and stateful results\<close>

text \<open>\<^verbatim>\<open>StorageError\<close>, without the messages.\<close>

datatype StorageError =
    Io
  | PageNotFound PageId
  | BufferPoolFull
  | WalCorrupted Lsn
  | WalWriteFailed
  | WalReadFailed
  | CheckpointFailed
  | MetadataCorrupted
  | LsnNotAvailable Lsn
  | InvalidConfig
  | InvalidOperation
  | Serialize
  | RecoveryRequired
  | UnknownRecord u8 Lsn

type_synonym ('s, 'a, 'e) sio = "'s \<Rightarrow> ('a, 'e) outcome \<times> 's"
type_synonym ('s, 'a) io = "('s, 'a, StorageError) sio"

text \<open>Sequencing with the \<^verbatim>\<open>?\<close> operator: an error or a panic keeps the state reached so far.\<close>

definition sbind :: "('s, 'a, 'e) sio \<Rightarrow> ('a \<Rightarrow> ('s, 'b, 'e) sio) \<Rightarrow> ('s, 'b, 'e) sio" where
  "sbind m f s =
     (case m s of
        (Ok x, s') \<Rightarrow> f x s'
      | (Err e, s') \<Rightarrow> (Err e, s')
      | (Panic, s') \<Rightarrow> (Panic, s'))"

definition sret :: "'a \<Rightarrow> ('s, 'a, 'e) sio" where
  "sret x s = (Ok x, s)"

lemma sbind_eq_Ok: "sbind m f s = (Ok y, t) \<longleftrightarrow> (\<exists>x u. m s = (Ok x, u) \<and> f x u = (Ok y, t))"
  by (auto simp: sbind_def split: prod.splits outcome.splits)

lemma sret_eq_Ok [simp]: "sret x s = (Ok y, t) \<longleftrightarrow> x = y \<and> s = t"
  by (simp add: sret_def)

text \<open>
  A property that the first part establishes and the second keeps holds of the final state,
  whatever the outcome.
\<close>

lemma sbind_invariant:
  assumes "\<And>r u. m s = (r, u) \<Longrightarrow> P u" and "\<And>x u r t. m s = (Ok x, u) \<Longrightarrow> P u \<Longrightarrow> f x u = (r, t) \<Longrightarrow> P t"
    and "sbind m f s = (r, t)"
  shows "P t"
  using assms by (auto simp: sbind_def split: prod.splits outcome.splits)

section \<open>Files\<close>

record os_file =
  f_len :: nat
  f_data :: "nat \<Rightarrow> u8"
  f_synced_len :: nat
  f_synced :: "nat \<Rightarrow> u8"

type_synonym file_system = "string \<rightharpoonup> os_file"

definition empty_file :: os_file where
  "empty_file = \<lparr>f_len = 0, f_data = (\<lambda>_. 0), f_synced_len = 0, f_synced = (\<lambda>_. 0)\<rparr>"

datatype io_call = CCreateDir string | COpen string | CLen string | CSetLen string nat | CRead string nat | CWrite string nat | CSync string

text \<open>\<open>Fails n\<close>: the call fails; a write has stored \<open>n\<close> bytes.\<close>

datatype io_reply = Done | Fails nat

text \<open>\<^verbatim>\<open>PositionedFile::open\<close>, \<^verbatim>\<open>len\<close>, \<^verbatim>\<open>read_exact_at\<close>, \<^verbatim>\<open>write_all_at\<close>,
\<^verbatim>\<open>set_len\<close> and \<^verbatim>\<open>sync_all\<close>; a handle is the path it was opened from.\<close>

definition pf_open :: "(io_call \<Rightarrow> io_reply) \<Rightarrow> string \<Rightarrow> (file_system, string) io" where
  "pf_open io path fs =
     (if io (COpen path) \<noteq> Done then (Err Io, fs)
      else (Ok path, if fs path = None then fs(path \<mapsto> empty_file) else fs))"

definition pf_len :: "(io_call \<Rightarrow> io_reply) \<Rightarrow> string \<Rightarrow> (file_system, nat) io" where
  "pf_len io path fs =
     (case fs path of
        None \<Rightarrow> (Err Io, fs)
      | Some f \<Rightarrow> if io (CLen path) \<noteq> Done then (Err Io, fs) else (Ok (f_len f), fs))"

definition pf_read_exact_at :: "(io_call \<Rightarrow> io_reply) \<Rightarrow> string \<Rightarrow> nat \<Rightarrow> nat \<Rightarrow> (file_system, u8 list) io" where
  "pf_read_exact_at io path n off fs =
     (case fs path of
        None \<Rightarrow> (Err Io, fs)
      | Some f \<Rightarrow>
          if io (CRead path off) \<noteq> Done \<or> f_len f < off + n then (Err Io, fs)
          else (Ok (map (f_data f) [off..<off + n]), fs))"

definition store_bytes :: "u8 list \<Rightarrow> nat \<Rightarrow> os_file \<Rightarrow> os_file" where
  "store_bytes buf off f =
     f\<lparr>f_len := max (f_len f) (off + length buf),
       f_data := (\<lambda>i. if off \<le> i \<and> i < off + length buf then buf ! (i - off) else f_data f i)\<rparr>"

definition pf_write_all_at :: "(io_call \<Rightarrow> io_reply) \<Rightarrow> string \<Rightarrow> u8 list \<Rightarrow> nat \<Rightarrow> (file_system, unit) io" where
  "pf_write_all_at io path buf off fs =
     (case fs path of
        None \<Rightarrow> (Err Io, fs)
      | Some f \<Rightarrow>
          (case io (CWrite path off) of
             Done \<Rightarrow> (Ok (), fs(path \<mapsto> store_bytes buf off f))
           | Fails n \<Rightarrow> (Err Io, if n = 0 then fs else fs(path \<mapsto> store_bytes (take n buf) off f))))"

definition pf_set_len :: "(io_call \<Rightarrow> io_reply) \<Rightarrow> string \<Rightarrow> nat \<Rightarrow> (file_system, unit) io" where
  "pf_set_len io path new_size fs =
     (case fs path of
        None \<Rightarrow> (Err Io, fs)
      | Some f \<Rightarrow>
          if io (CSetLen path new_size) \<noteq> Done then (Err Io, fs)
          else (Ok (), fs(path \<mapsto> f\<lparr>f_len := new_size,
                 f_data := (\<lambda>i. if i < min (f_len f) new_size then f_data f i else 0)\<rparr>)))"

definition pf_sync_all :: "(io_call \<Rightarrow> io_reply) \<Rightarrow> string \<Rightarrow> (file_system, unit) io" where
  "pf_sync_all io path fs =
     (case fs path of
        None \<Rightarrow> (Err Io, fs)
      | Some f \<Rightarrow>
          if io (CSync path) \<noteq> Done then (Err Io, fs)
          else (Ok (), fs(path \<mapsto> f\<lparr>f_synced_len := f_len f, f_synced := f_data f\<rparr>)))"

text \<open>
  What survives a crash beyond the synced contents: the new length of a file, and single bytes of it.
  A file shows zeros past its end, and what it shows after the crash is durable.
\<close>

record survival =
  kept_len :: "string \<Rightarrow> bool"
  kept_byte :: "string \<Rightarrow> nat \<Rightarrow> bool"

definition crash_file :: "bool \<Rightarrow> (nat \<Rightarrow> bool) \<Rightarrow> os_file \<Rightarrow> os_file" where
  "crash_file keep_len keep_byte f =
     (let n = if keep_len then f_len f else f_synced_len f;
          d = (\<lambda>i. if n \<le> i then 0 else if keep_byte i then f_data f i else f_synced f i)
      in \<lparr>f_len = n, f_data = d, f_synced_len = n, f_synced = d\<rparr>)"

definition crash :: "survival \<Rightarrow> file_system \<Rightarrow> file_system" where
  "crash kept fs = (\<lambda>path. map_option (crash_file (kept_len kept path) (kept_byte kept path)) (fs path))"

section \<open>File contents\<close>

text \<open>The byte at an offset: zero past the end and in a file that does not exist.\<close>

definition file_byte :: "file_system \<Rightarrow> string \<Rightarrow> nat \<Rightarrow> u8" where
  "file_byte fs path i = (case fs path of None \<Rightarrow> 0 | Some f \<Rightarrow> f_data f i)"

definition synced_byte :: "file_system \<Rightarrow> string \<Rightarrow> nat \<Rightarrow> u8" where
  "synced_byte fs path i = (case fs path of None \<Rightarrow> 0 | Some f \<Rightarrow> f_synced f i)"

text \<open>Bytes past the end of a file are zero, so growing it exposes zeros.\<close>

definition fs_ok :: "file_system \<Rightarrow> bool" where
  "fs_ok fs \<longleftrightarrow> (\<forall>path f i. fs path = Some f \<longrightarrow> (f_len f \<le> i \<longrightarrow> f_data f i = 0) \<and> (f_synced_len f \<le> i \<longrightarrow> f_synced f i = 0))"

lemma fs_okD: "fs_ok fs \<Longrightarrow> fs path = Some f \<Longrightarrow> f_len f \<le> i \<Longrightarrow> f_data f i = 0"
  by (auto simp: fs_ok_def)

lemma fs_ok_empty [simp]: "fs_ok Map.empty"
  by (simp add: fs_ok_def)

lemma fs_ok_crash [simp]: "fs_ok (crash kept fs)"
  by (auto simp: fs_ok_def crash_def crash_file_def Let_def)

lemma fs_ok_store: "fs_ok fs \<Longrightarrow> fs path = Some f \<Longrightarrow> fs_ok (fs(path \<mapsto> store_bytes buf off f))"
  by (auto simp: fs_ok_def store_bytes_def)

lemma synced_byte_crash [simp]: "synced_byte (crash kept fs) path i = file_byte (crash kept fs) path i"
  by (simp add: file_byte_def synced_byte_def crash_def crash_file_def Let_def split: option.splits)

lemma file_byte_crash:
  assumes "fs_ok fs"
  shows "file_byte (crash kept fs) path i \<in> {file_byte fs path i, synced_byte fs path i}"
  using assms by (auto simp: fs_ok_def file_byte_def synced_byte_def crash_def crash_file_def Let_def split: option.splits)

lemma file_byte_store:
  "fs path = Some f \<Longrightarrow> file_byte (fs(path \<mapsto> store_bytes buf off f)) q i =
     (if q = path \<and> off \<le> i \<and> i < off + length buf then buf ! (i - off) else file_byte fs q i)"
  by (auto simp: file_byte_def store_bytes_def)

lemma synced_byte_store:
  "fs path = Some f \<Longrightarrow> synced_byte (fs(path \<mapsto> store_bytes buf off f)) q i = synced_byte fs q i"
  by (auto simp: synced_byte_def store_bytes_def)

end
