(* ===== verification/Slotted_Page.thy ===== *)
theory Slotted_Page
  imports Page_Format Storage_File "HOL-Library.Product_Lexorder"
begin

text \<open>
  The slotted heap page of \<^verbatim>\<open>pg-am-heap/src/slotted_page.rs\<close>: initialisation, the line
  pointer array, insertion, deletion, lookup, compaction, and the page-chain pointer, on the
  raw bytes.  The abstraction \<open>tuples\<close> reads a page as a finite map from slots to tuples; the
  lemmas show that each operation is the map operation it stands for and keeps \<open>page_ok\<close>,
  the invariant the code states in its module header and asserts in debug builds.
\<close>

section \<open>Operations\<close>

text \<open>The errors of \<^verbatim>\<open>pg-am-heap/src/error.rs\<close>, without their message strings.\<close>

datatype HeapError =
    PageFull nat nat
  | InvalidSlot u16
  | TupleTooLarge nat
  | Corrupted
  | InvalidArgument
  | TupleNotFound Tid
  | TupleConcurrentlyUpdated Tid
  | HeapDeadlockVictim
  | HeapStorage StorageError

type_synonym 'a heap_result = "('a, HeapError) outcome"

definition HEAP_SPECIAL_SIZE :: nat where "HEAP_SPECIAL_SIZE = 16"

definition page_header :: "page \<Rightarrow> PageHeader" where
  "page_header page = header_read_from page"

definition init_with_special :: "nat \<Rightarrow> page" where
  "init_with_special special_size =
     (let page = init_page (replicate PAGE_SIZE 0);
          special = of_nat (PAGE_SIZE - special_size) :: u16;
          page = write_at page 16 (le_bytes 2 special)
      in write_at page 18 (le_bytes 2 special))"

definition init :: page where
  "init = init_with_special 0"

definition init_if_fresh_with_special :: "page \<Rightarrow> nat \<Rightarrow> page" where
  "init_if_fresh_with_special page special_size =
     (if pd_upper (page_header page) = 0 then init_with_special special_size else page)"

definition init_if_fresh :: "page \<Rightarrow> page" where
  "init_if_fresh page = init_if_fresh_with_special page 0"

definition slot_count :: "page \<Rightarrow> nat" where
  "slot_count page = (unat (pd_lower (page_header page)) - PAGE_HEADER_SIZE) div LINE_POINTER_SIZE"

definition free_space :: "page \<Rightarrow> nat" where
  "free_space page = unat (pd_upper (page_header page)) - unat (pd_lower (page_header page))"

definition checked_header :: "page \<Rightarrow> PageHeader heap_result" where
  "checked_header page =
     (let header = page_header page;
          lower = unat (pd_lower header); upper = unat (pd_upper header); special = unat (pd_special header)
      in if lower < PAGE_HEADER_SIZE \<or> (lower - PAGE_HEADER_SIZE) mod LINE_POINTER_SIZE \<noteq> 0 \<or>
            upper < lower \<or> special < upper \<or> PAGE_SIZE < special
         then Err Corrupted else Ok header)"

definition set_next_page :: "page \<Rightarrow> PageId option \<Rightarrow> page heap_result" where
  "set_next_page page next =
     obind (checked_header page) (\<lambda>header.
       if unat (pd_special header) \<noteq> PAGE_SIZE - HEAP_SPECIAL_SIZE then Err Corrupted
       else let off = unat (pd_special header);
                raw = (case next of None \<Rightarrow> 0 | Some p \<Rightarrow> p)
            in Ok (write_at page off (le_bytes 8 raw)))"

definition next_page :: "page \<Rightarrow> PageId option heap_result" where
  "next_page page =
     obind (checked_header page) (\<lambda>header.
       if unat (pd_special header) \<noteq> PAGE_SIZE - HEAP_SPECIAL_SIZE then Err Corrupted
       else let off = unat (pd_special header);
                raw = le_word (slice_of page off (off + 8)) :: u64
            in Ok (if raw = 0 then None else Some raw))"

text \<open>The line pointer stored at a slot, as the code's direct reads of the array take it.\<close>

definition lp_at :: "page \<Rightarrow> nat \<Rightarrow> LinePointer" where
  "lp_at page slot =
     (let off = PAGE_HEADER_SIZE + slot * LINE_POINTER_SIZE
      in lp_from_le_bytes (slice_of page off (off + LINE_POINTER_SIZE)))"

definition line_pointer :: "page \<Rightarrow> u16 \<Rightarrow> LinePointer heap_result" where
  "line_pointer page slot =
     obind (checked_header page) (\<lambda>header.
       let count = (unat (pd_lower header) - PAGE_HEADER_SIZE) div LINE_POINTER_SIZE
       in if count \<le> unat slot then Err (InvalidSlot slot) else Ok (lp_at page (unat slot)))"

definition first_fit_slot :: "page \<Rightarrow> u16 option" where
  "first_fit_slot page =
     (let lower = min (unat (pd_lower (page_header page))) PAGE_SIZE;
          count = (lower - PAGE_HEADER_SIZE) div LINE_POINTER_SIZE
      in map_option of_nat (find (\<lambda>slot. lp_flags (lp_at page slot) = Unused) [0..<count]))"

definition set_line_pointer :: "page \<Rightarrow> u16 \<Rightarrow> LinePointer \<Rightarrow> page" where
  "set_line_pointer page slot lp =
     write_at page (PAGE_HEADER_SIZE + unat slot * LINE_POINTER_SIZE) (lp_to_le_bytes lp)"

definition set_pd_lower :: "page \<Rightarrow> u16 \<Rightarrow> page" where
  "set_pd_lower page lower = write_at page 14 (le_bytes 2 lower)"

definition set_pd_upper :: "page \<Rightarrow> u16 \<Rightarrow> page" where
  "set_pd_upper page upper = write_at page 16 (le_bytes 2 upper)"

definition add_tuple_at :: "page \<Rightarrow> u16 \<Rightarrow> u8 list \<Rightarrow> page heap_result" where
  "add_tuple_at page slot bytes =
     obind (checked_header page) (\<lambda>header.
       let len = length bytes;
           max_tuple = unat (pd_special header) - (PAGE_HEADER_SIZE + LINE_POINTER_SIZE);
           count = (unat (pd_lower header) - PAGE_HEADER_SIZE) div LINE_POINTER_SIZE
       in if len = 0 then Err InvalidArgument
          else if max_tuple < len then Err (TupleTooLarge len)
          else if count < unat slot then Err (InvalidSlot slot)
          else if unat slot \<noteq> count \<and> lp_flags (lp_at page (unat slot)) \<noteq> Unused then Err (InvalidSlot slot)
          else let appending = (unat slot = count);
                   lp_cost = (if appending then LINE_POINTER_SIZE else 0);
                   free = unat (pd_upper header - pd_lower header)
               in if free < len + lp_cost then Err (PageFull (len + lp_cost) free)
                  else let new_upper = unat (pd_upper header) - len;
                           page = write_at page new_upper bytes;
                           page = set_line_pointer page slot (lp_new (of_nat new_upper) Normal (of_nat len));
                           page = (if appending
                                   then set_pd_lower page (pd_lower header + of_nat LINE_POINTER_SIZE)
                                   else page)
                       in Ok (set_pd_upper page (of_nat new_upper)))"

definition add_tuple :: "page \<Rightarrow> u8 list \<Rightarrow> (page \<times> u16) heap_result" where
  "add_tuple page bytes =
     (let slot = (case first_fit_slot page of Some s \<Rightarrow> s | None \<Rightarrow> of_nat (slot_count page))
      in obind (add_tuple_at page slot bytes) (\<lambda>page'. Ok (page', slot)))"

definition delete_tuple :: "page \<Rightarrow> u16 \<Rightarrow> page heap_result" where
  "delete_tuple page slot =
     obind (line_pointer page slot) (\<lambda>lp.
       if lp_flags lp \<noteq> Normal then Err (InvalidSlot slot)
       else Ok (set_line_pointer page slot (lp_with_flags lp Unused)))"

text \<open>Lookup follows at most \<open>n\<close> line pointers.\<close>

primrec tuple_loop :: "nat \<Rightarrow> page \<Rightarrow> u16 \<Rightarrow> u8 list option heap_result" where
  "tuple_loop 0 page cur = Err Corrupted"
| "tuple_loop (Suc n) page cur =
     (case line_pointer page cur of
        Err (InvalidSlot _) \<Rightarrow> Ok None
      | Err e \<Rightarrow> Err e
      | Panic \<Rightarrow> Panic
      | Ok lp \<Rightarrow>
          if lp_flags lp = Redirect then tuple_loop n page (lp_off lp)
          else if lp_flags lp \<noteq> Normal then Ok None
          else obind (checked_header page) (\<lambda>header.
            let off = unat (lp_off lp); stop = off + unat (lp_len lp)
            in if off < unat (pd_upper header) \<or> unat (pd_special header) < stop then Err Corrupted
               else Ok (Some (slice_of page off stop))))"

definition tuple_at :: "page \<Rightarrow> u16 \<Rightarrow> u8 list option heap_result" where
  "tuple_at page slot = tuple_loop (slot_count page + 1) page slot"

section \<open>Compaction\<close>

fun check_kill_list :: "page \<Rightarrow> u16 option \<Rightarrow> u16 list \<Rightarrow> unit heap_result" where
  "check_kill_list page prev [] = Ok ()"
| "check_kill_list page prev (slot # slots) =
     (if (case prev of None \<Rightarrow> False | Some p \<Rightarrow> slot \<le> p) then Err InvalidArgument
      else obind (line_pointer page slot) (\<lambda>lp.
        if lp_flags lp \<noteq> Normal \<and> lp_flags lp \<noteq> Dead then Err (InvalidSlot slot)
        else check_kill_list page (Some slot) slots))"

type_synonym staged = "u16 \<times> LpFlags \<times> u16 \<times> u8 list"

fun stage_slots :: "page \<Rightarrow> PageHeader \<Rightarrow> u16 list \<Rightarrow> nat list \<Rightarrow> staged list heap_result" where
  "stage_slots page header dead [] = Ok []"
| "stage_slots page header dead (slot # slots) =
     (let lp = lp_at page slot in
      if lp_flags lp = Unused \<or> of_nat slot \<in> set dead then stage_slots page header dead slots
      else let off = unat (lp_off lp); len = unat (lp_len lp)
           in if off < unat (pd_upper header) \<or> unat (pd_special header) < off + len then Err Corrupted
              else obind (stage_slots page header dead slots) (\<lambda>rest.
                Ok ((of_nat slot, lp_flags lp, lp_len lp, slice_of page off (off + len)) # rest)))"

text \<open>\<^verbatim>\<open>cursor -= len\<close> below zero is the code's panic.\<close>

fun restage :: "page \<Rightarrow> nat \<Rightarrow> staged list \<Rightarrow> (page \<times> nat) heap_result" where
  "restage page cursor [] = Ok (page, cursor)"
| "restage page cursor ((slot, flags, len, bytes) # rest) =
     (if cursor < unat len then Panic
      else let cursor = cursor - unat len;
               page = write_at page cursor bytes;
               page = set_line_pointer page slot (lp_new (of_nat cursor) flags len)
           in restage page cursor rest)"

fun kill_slots :: "page \<Rightarrow> u16 list \<Rightarrow> page heap_result" where
  "kill_slots page [] = Ok page"
| "kill_slots page (slot # slots) =
     obind (line_pointer page slot) (\<lambda>lp.
       kill_slots (set_line_pointer page slot (lp_with_flags lp Unused)) slots)"

definition compact :: "page \<Rightarrow> u16 list \<Rightarrow> page heap_result" where
  "compact page dead =
     obind (checked_header page) (\<lambda>header.
       let count = (unat (pd_lower header) - PAGE_HEADER_SIZE) div LINE_POINTER_SIZE;
           upper = unat (pd_upper header); special = unat (pd_special header)
       in obind (check_kill_list page None dead) (\<lambda>_.
          obind (stage_slots page header dead [0..<count]) (\<lambda>staged.
          obind (restage (write_at page upper (replicate (special - upper) 0)) special staged) (\<lambda>(page, cursor).
          obind (kill_slots page dead) (\<lambda>page.
          Ok (set_pd_upper page (of_nat cursor)))))))"

section \<open>The invariant and the abstraction\<close>

abbreviation lower_of :: "page \<Rightarrow> nat" where "lower_of page \<equiv> unat (pd_lower (page_header page))"
abbreviation upper_of :: "page \<Rightarrow> nat" where "upper_of page \<equiv> unat (pd_upper (page_header page))"
abbreviation special_of :: "page \<Rightarrow> nat" where "special_of page \<equiv> unat (pd_special (page_header page))"

abbreviation region_lo :: "page \<Rightarrow> nat \<Rightarrow> nat" where "region_lo page s \<equiv> unat (lp_off (lp_at page s))"
abbreviation region_hi :: "page \<Rightarrow> nat \<Rightarrow> nat" where
  "region_hi page s \<equiv> region_lo page s + unat (lp_len (lp_at page s))"

definition used :: "page \<Rightarrow> nat \<Rightarrow> bool" where
  "used page s \<longleftrightarrow> s < slot_count page \<and> lp_flags (lp_at page s) \<noteq> Unused"

text \<open>The assertions of \<^verbatim>\<open>debug_assert_invariants\<close>: true when none of them fires.\<close>

definition debug_assert_invariants :: "page \<Rightarrow> bool" where
  "debug_assert_invariants page \<longleftrightarrow>
     PAGE_HEADER_SIZE \<le> lower_of page \<and> lower_of page \<le> upper_of page \<and>
     upper_of page \<le> special_of page \<and> special_of page \<le> PAGE_SIZE \<and>
     (lower_of page - PAGE_HEADER_SIZE) mod LINE_POINTER_SIZE = 0 \<and>
     (let slots = filter (\<lambda>s. lp_flags (lp_at page s) \<noteq> Unused) [0..<slot_count page];
          regions = map (\<lambda>s. (region_lo page s, region_hi page s)) slots
      in list_all (\<lambda>(off, stop). upper_of page \<le> off \<and> stop \<le> special_of page) regions \<and>
         successively (\<lambda>a b. snd a \<le> fst b) (sort regions))"

definition geometry_ok :: "page \<Rightarrow> bool" where
  "geometry_ok page \<longleftrightarrow> length page = PAGE_SIZE \<and> PAGE_HEADER_SIZE \<le> lower_of page \<and>
     (lower_of page - PAGE_HEADER_SIZE) mod LINE_POINTER_SIZE = 0 \<and> lower_of page \<le> upper_of page \<and>
     upper_of page \<le> special_of page \<and> special_of page \<le> PAGE_SIZE"

definition page_ok :: "page \<Rightarrow> bool" where
  "page_ok page \<longleftrightarrow> geometry_ok page \<and>
     (\<forall>s. used page s \<longrightarrow> upper_of page \<le> region_lo page s \<and> region_lo page s < region_hi page s \<and>
        region_hi page s \<le> special_of page) \<and>
     (\<forall>s t. used page s \<longrightarrow> used page t \<longrightarrow> s \<noteq> t \<longrightarrow>
        region_hi page s \<le> region_lo page t \<or> region_hi page t \<le> region_lo page s)"

text \<open>What a page holds: flags and bytes of every slot in use.\<close>

definition tuples :: "page \<Rightarrow> nat \<Rightarrow> (LpFlags \<times> u8 list) option" where
  "tuples page s =
     (if used page s
      then Some (lp_flags (lp_at page s), slice_of page (region_lo page s) (region_hi page s)) else None)"

section \<open>Frame lemmas\<close>

named_theorems page_simps \<open>how the page writers act on the page readers\<close>

lemma u16_of_nat [simp]: "n < 65536 \<Longrightarrow> unat (of_nat n :: u16) = n"
  by (simp add: unsigned_of_nat take_bit_nat_eq_self)

lemma of_nat_u16_inj: "m < 65536 \<Longrightarrow> n < 65536 \<Longrightarrow> (of_nat m :: u16) = of_nat n \<longleftrightarrow> m = n"
  by (metis u16_of_nat)

lemma header_fields_write [page_simps]:
  assumes "PAGE_HEADER_SIZE \<le> a" and "a + length bs \<le> length page"
  shows "page_header (write_at page a bs) = page_header page"
  using assms by (simp add: page_header_def header_read_from_def page_pd_lsn_def PAGE_HEADER_SIZE_def slice_simps)

lemma lp_at_write [page_simps]:
  assumes "a + length bs \<le> length page" and "36 + 4 * s \<le> length page" and "36 + 4 * s \<le> a \<or> a + length bs \<le> 32"
  shows "lp_at (write_at page a bs) s = lp_at page s"
  using assms by (auto simp: lp_at_def page_consts slice_simps Let_def)

lemma set_line_pointer_simps [page_simps]:
  assumes "36 + 4 * unat slot \<le> length page"
  shows "length (set_line_pointer page slot lp) = length page"
    and "page_header (set_line_pointer page slot lp) = page_header page"
    and "36 + 4 * s \<le> length page \<Longrightarrow>
      lp_at (set_line_pointer page slot lp) s = (if s = unat slot then lp else lp_at page s)"
    and "36 + 4 * unat slot \<le> a \<Longrightarrow> b \<le> length page \<Longrightarrow>
      slice_of (set_line_pointer page slot lp) a b = slice_of page a b"
proof -
  show "page_header (set_line_pointer page slot lp) = page_header page"
    unfolding set_line_pointer_def using assms by (intro header_fields_write) (simp_all add: page_consts)
  show "lp_at (set_line_pointer page slot lp) s = (if s = unat slot then lp else lp_at page s)"
    if "36 + 4 * s \<le> length page"
  proof (cases "s = unat slot")
    case True
    then show ?thesis using assms by (simp add: lp_at_def set_line_pointer_def page_consts slice_simps Let_def)
  next
    case False
    then have "s + 1 \<le> unat slot \<or> unat slot + 1 \<le> s" by auto
    then have "36 + 4 * s \<le> 32 + unat slot * 4 \<or> 36 + unat slot * 4 \<le> 32 + 4 * s" by auto
    then show ?thesis
      using False assms that by (auto simp: lp_at_def set_line_pointer_def page_consts Let_def slice_of_write_disjoint)
  qed
qed (use assms in \<open>simp_all add: set_line_pointer_def page_consts slice_simps\<close>)

lemma set_pd_simps [page_simps]:
  assumes "PAGE_HEADER_SIZE \<le> length page"
  shows "length (set_pd_lower page v) = length page" and "length (set_pd_upper page v) = length page"
    and "page_header (set_pd_lower page v) = (page_header page)\<lparr>pd_lower := v\<rparr>"
    and "page_header (set_pd_upper page v) = (page_header page)\<lparr>pd_upper := v\<rparr>"
    and "36 + 4 * s \<le> length page \<Longrightarrow> lp_at (set_pd_lower page v) s = lp_at page s"
    and "36 + 4 * s \<le> length page \<Longrightarrow> lp_at (set_pd_upper page v) s = lp_at page s"
    and "PAGE_HEADER_SIZE \<le> a \<Longrightarrow> b \<le> length page \<Longrightarrow> slice_of (set_pd_lower page v) a b = slice_of page a b"
    and "PAGE_HEADER_SIZE \<le> a \<Longrightarrow> b \<le> length page \<Longrightarrow> slice_of (set_pd_upper page v) a b = slice_of page a b"
  using assms
  by (simp_all add: set_pd_lower_def set_pd_upper_def page_header_def header_read_from_def page_pd_lsn_def
      PAGE_HEADER_SIZE_def slice_simps lp_at_write)

lemma checked_header_ok: "geometry_ok page \<Longrightarrow> checked_header page = Ok (page_header page)"
  by (auto simp: geometry_ok_def checked_header_def Let_def)

lemma checked_header_Ok_iff:
  "length page = PAGE_SIZE \<Longrightarrow> checked_header page = Ok h \<longleftrightarrow> geometry_ok page \<and> h = page_header page"
  by (auto simp: geometry_ok_def checked_header_def Let_def split: if_splits)

lemma slots_in_page:
  assumes "geometry_ok page" and "s < slot_count page"
  shows "36 + 4 * s \<le> lower_of page" and "36 + 4 * s \<le> length page" and "s < 65536"
  using assms by (auto simp: geometry_ok_def slot_count_def page_consts)

lemma lower_slots: "geometry_ok page \<Longrightarrow> lower_of page = 32 + 4 * slot_count page"
  by (auto simp: geometry_ok_def slot_count_def page_consts)

section \<open>Insertion\<close>

lemma geometry_bounds:
  assumes "geometry_ok page"
  shows "length page = 8192" and "32 \<le> lower_of page" and "lower_of page \<le> upper_of page"
    and "upper_of page \<le> special_of page" and "special_of page \<le> 8192"
  using assms by (auto simp: geometry_ok_def page_consts)

text \<open>When insertion succeeds, and what it then writes.\<close>

definition add_guard :: "page \<Rightarrow> u16 \<Rightarrow> u8 list \<Rightarrow> bool" where
  "add_guard page slot bytes \<longleftrightarrow> bytes \<noteq> [] \<and> unat slot \<le> slot_count page \<and>
     \<not> used page (unat slot) \<and>
     length bytes + (if unat slot = slot_count page then LINE_POINTER_SIZE else 0) \<le> free_space page"

definition add_body :: "page \<Rightarrow> u16 \<Rightarrow> u8 list \<Rightarrow> page" where
  "add_body page slot bytes =
     (let new_upper = upper_of page - length bytes
      in set_line_pointer (write_at page new_upper bytes) slot
           (lp_new (of_nat new_upper) Normal (of_nat (length bytes))))"

definition add_write :: "page \<Rightarrow> u16 \<Rightarrow> u8 list \<Rightarrow> page" where
  "add_write page slot bytes =
     (let body = add_body page slot bytes
      in set_pd_upper
           (if unat slot = slot_count page
            then set_pd_lower body (pd_lower (page_header page) + of_nat LINE_POINTER_SIZE) else body)
           (of_nat (upper_of page - length bytes)))"

lemma free_space_word:
  "geometry_ok page \<Longrightarrow> unat (pd_upper (page_header page) - pd_lower (page_header page)) = free_space page"
  by (simp add: free_space_def geometry_ok_def unat_sub word_le_nat_alt)

lemma add_tuple_at_Ok_iff:
  assumes g: "geometry_ok page"
  shows "add_tuple_at page slot bytes = Ok page' \<longleftrightarrow>
    add_guard page slot bytes \<and> length bytes \<le> special_of page - 36 \<and> page' = add_write page slot bytes"
proof -
  have c: "(lower_of page - PAGE_HEADER_SIZE) div LINE_POINTER_SIZE = slot_count page" by (simp add: slot_count_def)
  have m: "special_of page - (PAGE_HEADER_SIZE + LINE_POINTER_SIZE) = special_of page - 36" by (simp add: page_consts)
  note unf = add_tuple_at_def checked_header_ok [OF g] obind.simps Let_def free_space_word [OF g] c m
  show ?thesis
  proof (cases "unat slot = slot_count page")
    case True
    then show ?thesis
      unfolding unf by (auto simp: add_guard_def add_write_def add_body_def used_def Let_def)
  next
    case False
    then show ?thesis
      unfolding unf by (auto simp: add_guard_def add_write_def add_body_def used_def Let_def)
  qed
qed

lemma add_room:
  assumes g: "geometry_ok page" and a: "add_guard page slot bytes"
  shows "length bytes \<le> upper_of page - lower_of page" and "36 + 4 * unat slot \<le> upper_of page - length bytes"
    and "unat slot \<le> slot_count page" and "length bytes \<le> special_of page - 36"
proof -
  note geo = geometry_bounds [OF g] and low = lower_slots [OF g]
  have "length bytes + (if unat slot = slot_count page then 4 else 0) \<le> upper_of page - lower_of page"
    and le: "unat slot \<le> slot_count page" and ne: "length bytes \<noteq> 0"
    using a unfolding add_guard_def free_space_def LINE_POINTER_SIZE_def by simp_all
  then show "length bytes \<le> upper_of page - lower_of page"
    "36 + 4 * unat slot \<le> upper_of page - length bytes" "length bytes \<le> special_of page - 36"
    using geo low by (cases "unat slot = slot_count page"; simp; linarith)+
  show "unat slot \<le> slot_count page" by (rule le)
qed

lemma add_body_effect:
  assumes g: "geometry_ok page" and a: "add_guard page slot bytes"
  shows "length (add_body page slot bytes) = 8192" and "page_header (add_body page slot bytes) = page_header page"
    and "36 + 4 * s \<le> upper_of page - length bytes \<Longrightarrow> lp_at (add_body page slot bytes) s =
      (if s = unat slot then lp_new (of_nat (upper_of page - length bytes)) Normal (of_nat (length bytes))
       else lp_at page s)"
    and "slice_of (add_body page slot bytes) (upper_of page - length bytes) (upper_of page) = bytes"
    and "upper_of page \<le> b \<Longrightarrow> c \<le> 8192 \<Longrightarrow> slice_of (add_body page slot bytes) b c = slice_of page b c"
proof -
  note geo = geometry_bounds [OF g] and room = add_room [OF g a]
  let ?n = "upper_of page - length bytes"
  let ?p = "write_at page ?n bytes"
  have len: "length ?p = 8192" using room geo by simp
  have hdr: "page_header ?p = page_header page" using room geo by (intro header_fields_write) (auto simp: page_consts)
  have slot: "36 + 4 * unat slot \<le> length ?p" using len room geo by linarith
  note e = set_line_pointer_simps [OF slot]
  show "length (add_body page slot bytes) = 8192" "page_header (add_body page slot bytes) = page_header page"
    unfolding add_body_def Let_def e hdr len by (rule refl)+
  show "lp_at (add_body page slot bytes) s = (if s = unat slot then lp_new (of_nat ?n) Normal (of_nat (length bytes))
       else lp_at page s)" if "36 + 4 * s \<le> ?n"
  proof -
    have "36 + 4 * s \<le> length ?p" using that len geo by linarith
    moreover have "lp_at ?p s = lp_at page s" using that geo room by (intro lp_at_write) auto
    ultimately show ?thesis unfolding add_body_def Let_def by (simp add: e(3))
  qed
  have sl: "slice_of (add_body page slot bytes) b c = slice_of ?p b c" if "?n \<le> b" "c \<le> 8192" for b c
    unfolding add_body_def Let_def using that room len by (intro e(4)) linarith+
  show "slice_of (add_body page slot bytes) ?n (upper_of page) = bytes"
    using sl [of ?n "upper_of page"] geo room by (simp add: slice_of_write_same)
  show "slice_of (add_body page slot bytes) b c = slice_of page b c" if "upper_of page \<le> b" "c \<le> 8192"
    using sl [of b c] that geo room by (simp add: slice_of_write_disjoint)
qed

lemma add_write_frame:
  assumes g: "geometry_ok page" and a: "add_guard page slot bytes"
  shows "length (add_write page slot bytes) = 8192"
    and "36 + 4 * s \<le> 8192 \<Longrightarrow> lp_at (add_write page slot bytes) s = lp_at (add_body page slot bytes) s"
    and "32 \<le> b \<Longrightarrow> c \<le> 8192 \<Longrightarrow> slice_of (add_write page slot bytes) b c = slice_of (add_body page slot bytes) b c"
  using add_body_effect(1) [OF g a] by (simp_all add: add_write_def Let_def set_pd_simps PAGE_HEADER_SIZE_def)

lemma add_write_header:
  assumes g: "geometry_ok page" and a: "add_guard page slot bytes"
  shows "lower_of (add_write page slot bytes) = lower_of page + (if unat slot = slot_count page then 4 else 0)"
    and "upper_of (add_write page slot bytes) = upper_of page - length bytes"
    and "special_of (add_write page slot bytes) = special_of page"
proof -
  note geo = geometry_bounds [OF g]
  have "unat (pd_lower (page_header page) + 4) = lower_of page + 4" using geo by (simp add: unat_word_ariths)
  then show "lower_of (add_write page slot bytes) = lower_of page + (if unat slot = slot_count page then 4 else 0)"
    "upper_of (add_write page slot bytes) = upper_of page - length bytes"
    "special_of (add_write page slot bytes) = special_of page"
    using add_body_effect(1,2) [OF g a] geo
    by (simp_all add: add_write_def Let_def set_pd_simps page_consts)
qed

lemma add_write_effect:
  assumes g: "geometry_ok page" and a: "add_guard page slot bytes"
  shows "geometry_ok (add_write page slot bytes)"
    and "slot_count (add_write page slot bytes) = max (slot_count page) (unat slot + 1)"
    and "s < slot_count (add_write page slot bytes) \<Longrightarrow> lp_at (add_write page slot bytes) s =
      (if s = unat slot then lp_new (of_nat (upper_of page - length bytes)) Normal (of_nat (length bytes))
       else lp_at page s)"
    and "slice_of (add_write page slot bytes) (upper_of page - length bytes) (upper_of page) = bytes"
    and "upper_of page \<le> b \<Longrightarrow> c \<le> 8192 \<Longrightarrow> slice_of (add_write page slot bytes) b c = slice_of page b c"
proof -
  note geo = geometry_bounds [OF g] and room = add_room [OF g a] and low = lower_slots [OF g]
  note hdr = add_write_header [OF g a] and frame = add_write_frame [OF g a] and body = add_body_effect [OF g a]
  have lower: "lower_of (add_write page slot bytes) = 32 + 4 * max (slot_count page) (unat slot + 1)"
    using hdr(1) low room(3) by (auto simp: max_def)
  then show cnt: "slot_count (add_write page slot bytes) = max (slot_count page) (unat slot + 1)"
    by (simp add: slot_count_def page_consts)
  have fits: "32 + 4 * max (slot_count page) (unat slot + 1) \<le> upper_of page - length bytes"
    using room geo low by (auto simp: max_def)
  show "geometry_ok (add_write page slot bytes)"
    unfolding geometry_ok_def lower hdr(2,3) frame(1) using fits geo by (simp add: page_consts)
  show "lp_at (add_write page slot bytes) s =
      (if s = unat slot then lp_new (of_nat (upper_of page - length bytes)) Normal (of_nat (length bytes))
       else lp_at page s)" if "s < slot_count (add_write page slot bytes)"
  proof -
    have "s + 1 \<le> max (slot_count page) (unat slot + 1)" using that unfolding cnt by linarith
    then have "36 + 4 * s \<le> 32 + 4 * max (slot_count page) (unat slot + 1)" by (simp del: max.bounded_iff)
    then have s: "36 + 4 * s \<le> upper_of page - length bytes" using fits by (rule order.trans)
    then have "36 + 4 * s \<le> 8192" using geo by linarith
    from frame(2) [OF this] body(3) [OF s] show ?thesis by (rule trans)
  qed
  show "slice_of (add_write page slot bytes) (upper_of page - length bytes) (upper_of page) = bytes"
    using frame(3) [of "upper_of page - length bytes" "upper_of page"] body(4) room geo by simp
  show "slice_of (add_write page slot bytes) b c = slice_of page b c" if "upper_of page \<le> b" "c \<le> 8192"
    using frame(3) [of b c] body(5) that geo by simp
qed

lemma page_okD:
  assumes "page_ok page"
  shows "geometry_ok page"
    and "used page s \<Longrightarrow> upper_of page \<le> region_lo page s"
    and "used page s \<Longrightarrow> region_lo page s < region_hi page s"
    and "used page s \<Longrightarrow> region_hi page s \<le> special_of page"
    and "used page s \<Longrightarrow> used page t \<Longrightarrow> s \<noteq> t \<Longrightarrow>
      region_hi page s \<le> region_lo page t \<or> region_hi page t \<le> region_lo page s"
  using assms unfolding page_ok_def by blast+

lemma page_okI:
  assumes "geometry_ok page"
    and "\<And>s. used page s \<Longrightarrow> upper_of page \<le> region_lo page s \<and> region_lo page s < region_hi page s \<and>
      region_hi page s \<le> special_of page"
    and "\<And>s t. used page s \<Longrightarrow> used page t \<Longrightarrow> s < t \<Longrightarrow>
      region_hi page s \<le> region_lo page t \<or> region_hi page t \<le> region_lo page s"
  shows "page_ok page"
  unfolding page_ok_def using assms by (metis linorder_neqE_nat)

text \<open>Insertion is the update of the abstract page, and it keeps the invariant.\<close>

lemma add_write_correct:
  assumes ok: "page_ok page" and a: "add_guard page slot bytes"
  shows "page_ok (add_write page slot bytes)"
    and "tuples (add_write page slot bytes) = (tuples page)(unat slot \<mapsto> (Normal, bytes))"
proof -
  let ?w = "add_write page slot bytes" and ?n = "upper_of page - length bytes"
  note g = page_okD(1) [OF ok]
  note geo = geometry_bounds [OF g] and room = add_room [OF g a] and hdr = add_write_header [OF g a]
    and eff = add_write_effect [OF g a]
  have ne: "0 < length bytes" and free: "\<not> used page (unat slot)" using a by (auto simp: add_guard_def)
  have small: "?n < 32768" "length bytes < 32768" "?n + length bytes = upper_of page" using geo room by linarith+
  then have fld: "lp_off (lp_new (of_nat ?n) f (of_nat (length bytes))) = of_nat ?n"
    "lp_len (lp_new (of_nat ?n) f (of_nat (length bytes))) = of_nat (length bytes)"
    "lp_flags (lp_new (of_nat ?n) f (of_nat (length bytes))) = f" for f
    by (simp_all del: of_nat_diff)
  have us: "used ?w s \<longleftrightarrow> s = unat slot \<or> used page s" for s
    using eff(2) eff(3) [of s] fld(3) room(3) by (auto simp: used_def split: if_splits)
  have lp: "lp_at ?w s = lp_at page s" if "used page s" for s
    using eff(3) [of s] eff(2) that free by (auto simp: used_def)
  have new: "region_lo ?w (unat slot) = ?n" "region_hi ?w (unat slot) = upper_of page" "lp_flags (lp_at ?w (unat slot)) = Normal"
    using eff(3) [of "unat slot"] eff(2) fld small by (auto simp del: of_nat_diff)
  show "page_ok ?w"
  proof (rule page_okI)
    show "geometry_ok ?w" by (rule eff(1))
    fix s assume "used ?w s"
    then consider "s = unat slot" | "used page s" using us by blast
    then show "upper_of ?w \<le> region_lo ?w s \<and> region_lo ?w s < region_hi ?w s \<and> region_hi ?w s \<le> special_of ?w"
    proof cases
      case 1
      then show ?thesis using new small ne geo hdr by simp
    next
      case 2
      then show ?thesis using page_okD(2-4) [OF ok 2] hdr lp [OF 2] by simp
    qed
  next
    fix s t assume "used ?w s" "used ?w t" "s < t"
    then consider "s = unat slot" "used page t" | "t = unat slot" "used page s" | "used page s" "used page t"
      using us by (metis less_irrefl)
    then show "region_hi ?w s \<le> region_lo ?w t \<or> region_hi ?w t \<le> region_lo ?w s"
    proof cases
      case 3
      then show ?thesis using page_okD(5) [OF ok 3] lp [OF 3(1)] lp [OF 3(2)] \<open>s < t\<close> by simp
    qed (use new page_okD(2) [OF ok] lp in auto)
  qed
  have "tuples ?w s = tuples page s" if "s \<noteq> unat slot" for s
    using that us [of s] lp [of s] eff(5) [of "region_lo page s" "region_hi page s"] page_okD(2,4) [OF ok, of s] geo
    by (auto simp: tuples_def)
  moreover have "tuples ?w (unat slot) = Some (Normal, bytes)"
    unfolding tuples_def new(2) unfolding new(1,3) using us eff(4) by simp
  ultimately show "tuples ?w = (tuples page)(unat slot \<mapsto> (Normal, bytes))" by auto
qed

section \<open>Deletion and lookup\<close>

lemma line_pointer_ok:
  assumes "geometry_ok page"
  shows "line_pointer page slot =
    (if unat slot < slot_count page then Ok (lp_at page (unat slot)) else Err (InvalidSlot slot))"
  unfolding line_pointer_def checked_header_ok [OF assms] obind.simps Let_def slot_count_def [symmetric] by simp

text \<open>Changing the flags of one line pointer.\<close>

lemma set_flags_effect:
  assumes g: "geometry_ok page" and s: "unat slot < slot_count page"
  shows "geometry_ok (set_line_pointer page slot (lp_with_flags (lp_at page (unat slot)) f))"
    and "page_header (set_line_pointer page slot (lp_with_flags (lp_at page (unat slot)) f)) = page_header page"
    and "slot_count (set_line_pointer page slot (lp_with_flags (lp_at page (unat slot)) f)) = slot_count page"
    and "t < slot_count page \<Longrightarrow> lp_at (set_line_pointer page slot (lp_with_flags (lp_at page (unat slot)) f)) t =
      (if t = unat slot then lp_with_flags (lp_at page t) f else lp_at page t)"
    and "lower_of page \<le> b \<Longrightarrow> c \<le> 8192 \<Longrightarrow>
      slice_of (set_line_pointer page slot (lp_with_flags (lp_at page (unat slot)) f)) b c = slice_of page b c"
proof -
  note geo = geometry_bounds [OF g] and b = slots_in_page [OF g s]
  note e = set_line_pointer_simps [OF b(2)]
  show h: "page_header (set_line_pointer page slot (lp_with_flags (lp_at page (unat slot)) f)) = page_header page"
    by (rule e(2))
  show "geometry_ok (set_line_pointer page slot (lp_with_flags (lp_at page (unat slot)) f))"
    using g unfolding geometry_ok_def h e(1) .
  show "slot_count (set_line_pointer page slot (lp_with_flags (lp_at page (unat slot)) f)) = slot_count page"
    unfolding slot_count_def h ..
  show "lp_at (set_line_pointer page slot (lp_with_flags (lp_at page (unat slot)) f)) t =
      (if t = unat slot then lp_with_flags (lp_at page t) f else lp_at page t)" if "t < slot_count page"
    using e(3) [OF slots_in_page(2) [OF g that]] by simp
  show "slice_of (set_line_pointer page slot (lp_with_flags (lp_at page (unat slot)) f)) b c = slice_of page b c"
    if "lower_of page \<le> b" "c \<le> 8192"
    using e(4) [of b c] b(1) that geo by simp
qed

text \<open>Dropping slots from a page whose other slots stay put.\<close>

lemma page_ok_drop:
  assumes ok: "page_ok page" and g: "geometry_ok page'" and hdr: "page_header page' = page_header page"
    and sub: "\<And>s. used page' s \<longleftrightarrow> used page s \<and> s \<notin> D"
    and lp: "\<And>s. used page' s \<Longrightarrow> lp_at page' s = lp_at page s"
    and sl: "\<And>b c. lower_of page \<le> b \<Longrightarrow> c \<le> 8192 \<Longrightarrow> slice_of page' b c = slice_of page b c"
  shows "page_ok page'" and "tuples page' = tuples page |` (- D)"
proof -
  show "page_ok page'"
    by (rule page_okI [OF g]) (use sub lp hdr page_okD(2-) [OF ok] in auto)
  show "tuples page' = tuples page |` (- D)"
  proof
    fix s
    note geo = geometry_bounds [OF page_okD(1) [OF ok]]
    have "slice_of page' (region_lo page s) (region_hi page s) = slice_of page (region_lo page s) (region_hi page s)"
      if "used page s"
      using page_okD(2,4) [OF ok that] geo by (intro sl) linarith+
    then show "tuples page' s = (tuples page |` (- D)) s"
      using sub [of s] lp [of s] by (auto simp: tuples_def restrict_map_def)
  qed
qed

lemma delete_tuple_correct:
  assumes ok: "page_ok page" and d: "delete_tuple page slot = Ok page'"
  shows "page_ok page' \<and> tuples page' = (tuples page)(unat slot := None) \<and> slot_count page' = slot_count page"
proof -
  note g = page_okD(1) [OF ok]
  have s: "unat slot < slot_count page" and p': "page' = set_line_pointer page slot (lp_with_flags (lp_at page (unat slot)) Unused)"
    using d by (auto simp: delete_tuple_def line_pointer_ok [OF g] split: if_splits)
  note e = set_flags_effect [OF g s, where f = Unused, folded p']
  have u: "used page' t \<longleftrightarrow> used page t \<and> t \<notin> {unat slot}" for t
    using e(3) e(4) [of t] by (auto simp: used_def split: if_splits)
  have l: "lp_at page' t = lp_at page t" if "used page' t" for t
    using e(3) e(4) [of t] that by (auto simp: used_def split: if_splits)
  have "tuples page |` (- {unat slot}) = (tuples page)(unat slot := None)"
    by (auto simp: restrict_map_def)
  then show ?thesis using page_ok_drop [OF ok e(1,2) u l e(5)] e(3) by simp
qed

lemma tuple_at_correct:
  assumes ok: "page_ok page" and nr: "\<And>s. used page s \<Longrightarrow> lp_flags (lp_at page s) \<noteq> Redirect"
  shows "tuple_at page slot = Ok (case tuples page (unat slot) of Some (Normal, bytes) \<Rightarrow> Some bytes | _ \<Rightarrow> None)"
proof (cases "used page (unat slot)")
  case True
  then have "unat slot < slot_count page" by (simp add: used_def)
  then show ?thesis
    using True nr [OF True] page_okD(2,4) [OF ok True]
    by (cases "lp_flags (lp_at page (unat slot))")
      (auto simp: tuple_at_def line_pointer_ok [OF page_okD(1) [OF ok]] checked_header_ok [OF page_okD(1) [OF ok]]
        tuples_def Let_def)
next
  case False
  then show ?thesis
    by (auto simp: tuple_at_def line_pointer_ok [OF page_okD(1) [OF ok]] tuples_def used_def)
qed

section \<open>Compaction is the restriction of the page\<close>

definition kill_list_ok :: "page \<Rightarrow> u16 list \<Rightarrow> bool" where
  "kill_list_ok page dead \<longleftrightarrow> sorted_wrt (<) dead \<and>
     (\<forall>s \<in> set dead. unat s < slot_count page \<and> lp_flags (lp_at page (unat s)) \<in> {Normal, Dead})"

lemma check_kill_list_iff:
  assumes g: "geometry_ok page"
  shows "check_kill_list page prev dead = Ok () \<longleftrightarrow>
    kill_list_ok page dead \<and> (\<forall>p. prev = Some p \<longrightarrow> (\<forall>s \<in> set dead. p < s))"
proof (induction dead arbitrary: prev)
  case Nil
  then show ?case by (simp add: kill_list_ok_def)
next
  case (Cons s dead)
  then show ?case
    by (cases prev) (auto simp: line_pointer_ok [OF g] kill_list_ok_def not_le split: if_splits)
qed

definition stage_of :: "page \<Rightarrow> nat \<Rightarrow> staged" where
  "stage_of page s = (of_nat s, lp_flags (lp_at page s), lp_len (lp_at page s),
     slice_of page (region_lo page s) (region_hi page s))"

lemma stage_slots_ok:
  assumes "page_ok page" and "\<forall>s \<in> set slots. s < slot_count page"
  shows "stage_slots page (page_header page) dead slots =
    Ok (map (stage_of page) (filter (\<lambda>s. used page s \<and> of_nat s \<notin> set dead) slots))"
  using assms(2)
proof (induction slots)
  case (Cons s slots)
  have "used page s \<longleftrightarrow> lp_flags (lp_at page s) \<noteq> Unused" using Cons.prems by (simp add: used_def)
  then show ?case
    using Cons page_okD(2,4) [OF assms(1), of s] by (auto simp: Let_def stage_of_def not_less)
qed simp

abbreviation staged_len :: "staged list \<Rightarrow> nat" where
  "staged_len st \<equiv> sum_list (map (\<lambda>(s, f, l, bs). unat l) st)"

text \<open>The staged tuples lie in a page between two offsets, without overlap.\<close>

definition placed :: "page \<Rightarrow> nat \<Rightarrow> nat \<Rightarrow> staged list \<Rightarrow> bool" where
  "placed page lo hi st \<longleftrightarrow>
     (\<forall>(s, f, l, bs) \<in> set st. lp_flags (lp_at page (unat s)) = f \<and> lp_len (lp_at page (unat s)) = l \<and>
        lo \<le> region_lo page (unat s) \<and> region_hi page (unat s) \<le> hi \<and>
        slice_of page (region_lo page (unat s)) (region_hi page (unat s)) = bs) \<and>
     (\<forall>e \<in> set st. \<forall>e' \<in> set st. fst e \<noteq> fst e' \<longrightarrow>
        region_hi page (unat (fst e)) \<le> region_lo page (unat (fst e')) \<or>
        region_hi page (unat (fst e')) \<le> region_lo page (unat (fst e)))"

lemma placed_Cons:
  assumes "placed page lo mid st" and "mid \<le> hi" and "lo \<le> mid"
    and "lp_flags (lp_at page (unat s)) = f" and "lp_len (lp_at page (unat s)) = l"
    and "region_lo page (unat s) = mid" and "mid + unat l = hi" and "slice_of page mid hi = bs"
  shows "placed page lo hi ((s, f, l, bs) # st)"
proof -
  have "region_hi page (unat s) = hi" using assms by simp
  then show ?thesis using assms unfolding placed_def by (force simp: case_prod_unfold)
qed

definition stageable :: "nat \<Rightarrow> staged list \<Rightarrow> bool" where
  "stageable base st \<longleftrightarrow> distinct (map fst st) \<and>
     (\<forall>(s, f, l, bs) \<in> set st. 36 + 4 * unat s \<le> base \<and> length bs = unat l \<and> unat l < 32768)"

definition restage_one :: "page \<Rightarrow> nat \<Rightarrow> u16 \<Rightarrow> LpFlags \<Rightarrow> u16 \<Rightarrow> u8 list \<Rightarrow> page" where
  "restage_one page c s f l bs = set_line_pointer (write_at page c bs) s (lp_new (of_nat c) f l)"

lemma restage_one_effect:
  assumes "length page = 8192" and "c + unat l \<le> 8192" and "base \<le> c" and "length bs = unat l"
    and "36 + 4 * unat s \<le> base"
  shows "length (restage_one page c s f l bs) = 8192"
    and "page_header (restage_one page c s f l bs) = page_header page"
    and "36 + 4 * t \<le> base \<Longrightarrow>
      lp_at (restage_one page c s f l bs) t = (if t = unat s then lp_new (of_nat c) f l else lp_at page t)"
    and "c + unat l \<le> b \<Longrightarrow> d \<le> 8192 \<Longrightarrow> slice_of (restage_one page c s f l bs) b d = slice_of page b d"
    and "slice_of (restage_one page c s f l bs) c (c + unat l) = bs"
proof -
  have len0: "length (write_at page c bs) = 8192" using assms by simp
  have slot: "36 + 4 * unat s \<le> length (write_at page c bs)" using assms len0 by linarith
  note w = set_line_pointer_simps [OF slot, where lp = "lp_new (of_nat c) f l", folded restage_one_def]
  show "length (restage_one page c s f l bs) = 8192" unfolding w(1) by (rule len0)
  show "page_header (restage_one page c s f l bs) = page_header page"
    unfolding w(2) using assms by (intro header_fields_write) (auto simp: PAGE_HEADER_SIZE_def)
  show "lp_at (restage_one page c s f l bs) t = (if t = unat s then lp_new (of_nat c) f l else lp_at page t)"
    if "36 + 4 * t \<le> base"
    using that assms len0 by (subst w(3)) (auto simp: lp_at_write)
  have sl: "slice_of (restage_one page c s f l bs) b d = slice_of (write_at page c bs) b d"
    if "c \<le> b" "d \<le> 8192" for b d
    using that assms len0 by (intro w(4)) linarith+
  show "slice_of (restage_one page c s f l bs) b d = slice_of page b d" if "c + unat l \<le> b" "d \<le> 8192"
    using sl [of b d] that assms by (simp add: slice_of_write_disjoint)
  show "slice_of (restage_one page c s f l bs) c (c + unat l) = bs"
    using sl [of c "c + unat l"] assms by (simp add: slice_of_write_same)
qed

lemma restage_effect:
  assumes "length page = 8192" and "cursor \<le> 8192" and "base + staged_len st \<le> cursor" and "stageable base st"
  shows "\<exists>page'. restage page cursor st = Ok (page', cursor - staged_len st) \<and> length page' = 8192 \<and>
    page_header page' = page_header page \<and>
    (\<forall>t. 36 + 4 * t \<le> base \<longrightarrow> t \<notin> unat ` fst ` set st \<longrightarrow> lp_at page' t = lp_at page t) \<and>
    (\<forall>b c. cursor \<le> b \<longrightarrow> c \<le> 8192 \<longrightarrow> slice_of page' b c = slice_of page b c) \<and>
    placed page' (cursor - staged_len st) cursor st"
  using assms
proof (induction st arbitrary: page cursor)
  case Nil
  then show ?case by (simp add: placed_def)
next
  case (Cons e st)
  obtain s f l bs where e: "e = (s, f, l, bs)" by (cases e)
  obtain c where c: "cursor = c + unat l" "base + staged_len st \<le> c"
    using Cons.prems(3) e le_Suc_ex [of "unat l" cursor] by (auto simp: add.commute)
  have sz: "length bs = unat l" "unat l < 32768" "36 + 4 * unat s \<le> base" "c + unat l \<le> 8192" "base \<le> c" "stageable base st"
    using Cons.prems c e by (auto simp: stageable_def)
  have "s \<notin> fst ` set st" using Cons.prems(4) e by (auto simp: stageable_def)
  then have own: "unat s \<notin> unat ` fst ` set st" by (metis imageE word_unat_eq_iff)
  note w = restage_one_effect [OF Cons.prems(1) sz(4,5,1,3), where f = f]
  from Cons.IH [OF w(1) _ c(2) sz(6)] obtain p' where
    r: "restage (restage_one page c s f l bs) c st = Ok (p', c - staged_len st)" and
    p': "length p' = 8192" "page_header p' = page_header (restage_one page c s f l bs)"
      "\<And>t. 36 + 4 * t \<le> base \<Longrightarrow> t \<notin> unat ` fst ` set st \<Longrightarrow> lp_at p' t = lp_at (restage_one page c s f l bs) t"
      "\<And>b d. c \<le> b \<Longrightarrow> d \<le> 8192 \<Longrightarrow> slice_of p' b d = slice_of (restage_one page c s f l bs) b d"
      and pl: "placed p' (c - staged_len st) c st"
    using sz(4) by auto
  have lps: "lp_at p' (unat s) = lp_new (of_nat c) f l" using p'(3) [OF sz(3) own] w(3) [OF sz(3)] by simp
  have "slice_of p' c cursor = bs" using p'(4) [of c cursor] w(5) sz c by simp
  then have "placed p' (c - staged_len st) cursor ((s, f, l, bs) # st)"
    using pl sz c lps by (intro placed_Cons [where mid = c]) auto
  moreover have "restage page cursor (e # st) = Ok (p', cursor - staged_len (e # st))"
    using r by (simp add: Let_def restage_one_def e c)
  ultimately show ?case
    using p' w(2,3,4) e c by (intro exI [of _ p']) auto
qed

lemma kill_slots_effect:
  assumes "geometry_ok page" and "\<forall>s \<in> set dead. unat s < slot_count page"
  shows "\<exists>page'. kill_slots page dead = Ok page' \<and> geometry_ok page' \<and> page_header page' = page_header page \<and>
    (\<forall>t < slot_count page. lp_at page' t =
       (if t \<in> unat ` set dead then lp_with_flags (lp_at page t) Unused else lp_at page t)) \<and>
    (\<forall>b c. lower_of page \<le> b \<longrightarrow> c \<le> 8192 \<longrightarrow> slice_of page' b c = slice_of page b c)"
  using assms
proof (induction dead arbitrary: page)
  case (Cons s dead)
  have s: "unat s < slot_count page" using Cons.prems by simp
  let ?p = "set_line_pointer page s (lp_with_flags (lp_at page (unat s)) Unused)"
  note e = set_flags_effect [OF Cons.prems(1) s, where f = Unused]
  have "\<forall>t \<in> set dead. unat t < slot_count ?p" using Cons.prems(2) e(3) by simp
  from Cons.IH [OF e(1) this] obtain p' where
    p': "kill_slots ?p dead = Ok p'" "geometry_ok p'" "page_header p' = page_header ?p"
      "\<And>t. t < slot_count page \<Longrightarrow> lp_at p' t =
         (if t \<in> unat ` set dead then lp_with_flags (lp_at ?p t) Unused else lp_at ?p t)"
      "\<And>b c. lower_of page \<le> b \<Longrightarrow> c \<le> 8192 \<Longrightarrow> slice_of p' b c = slice_of ?p b c"
    unfolding e(2,3) by auto
  have idem: "lp_with_flags (lp_with_flags lp Unused) Unused = lp_with_flags lp Unused" for lp
    by (simp add: lp_with_flags_def)
  have "kill_slots page (s # dead) = Ok p'"
    using p'(1) s by (simp add: line_pointer_ok [OF Cons.prems(1)])
  moreover have "lp_at p' t = (if t \<in> unat ` set (s # dead) then lp_with_flags (lp_at page t) Unused else lp_at page t)"
    if "t < slot_count page" for t
    using p'(4) [OF that] e(4) [OF that] idem by auto
  ultimately show ?case using p'(2,3,5) e(2,5) by (intro exI [of _ p']) auto
qed auto

text \<open>Disjoint tuples fit the data region together.\<close>

lemma used_len_sum:
  assumes ok: "page_ok page" and "distinct xs" and "\<forall>s \<in> set xs. used page s"
  shows "sum_list (map (\<lambda>s. unat (lp_len (lp_at page s))) xs) \<le> special_of page - upper_of page"
proof -
  let ?R = "\<lambda>s. {region_lo page s..<region_hi page s}"
  have "sum_list (map (\<lambda>s. unat (lp_len (lp_at page s))) xs) = (\<Sum>s \<in> set xs. card (?R s))"
    using assms(2) by (simp add: sum_list_distinct_conv_sum_set)
  also have "\<dots> = card (\<Union>s \<in> set xs. ?R s)"
    using page_okD(5) [OF ok] assms(3) by (intro card_UN_disjoint [symmetric]) fastforce+
  also have "\<dots> \<le> card {upper_of page..<special_of page}"
    using page_okD(2,4) [OF ok] assms(3) by (intro card_mono) fastforce+
  finally show ?thesis by simp
qed

definition kept :: "page \<Rightarrow> u16 list \<Rightarrow> nat list" where
  "kept page dead = filter (\<lambda>s. used page s \<and> of_nat s \<notin> set dead) [0..<slot_count page]"

lemma kept_iff:
  assumes "geometry_ok page"
  shows "s \<in> set (kept page dead) \<longleftrightarrow> used page s \<and> s \<notin> unat ` set dead"
proof -
  have "of_nat s \<in> set dead \<longleftrightarrow> s \<in> unat ` set dead" if "s < slot_count page"
    using u16_of_nat [OF slots_in_page(3) [OF assms that]] by (auto intro: rev_image_eqI [where x = "of_nat s"])
  then show ?thesis by (auto simp: kept_def used_def)
qed

lemma kept_stageable:
  assumes ok: "page_ok page"
  shows "stageable (lower_of page) (map (stage_of page) (kept page dead))"
    and "staged_len (map (stage_of page) (kept page dead)) \<le> special_of page - upper_of page"
proof -
  note g = page_okD(1) [OF ok]
  have us: "used page s" "s < 65536" if "s \<in> set (kept page dead)" for s
    using that slots_in_page(3) [OF g, of s] by (auto simp: kept_def used_def)
  have "inj_on (of_nat :: nat \<Rightarrow> u16) (set (kept page dead))"
    using us(2) by (auto simp: inj_on_def of_nat_u16_inj)
  then have "distinct (map fst (map (stage_of page) (kept page dead)))"
    by (simp add: stage_of_def comp_def distinct_map kept_def)
  moreover have "case stage_of page s of (s, f, l, bs) \<Rightarrow>
      36 + 4 * unat s \<le> lower_of page \<and> length bs = unat l \<and> unat l < 32768" if "s \<in> set (kept page dead)" for s
  proof -
    have "s < slot_count page" using us(1) [OF that] by (simp add: used_def)
    then have "36 + 4 * s \<le> lower_of page" by (rule slots_in_page(1) [OF g])
    moreover have "region_hi page s \<le> length page"
      using page_okD(4) [OF ok us(1) [OF that]] geometry_bounds [OF g] by linarith
    ultimately show ?thesis using us(2) [OF that] by (simp add: stage_of_def)
  qed
  ultimately show "stageable (lower_of page) (map (stage_of page) (kept page dead))"
    by (simp add: stageable_def)
  have "staged_len (map (stage_of page) xs) = sum_list (map (\<lambda>s. unat (lp_len (lp_at page s))) xs)" for xs
    by (induction xs) (simp_all add: stage_of_def)
  moreover have "distinct (kept page dead)" by (simp add: kept_def)
  ultimately show "staged_len (map (stage_of page) (kept page dead)) \<le> special_of page - upper_of page"
    using used_len_sum [OF ok] us(1) by metis
qed

definition kept_len :: "page \<Rightarrow> u16 list \<Rightarrow> nat" where
  "kept_len page dead = staged_len (map (stage_of page) (kept page dead))"

text \<open>What compaction leaves in a page that was well formed.\<close>

lemma compact_result:
  assumes ok: "page_ok page" and kl: "kill_list_ok page dead"
  shows "\<exists>p1 p2 p3. compact page dead = Ok p3 \<and> p3 = set_pd_upper p2 (of_nat (special_of page - kept_len page dead)) \<and>
    placed p1 (special_of page - kept_len page dead) (special_of page) (map (stage_of page) (kept page dead)) \<and>
    geometry_ok p2 \<and> page_header p2 = page_header page \<and>
    (\<forall>t < slot_count page. lp_at p2 t =
       (if t \<in> unat ` set dead then lp_with_flags (lp_at p1 t) Unused else lp_at p1 t)) \<and>
    (\<forall>t < slot_count page. t \<notin> set (kept page dead) \<longrightarrow> lp_at p1 t = lp_at page t) \<and>
    (\<forall>b c. lower_of page \<le> b \<longrightarrow> c \<le> 8192 \<longrightarrow> slice_of p2 b c = slice_of p1 b c) \<and>
    (\<forall>b c. special_of page \<le> b \<longrightarrow> c \<le> 8192 \<longrightarrow> slice_of p1 b c = slice_of page b c)"
proof -
  note g = page_okD(1) [OF ok]
  note geo = geometry_bounds [OF g] and st = kept_stageable [OF ok, of dead, folded kept_len_def]
  let ?st = "map (stage_of page) (kept page dead)"
  let ?p0 = "write_at page (upper_of page) (replicate (special_of page - upper_of page) 0)"
  have p0: "length ?p0 = 8192" "page_header ?p0 = page_header page" using geo by (auto simp: header_fields_write PAGE_HEADER_SIZE_def)
  have lp0: "lp_at ?p0 t = lp_at page t" if "t < slot_count page" for t
    using slots_in_page [OF g that] geo by (intro lp_at_write) auto
  have "lower_of page + staged_len ?st \<le> special_of page" using st(2) geo unfolding kept_len_def by linarith
  from restage_effect [OF p0(1) geo(5) this st(1)] obtain p1 where
    r: "restage ?p0 (special_of page) ?st = Ok (p1, special_of page - kept_len page dead)"
    and p1: "length p1 = 8192" "page_header p1 = page_header page"
      "\<And>t. 36 + 4 * t \<le> lower_of page \<Longrightarrow> t \<notin> unat ` fst ` set ?st \<Longrightarrow> lp_at p1 t = lp_at ?p0 t"
      "placed p1 (special_of page - kept_len page dead) (special_of page) ?st"
    and sl1: "\<forall>b c. special_of page \<le> b \<longrightarrow> c \<le> 8192 \<longrightarrow> slice_of p1 b c = slice_of ?p0 b c"
    unfolding kept_len_def [symmetric] p0(2) by blast
  have "slice_of ?p0 b c = slice_of page b c" if "special_of page \<le> b" "c \<le> 8192" for b c
    using that geo by (intro slice_of_write_disjoint) auto
  then have sl: "\<forall>b c. special_of page \<le> b \<longrightarrow> c \<le> 8192 \<longrightarrow> slice_of p1 b c = slice_of page b c" using sl1 by simp
  have g1: "geometry_ok p1" using g p1(1,2) unfolding geometry_ok_def by (simp add: PAGE_SIZE_def)
  have c1: "slot_count p1 = slot_count page" by (simp add: slot_count_def p1(2))
  have dead: "\<forall>s \<in> set dead. unat s < slot_count p1" using kl c1 by (simp add: kill_list_ok_def)
  obtain p2 where k: "kill_slots p1 dead = Ok p2" and p2: "geometry_ok p2" "page_header p2 = page_header page"
      "\<forall>t < slot_count page. lp_at p2 t =
       (if t \<in> unat ` set dead then lp_with_flags (lp_at p1 t) Unused else lp_at p1 t)"
      "\<forall>b c. lower_of page \<le> b \<longrightarrow> c \<le> 8192 \<longrightarrow> slice_of p2 b c = slice_of p1 b c"
    using kill_slots_effect [OF g1 dead] unfolding c1 p1(2) by blast
  have ck: "check_kill_list page None dead = Ok ()" using kl check_kill_list_iff [OF g, of None dead] by simp
  have sg: "stage_slots page (page_header page) dead [0..<slot_count page] = Ok ?st"
    unfolding kept_def by (rule stage_slots_ok [OF ok]) simp
  have "compact page dead = Ok (set_pd_upper p2 (of_nat (special_of page - kept_len page dead)))"
    unfolding compact_def checked_header_ok [OF g] obind.simps Let_def slot_count_def [symmetric] ck sg r prod.case k ..
  moreover have "lp_at p1 t = lp_at page t" if t: "t < slot_count page" "t \<notin> set (kept page dead)" for t
  proof -
    have "unat (fst (stage_of page s)) = s" if "s \<in> set (kept page dead)" for s
      using that slots_in_page(3) [OF g, of s] by (simp add: stage_of_def kept_def)
    then have "unat ` fst ` set ?st = set (kept page dead)" by (simp add: image_image)
    then show ?thesis using p1(3) [OF slots_in_page(1) [OF g t(1)]] lp0 [OF t(1)] t(2) by simp
  qed
  ultimately show ?thesis using p1(4) p2 sl by blast
qed

lemma placed_kept:
  assumes g: "geometry_ok page" and pl: "placed p lo hi (map (stage_of page) (kept page dead))" and s: "s \<in> set (kept page dead)"
  shows "lp_flags (lp_at p s) = lp_flags (lp_at page s)" and "lp_len (lp_at p s) = lp_len (lp_at page s)"
    and "lo \<le> region_lo p s" and "region_hi p s \<le> hi"
    and "slice_of p (region_lo p s) (region_hi p s) = slice_of page (region_lo page s) (region_hi page s)"
    and "t \<in> set (kept page dead) \<Longrightarrow> s \<noteq> t \<Longrightarrow> region_hi p s \<le> region_lo p t \<or> region_hi p t \<le> region_lo p s"
proof -
  have un: "unat (of_nat r :: u16) = r" if "r \<in> set (kept page dead)" for r
    using that slots_in_page(3) [OF g, of r] by (simp add: kept_def)
  have st: "stage_of page r \<in> set (map (stage_of page) (kept page dead))" if "r \<in> set (kept page dead)" for r
    using that by simp
  note here = bspec [OF conjunct1 [OF pl [unfolded placed_def]] st [OF s], unfolded stage_of_def prod.case un [OF s]]
  show "lp_flags (lp_at p s) = lp_flags (lp_at page s)" by (rule here [THEN conjunct1])
  show "lp_len (lp_at p s) = lp_len (lp_at page s)" by (rule here [THEN conjunct2, THEN conjunct1])
  show "lo \<le> region_lo p s" by (rule here [THEN conjunct2, THEN conjunct2, THEN conjunct1])
  show "region_hi p s \<le> hi" by (rule here [THEN conjunct2, THEN conjunct2, THEN conjunct2, THEN conjunct1])
  show "slice_of p (region_lo p s) (region_hi p s) = slice_of page (region_lo page s) (region_hi page s)"
    by (rule here [THEN conjunct2, THEN conjunct2, THEN conjunct2, THEN conjunct2])
  show "region_hi p s \<le> region_lo p t \<or> region_hi p t \<le> region_lo p s" if t: "t \<in> set (kept page dead)" and "s \<noteq> t"
  proof -
    have "fst (stage_of page s) \<noteq> fst (stage_of page t)"
      using un [OF s] un [OF t] \<open>s \<noteq> t\<close> unfolding stage_of_def fst_conv by metis
    moreover have "unat (fst (stage_of page s)) = s" "unat (fst (stage_of page t)) = t"
      using un [OF s] un [OF t] by (simp_all add: stage_of_def)
    ultimately show ?thesis
      using bspec [OF bspec [OF conjunct2 [OF pl [unfolded placed_def]] st [OF s]] st [OF t]] by simp
  qed
qed

text \<open>A page whose kept slots are as in \<open>p1\<close> and whose other slots are unused.\<close>

lemma repacked:
  assumes ok: "page_ok page" and g3: "geometry_ok p3" and cnt: "slot_count p3 = slot_count page"
    and hdr: "upper_of p3 = u" "special_of p3 = special_of page" and u: "upper_of page \<le> u"
    and pl: "placed p1 u (special_of page) (map (stage_of page) (kept page dead))"
    and lp1: "\<And>t. t < slot_count page \<Longrightarrow> t \<notin> set (kept page dead) \<Longrightarrow> lp_at p1 t = lp_at page t"
    and lp3: "\<And>t. t < slot_count page \<Longrightarrow>
       lp_at p3 t = (if t \<in> unat ` set dead then lp_with_flags (lp_at p1 t) Unused else lp_at p1 t)"
    and sl: "\<And>b c. lower_of page \<le> b \<Longrightarrow> c \<le> 8192 \<Longrightarrow> slice_of p3 b c = slice_of p1 b c"
  shows "page_ok p3" and "tuples p3 = tuples page |` (- unat ` set dead)"
proof -
  note g = page_okD(1) [OF ok]
  note geo = geometry_bounds [OF g] and pk = placed_kept [OF g pl] and ki = kept_iff [OF g]
  have us: "used p3 t \<longleftrightarrow> t \<in> set (kept page dead)" for t
  proof (cases "t < slot_count page")
    case True
    then show ?thesis
      using pk(1) [of t] lp3 [OF True] lp1 [OF True] ki [of t dead] by (auto simp: used_def cnt split: if_splits)
  next
    case False
    then show ?thesis using ki [of t dead] by (simp add: used_def cnt)
  qed
  have l: "lp_at p3 t = lp_at p1 t" and up: "used page t" if "t \<in> set (kept page dead)" for t
    using lp3 [of t] that ki [of t dead] by (simp_all add: used_def)
  show "page_ok p3"
  proof (rule page_okI [OF g3])
    fix s assume "used p3 s"
    then have k: "s \<in> set (kept page dead)" using us by simp
    show "upper_of p3 \<le> region_lo p3 s \<and> region_lo p3 s < region_hi p3 s \<and> region_hi p3 s \<le> special_of p3"
      using pk(2-4) [OF k] page_okD(3) [OF ok up [OF k]] hdr l [OF k] by simp
  next
    fix s t assume "used p3 s" "used p3 t" "s < t"
    then show "region_hi p3 s \<le> region_lo p3 t \<or> region_hi p3 t \<le> region_lo p3 s"
      using pk(6) [of s t] us l by simp
  qed
  show "tuples p3 = tuples page |` (- unat ` set dead)"
  proof
    fix s
    show "tuples p3 s = (tuples page |` (- unat ` set dead)) s"
    proof (cases "s \<in> set (kept page dead)")
      case True
      have "slice_of p3 (region_lo p1 s) (region_hi p1 s) = slice_of p1 (region_lo p1 s) (region_hi p1 s)"
        using pk(3,4) [OF True] u geo by (intro sl) linarith+
      then show ?thesis
        using True us [of s] l [OF True] pk(1,5) [OF True] ki [of s dead] by (simp add: tuples_def restrict_map_def)
    next
      case False
      then show ?thesis using us [of s] ki [of s dead] by (auto simp: tuples_def restrict_map_def)
    qed
  qed
qed

lemma compact_correct:
  assumes ok: "page_ok page" and kl: "kill_list_ok page dead"
  shows "\<exists>page'. compact page dead = Ok page' \<and> page_ok page' \<and>
    tuples page' = tuples page |` (- unat ` set dead) \<and> slot_count page' = slot_count page \<and>
    upper_of page' = special_of page - kept_len page dead \<and> special_of page' = special_of page"
proof -
  note g = page_okD(1) [OF ok]
  note geo = geometry_bounds [OF g]
  define u where "u = special_of page - kept_len page dead"
  from compact_result [OF ok kl, folded u_def] obtain p1 p2 p3 where
    c: "compact page dead = Ok p3" and p3: "p3 = set_pd_upper p2 (of_nat u)"
    and pl: "placed p1 u (special_of page) (map (stage_of page) (kept page dead))"
    and g2: "geometry_ok p2" and h2: "page_header p2 = page_header page"
    and lp2: "\<And>t. t < slot_count page \<Longrightarrow> lp_at p2 t =
       (if t \<in> unat ` set dead then lp_with_flags (lp_at p1 t) Unused else lp_at p1 t)"
    and lp1: "\<And>t. t < slot_count page \<Longrightarrow> t \<notin> set (kept page dead) \<Longrightarrow> lp_at p1 t = lp_at page t"
    and sl2: "\<And>b c. lower_of page \<le> b \<Longrightarrow> c \<le> 8192 \<Longrightarrow> slice_of p2 b c = slice_of p1 b c"
    by blast
  have len2: "length p2 = 8192" by (rule geometry_bounds(1) [OF g2])
  then have "PAGE_HEADER_SIZE \<le> length p2" by (simp add: PAGE_HEADER_SIZE_def)
  note w = set_pd_simps [OF this, where v = "of_nat u", folded p3]
  have ur: "upper_of page \<le> u" "u \<le> special_of page"
    using kept_stageable(2) [OF ok, of dead] geo unfolding u_def kept_len_def by linarith+
  have hdr: "lower_of p3 = lower_of page" "upper_of p3 = u" "special_of p3 = special_of page"
    unfolding w(4) h2 using ur geo by simp_all
  have cnt: "slot_count p3 = slot_count page" by (simp add: slot_count_def w(4) h2)
  have g3: "geometry_ok p3" using g ur unfolding geometry_ok_def hdr w(2) len2 by (simp add: PAGE_SIZE_def)
  have lp3: "lp_at p3 t = (if t \<in> unat ` set dead then lp_with_flags (lp_at p1 t) Unused else lp_at p1 t)"
    if "t < slot_count page" for t
    using w(6) [of t] slots_in_page(2) [OF g that] geo(1) lp2 [OF that] len2 by simp
  have sl3: "slice_of p3 b c = slice_of p1 b c" if "lower_of page \<le> b" "c \<le> 8192" for b c
    using w(8) [of b c] sl2 [OF that] that geo len2 by (simp add: PAGE_HEADER_SIZE_def)
  from repacked [OF ok g3 cnt hdr(2,3) ur(1) pl lp1 lp3 sl3] show ?thesis
    using c cnt hdr by (intro exI [of _ p3]) (simp add: u_def)
qed

section \<open>The page chain pointer\<close>

lemma set_next_page_correct:
  assumes ok: "page_ok page" and s: "set_next_page page next = Ok page'"
  shows "page_ok page'" and "tuples page' = tuples page" and "slot_count page' = slot_count page"
    and "next_page page' = Ok (if next = Some 0 then None else next)"
proof -
  note g = page_okD(1) [OF ok]
  note geo = geometry_bounds [OF g]
  let ?raw = "case next of None \<Rightarrow> 0 | Some p \<Rightarrow> p"
  have sp: "special_of page = 8176" and p': "page' = write_at page 8176 (le_bytes 8 ?raw)"
    using s by (auto simp: set_next_page_def checked_header_ok [OF g] PAGE_SIZE_def HEAP_SPECIAL_SIZE_def Let_def split: if_splits)
  have len: "length page' = 8192" using p' geo by simp
  have hdr: "page_header page' = page_header page"
    unfolding p' using geo by (intro header_fields_write) (simp_all add: PAGE_HEADER_SIZE_def)
  have g': "geometry_ok page'" using g len geo(1) unfolding geometry_ok_def hdr by (simp add: PAGE_SIZE_def)
  show cnt: "slot_count page' = slot_count page" by (simp add: slot_count_def hdr)
  have lp: "lp_at page' t = lp_at page t" if "t < slot_count page" for t
    unfolding p' using slots_in_page(1,2) [OF g that] geo sp by (intro lp_at_write) auto
  have us: "used page' t \<longleftrightarrow> used page t" for t using lp [of t] by (auto simp: used_def cnt)
  have lpu: "lp_at page' t = lp_at page t" if "used page t" for t using lp [of t] that by (simp add: used_def)
  show "page_ok page'"
    by (rule page_okI [OF g']) (use us lpu hdr page_okD(2-) [OF ok] in auto)
  have "slice_of page' (region_lo page t) (region_hi page t) = slice_of page (region_lo page t) (region_hi page t)"
    if "used page t" for t
    unfolding p' using page_okD(4) [OF ok that] sp geo by (intro slice_of_write_disjoint) auto
  then show "tuples page' = tuples page" using us lpu by (auto simp: tuples_def)
  have "slice_of page' 8176 8184 = le_bytes 8 ?raw" unfolding p' using geo by (intro slice_of_write_same) auto
  then show "next_page page' = Ok (if next = Some 0 then None else next)"
    using sp by (auto simp: next_page_def checked_header_ok [OF g'] hdr PAGE_SIZE_def HEAP_SPECIAL_SIZE_def Let_def
        split: option.splits)
qed

section \<open>Fresh pages and runs\<close>

lemma init_with_special_effect:
  assumes "n \<le> 8160"
  shows "geometry_ok (init_with_special n)" and "slot_count (init_with_special n) = 0"
    and "special_of (init_with_special n) = 8192 - n" and "upper_of (init_with_special n) = 8192 - n"
proof -
  let ?p0 = "init_page (replicate PAGE_SIZE 0)" and ?sp = "of_nat (PAGE_SIZE - n) :: u16"
  have len: "length ?p0 = 8192" by (simp add: init_page_def PAGE_SIZE_def PAGE_HEADER_SIZE_def)
  have h0: "header_read_from ?p0 = header_new (of_nat PAGE_SIZE)" by (simp add: init_page_def header_read_write)
  have "page_header (init_with_special n) = (header_new (of_nat PAGE_SIZE))\<lparr>pd_upper := ?sp, pd_special := ?sp\<rparr>"
    unfolding h0 [symmetric] init_with_special_def Let_def page_header_def header_read_from_def page_pd_lsn_def
    using len by (simp add: slice_simps)
  moreover have "unat ?sp = 8192 - n" by (simp add: PAGE_SIZE_def del: of_nat_diff)
  moreover have "length (init_with_special n) = 8192" using len by (simp add: init_with_special_def Let_def)
  ultimately show "geometry_ok (init_with_special n)" "slot_count (init_with_special n) = 0"
    "special_of (init_with_special n) = 8192 - n" "upper_of (init_with_special n) = 8192 - n"
    using assms by (simp_all add: geometry_ok_def slot_count_def header_new_def page_consts)
qed

lemma init_with_special_ok: "n \<le> 8160 \<Longrightarrow> page_ok (init_with_special n) \<and> tuples (init_with_special n) = Map.empty"
  using init_with_special_effect [of n] by (auto simp: page_ok_def used_def tuples_def)

text \<open>The mutations the heap access method applies to a page.\<close>

inductive page_step :: "page \<Rightarrow> page \<Rightarrow> bool" where
  add_tuple_at_step: "add_tuple_at p slot bytes = Ok p' \<Longrightarrow> page_step p p'"
| delete_tuple_step: "delete_tuple p slot = Ok p' \<Longrightarrow> page_step p p'"
| compact_step: "compact p dead = Ok p' \<Longrightarrow> page_step p p'"
| set_next_page_step: "set_next_page p nxt = Ok p' \<Longrightarrow> page_step p p'"

definition page_start :: "page \<Rightarrow> bool" where
  "page_start p \<longleftrightarrow> (\<exists>n \<le> 8160. p = init_with_special n)"

definition no_redirect :: "page \<Rightarrow> bool" where
  "no_redirect p \<longleftrightarrow> (\<forall>s f bs. tuples p s = Some (f, bs) \<longrightarrow> f \<noteq> Redirect)"

lemma compact_Ok_imp:
  assumes ok: "page_ok page" and c: "compact page dead = Ok page'"
  shows "kill_list_ok page dead"
proof -
  have "check_kill_list page None dead = Ok ()"
    using c by (auto simp: compact_def checked_header_ok [OF page_okD(1) [OF ok]] Let_def)
  then show ?thesis by (simp add: check_kill_list_iff [OF page_okD(1) [OF ok]])
qed

lemma compact_iff:
  assumes ok: "page_ok page"
  shows "(\<exists>page'. compact page dead = Ok page') \<longleftrightarrow> kill_list_ok page dead"
  using compact_correct [OF ok] compact_Ok_imp [OF ok] by blast

lemma compact_no_panic:
  assumes ok: "page_ok page"
  shows "compact page dead \<noteq> Panic"
proof (cases "kill_list_ok page dead")
  case True
  then show ?thesis using compact_correct [OF ok] by fastforce
next
  case False
  note g = page_okD(1) [OF ok]
  have "check_kill_list page prev dead \<noteq> Panic" for prev
    by (induction dead arbitrary: prev) (auto simp: line_pointer_ok [OF g] split: option.splits)
  then obtain e where "check_kill_list page None dead = Err e"
    using False check_kill_list_iff [OF g, of None dead] by (cases "check_kill_list page None dead") auto
  then show ?thesis by (simp add: compact_def checked_header_ok [OF g] Let_def)
qed

lemma compact_Ok_correct:
  assumes ok: "page_ok page" and c: "compact page dead = Ok page'"
  shows "page_ok page'" and "tuples page' = tuples page |` (- unat ` set dead)" and "slot_count page' = slot_count page"
    and "upper_of page' = special_of page - kept_len page dead" and "special_of page' = special_of page"
  using compact_correct [OF ok compact_Ok_imp [OF ok c]] c by auto

text \<open>Compaction leaves the special space alone.\<close>

lemma compact_next_page:
  assumes ok: "page_ok page" and c: "compact page dead = Ok page'"
  shows "next_page page' = next_page page"
proof -
  note g = page_okD(1) [OF ok] and geo = geometry_bounds [OF page_okD(1) [OF ok]]
  obtain p1 p2 where p: "page' = set_pd_upper p2 (of_nat (special_of page - kept_len page dead))" "geometry_ok p2"
    "page_header p2 = page_header page"
    "\<And>b c. lower_of page \<le> b \<Longrightarrow> c \<le> 8192 \<Longrightarrow> slice_of p2 b c = slice_of p1 b c"
    "\<And>b c. special_of page \<le> b \<Longrightarrow> c \<le> 8192 \<Longrightarrow> slice_of p1 b c = slice_of page b c"
    using compact_result [OF ok compact_Ok_imp [OF ok c]] c by auto
  have len: "PAGE_HEADER_SIZE \<le> length p2" "length p2 = 8192"
    using geometry_bounds(1) [OF p(2)] by (simp_all add: PAGE_HEADER_SIZE_def)
  have sl: "slice_of page' b c = slice_of page b c" if "special_of page \<le> b" "c \<le> 8192" for b c
    using that geo p(4,5) [of b c] len unfolding p(1) by (subst set_pd_simps(8)) (auto simp: PAGE_HEADER_SIZE_def)
  have ch: "checked_header page' = Ok (page_header page')"
    using compact_Ok_correct(1) [OF ok c] by (simp add: page_okD(1) checked_header_ok)
  have sp: "special_of page' = special_of page" by (rule compact_Ok_correct(5) [OF ok c])
  show ?thesis using sl [of "special_of page" "special_of page + 8"]
    by (auto simp: next_page_def ch checked_header_ok [OF g] sp PAGE_SIZE_def HEAP_SPECIAL_SIZE_def Let_def)
qed

lemma add_tuple_at_correct:
  assumes ok: "page_ok page" and a: "add_tuple_at page slot bytes = Ok page'"
  shows "page_ok page'" and "tuples page' = (tuples page)(unat slot \<mapsto> (Normal, bytes))"
    and "slot_count page' = max (slot_count page) (unat slot + 1)" and "\<not> used page (unat slot)"
proof -
  have g: "add_guard page slot bytes" and w: "page' = add_write page slot bytes"
    using a by (auto simp: add_tuple_at_Ok_iff [OF page_okD(1) [OF ok]])
  show "page_ok page'" "tuples page' = (tuples page)(unat slot \<mapsto> (Normal, bytes))"
    unfolding w by (rule add_write_correct [OF ok g])+
  show "slot_count page' = max (slot_count page) (unat slot + 1)"
    unfolding w by (rule add_write_effect(2) [OF page_okD(1) [OF ok] g])
  show "\<not> used page (unat slot)" using g by (simp add: add_guard_def)
qed

definition page_inv :: "page \<Rightarrow> bool" where
  "page_inv p \<longleftrightarrow> page_ok p \<and> no_redirect p"

lemma page_inv_step: "page_step p q \<Longrightarrow> page_inv p \<Longrightarrow> page_inv q"
proof (induction rule: page_step.induct)
  case (add_tuple_at_step p slot bytes p')
  then show ?case
    using add_tuple_at_correct [of p slot bytes p'] by (auto simp: page_inv_def no_redirect_def)
next
  case (delete_tuple_step p slot p')
  then show ?case using delete_tuple_correct [of p slot p'] by (auto simp: page_inv_def no_redirect_def)
next
  case (compact_step p dead p')
  then show ?case
    using compact_Ok_correct [of p dead p'] by (auto simp: page_inv_def no_redirect_def restrict_map_def)
next
  case (set_next_page_step p nxt p')
  then show ?case using set_next_page_correct [of p nxt p'] by (auto simp: page_inv_def no_redirect_def)
qed

interpretation pg: step_invariant page_start page_step page_inv
proof
  show "page_inv p" if "page_start p" for p
    using that by (auto simp: page_start_def page_inv_def no_redirect_def init_with_special_ok)
qed (rule page_inv_step)

lemma no_redirectD:
  assumes "no_redirect p" and "used p s"
  shows "lp_flags (lp_at p s) \<noteq> Redirect"
proof -
  have "tuples p s = Some (lp_flags (lp_at p s), slice_of p (region_lo p s) (region_hi p s))"
    using assms(2) by (simp add: tuples_def)
  then show ?thesis using assms(1) unfolding no_redirect_def by blast
qed

lemma page_inv_lookup:
  "page_inv p \<Longrightarrow> tuple_at p slot = Ok (case tuples p (unat slot) of Some (Normal, bytes) \<Rightarrow> Some bytes | _ \<Rightarrow> None)"
  by (rule tuple_at_correct) (simp_all add: page_inv_def no_redirectD)

section \<open>The contract of a tuple store\<close>

text \<open>
  What the heap access method relies on: inserting, deleting and looking up are the operations
  of a finite map from slots to tuples.
\<close>

locale tuple_store =
  fixes ok :: "'p \<Rightarrow> bool" and slots :: "'p \<Rightarrow> nat \<Rightarrow> (LpFlags \<times> u8 list) option"
    and add :: "'p \<Rightarrow> u16 \<Rightarrow> u8 list \<Rightarrow> 'p heap_result" and del :: "'p \<Rightarrow> u16 \<Rightarrow> 'p heap_result"
    and look :: "'p \<Rightarrow> u16 \<Rightarrow> u8 list option heap_result"
  assumes add_law: "ok p \<Longrightarrow> add p s bs = Ok p' \<Longrightarrow> ok p' \<and> slots p' = (slots p)(unat s \<mapsto> (Normal, bs))"
    and del_law: "ok p \<Longrightarrow> del p s = Ok p' \<Longrightarrow> ok p' \<and> slots p' = (slots p)(unat s := None)"
    and look_law: "ok p \<Longrightarrow>
      look p s = Ok (case slots p (unat s) of Some (Normal, bs) \<Rightarrow> Some bs | _ \<Rightarrow> None)"
begin

lemma look_add:
  "ok p \<Longrightarrow> add p s bs = Ok p' \<Longrightarrow> look p' t = (if t = s then Ok (Some bs) else look p t)"
  using add_law [of p s bs p'] by (auto simp: look_law simp flip: word_unat_eq_iff)

lemma look_del:
  "ok p \<Longrightarrow> del p s = Ok p' \<Longrightarrow> look p' t = (if t = s then Ok None else look p t)"
  using del_law [of p s p'] by (auto simp: look_law simp flip: word_unat_eq_iff)

text \<open>A tuple survives any later change of other slots.\<close>

lemma look_add_del:
  "ok p \<Longrightarrow> add p s bs = Ok p' \<Longrightarrow> del p' t = Ok p'' \<Longrightarrow> t \<noteq> s \<Longrightarrow> look p'' s = Ok (Some bs)"
  using add_law [of p s bs p'] look_del [of p' t p'' s] look_add [of p s bs p' s] by simp

end

interpretation slotted: tuple_store page_inv tuples add_tuple_at delete_tuple tuple_at
proof
  fix p p' :: page and s bs
  assume i: "page_inv p"
  show "page_inv p' \<and> tuples p' = (tuples p)(unat s \<mapsto> (Normal, bs))" if "add_tuple_at p s bs = Ok p'"
    using page_inv_step [OF page_step.intros(1) [OF that] i] add_tuple_at_correct(2) [OF _ that] i
    by (simp add: page_inv_def)
  show "page_inv p' \<and> tuples p' = (tuples p)(unat s := None)" if "delete_tuple p s = Ok p'"
    using page_inv_step [OF page_step.intros(2) [OF that] i] delete_tuple_correct [OF _ that] i
    by (simp add: page_inv_def)
  show "tuple_at p s = Ok (case tuples p (unat s) of Some (Normal, bs) \<Rightarrow> Some bs | _ \<Rightarrow> None)"
    using i by (rule page_inv_lookup)
qed

section \<open>The debug assertions\<close>

lemma disjoint_sorted:
  assumes "sorted rs" and "distinct rs" and "\<And>r. r \<in> set rs \<Longrightarrow> fst r < snd (r :: nat \<times> nat)"
    and "\<And>r q. r \<in> set rs \<Longrightarrow> q \<in> set rs \<Longrightarrow> r \<noteq> q \<Longrightarrow> snd r \<le> fst q \<or> snd q \<le> fst r"
  shows "successively (\<lambda>a b. snd a \<le> fst b) rs"
proof (rule successively_if_sorted_wrt)
  have "sorted_wrt (<) rs" using assms(1,2) by (simp add: strict_sorted_iff)
  then show "sorted_wrt (\<lambda>a b. snd a \<le> fst b) rs"
  proof (rule sorted_wrt_mono_rel [rotated])
    fix a b assume ab: "a \<in> set rs" "b \<in> set rs" "a < b"
    then have "fst a \<le> fst b" by (auto simp: less_prod_def')
    then show "snd a \<le> fst b" using assms(3) [OF ab(1)] assms(3) [OF ab(2)] assms(4) [OF ab(1,2)] ab(3) by fastforce
  qed
qed

lemma page_ok_asserts:
  assumes ok: "page_ok page"
  shows "debug_assert_invariants page"
proof -
  let ?slots = "filter (\<lambda>s. lp_flags (lp_at page s) \<noteq> Unused) [0..<slot_count page]"
  let ?r = "\<lambda>s. (region_lo page s, region_hi page s)"
  have us: "s \<in> set ?slots \<longleftrightarrow> used page s" for s by (auto simp: used_def)
  have inj: "inj_on ?r (set ?slots)"
  proof (rule inj_onI, rule ccontr)
    fix s t assume st: "s \<in> set ?slots" "t \<in> set ?slots" "?r s = ?r t" "s \<noteq> t"
    then show False
      using page_okD(5) [OF ok, of s t] page_okD(3) [OF ok, of s] page_okD(3) [OF ok, of t] us by simp
  qed
  have "successively (\<lambda>a b. snd a \<le> fst b) (sort (map ?r ?slots))"
  proof (rule disjoint_sorted)
    show "distinct (sort (map ?r ?slots))" using inj by (simp add: distinct_map)
    fix r assume "r \<in> set (sort (map ?r ?slots))"
    then obtain s where s: "used page s" "r = ?r s" using us by auto
    then show "fst r < snd r" using page_okD(3) [OF ok s(1)] by simp
    fix q assume "q \<in> set (sort (map ?r ?slots))" "r \<noteq> q"
    then obtain t where "used page t" "q = ?r t" "s \<noteq> t" using us s by auto
    then show "snd r \<le> fst q \<or> snd q \<le> fst r" using page_okD(5) [OF ok s(1)] s by simp
  qed simp
  moreover have "list_all (\<lambda>(off, stop). upper_of page \<le> off \<and> stop \<le> special_of page) (map ?r ?slots)"
    using page_okD(2,4) [OF ok] us by (auto simp: list_all_iff)
  ultimately show ?thesis
    using page_okD(1) [OF ok] by (simp add: debug_assert_invariants_def geometry_ok_def Let_def)
qed

section \<open>First fit\<close>

lemma first_fit_unused:
  assumes g: "geometry_ok page"
  defines "slot \<equiv> (case first_fit_slot page of Some s \<Rightarrow> s | None \<Rightarrow> of_nat (slot_count page))"
  shows "unat slot \<le> slot_count page" and "\<not> used page (unat slot)"
proof -
  have "min (lower_of page) PAGE_SIZE = lower_of page" using geometry_bounds [OF g] by (simp add: PAGE_SIZE_def)
  then have ff: "first_fit_slot page =
      map_option of_nat (find (\<lambda>s. lp_flags (lp_at page s) = Unused) [0..<slot_count page])"
    by (simp add: first_fit_slot_def slot_count_def Let_def)
  have small: "slot_count page < 65536" using lower_slots [OF g] geometry_bounds [OF g] by linarith
  show "unat slot \<le> slot_count page" "\<not> used page (unat slot)"
    using small by (auto simp: slot_def ff used_def find_Some_iff split: option.splits)
qed

lemma add_tuple_succeeds:
  assumes ok: "page_ok page" and ne: "bytes \<noteq> []" and room: "length bytes + LINE_POINTER_SIZE \<le> free_space page"
  shows "\<exists>page' slot. add_tuple page bytes = Ok (page', slot) \<and> page_ok page' \<and> tuples page (unat slot) = None \<and>
    tuples page' = (tuples page)(unat slot \<mapsto> (Normal, bytes))"
proof -
  note g = page_okD(1) [OF ok]
  define slot where "slot = (case first_fit_slot page of Some s \<Rightarrow> s | None \<Rightarrow> of_nat (slot_count page))"
  note ff = first_fit_unused [OF g, folded slot_def]
  have guard: "add_guard page slot bytes" using ff ne room by (simp add: add_guard_def)
  then have "add_tuple_at page slot bytes = Ok (add_write page slot bytes)"
    using add_room(4) [OF g guard] by (simp add: add_tuple_at_Ok_iff [OF g])
  then have "add_tuple page bytes = Ok (add_write page slot bytes, slot)" by (simp add: add_tuple_def slot_def Let_def)
  then show ?thesis
    using add_write_correct [OF ok guard] ff(2) by (intro exI [of _ "add_write page slot bytes"] exI [of _ slot]) (simp add: tuples_def)
qed

section \<open>A concrete page\<close>

definition page_ex :: page where
  "page_ex = add_write (init_with_special HEAP_SPECIAL_SIZE) 0 [1, 2, 3]"

lemma page_ex_start: "page_start (init_with_special HEAP_SPECIAL_SIZE)"
  unfolding page_start_def by (rule exI [of _ HEAP_SPECIAL_SIZE]) (simp add: HEAP_SPECIAL_SIZE_def)

lemma page_ex_free: "free_space (init_with_special HEAP_SPECIAL_SIZE) = 8144"
  using init_with_special_effect [of HEAP_SPECIAL_SIZE] lower_slots [of "init_with_special HEAP_SPECIAL_SIZE"]
  by (simp add: free_space_def HEAP_SPECIAL_SIZE_def)

lemma page_ex_add: "add_tuple_at (init_with_special HEAP_SPECIAL_SIZE) 0 [1, 2, 3] = Ok page_ex"
  using init_with_special_effect [of HEAP_SPECIAL_SIZE] page_ex_free
  by (simp add: add_tuple_at_Ok_iff page_ex_def add_guard_def used_def LINE_POINTER_SIZE_def HEAP_SPECIAL_SIZE_def)

lemma page_ex_steps: "page_step\<^sup>*\<^sup>* (init_with_special HEAP_SPECIAL_SIZE) page_ex"
  by (rule r_into_rtranclp) (rule add_tuple_at_step [OF page_ex_add])

lemma page_ex_inv: "page_inv page_ex"
  by (rule pg.inv_reachable [OF page_ex_start page_ex_steps])

lemma page_ex_tuples: "tuples page_ex = [0 \<mapsto> (Normal, [1, 2, 3])]"
  using add_tuple_at_correct(2) [OF _ page_ex_add] init_with_special_ok [of HEAP_SPECIAL_SIZE]
  by (simp add: HEAP_SPECIAL_SIZE_def)

lemma page_ex_kill: "\<exists>q. compact page_ex [0] = Ok q"
proof -
  have "lp_flags (lp_at page_ex 0) = Normal \<and> 0 < slot_count page_ex"
    using page_ex_tuples by (metis fun_upd_same option.distinct(1) option.inject prod.inject tuples_def used_def)
  then have "kill_list_ok page_ex [0]" by (simp add: kill_list_ok_def)
  then show ?thesis using compact_iff page_ex_inv by (simp add: page_inv_def)
qed

section \<open>Properties\<close>

text \<open>
  C32. Insertion refines the update of a finite map.  On every page the operations can build, a
  successful \<^verbatim>\<open>add_tuple_at\<close> fills a slot that was free, changes no other slot, keeps the page
  well formed, and a lookup then returns the inserted bytes and, elsewhere, what it returned before.
\<close>

theorem add_tuple_at_refines:
  assumes "page_start p0" and "page_step\<^sup>*\<^sup>* p0 p" and add: "add_tuple_at p slot bytes = Ok p'"
  shows "page_ok p' \<and> tuples p (unat slot) = None \<and> tuples p' = (tuples p)(unat slot \<mapsto> (Normal, bytes)) \<and>
    tuple_at p' t = (if t = slot then Ok (Some bytes) else tuple_at p t)"
proof -
  have inv: "page_inv p" using assms(1,2) by (rule pg.inv_reachable)
  then have ok: "page_ok p" by (simp add: page_inv_def)
  show ?thesis
    using add_tuple_at_correct [OF ok add] slotted.look_add [OF inv add, of t] by (simp add: tuples_def)
qed

theorem add_tuple_at_refines_witness: "tuple_at page_ex 0 = Ok (Some [1, 2, 3])"
  using add_tuple_at_refines [OF page_ex_start rtranclp.rtrancl_refl page_ex_add, of 0] by simp

text \<open>
  C37. An insertion with room succeeds: \<^verbatim>\<open>add_tuple\<close> places any non-empty tuple that fits the free
  space together with a line pointer, in a slot that was free.
\<close>

theorem add_tuple_with_room_succeeds:
  assumes "page_start p0" and "page_step\<^sup>*\<^sup>* p0 p" and "bytes \<noteq> []"
    and "length bytes + LINE_POINTER_SIZE \<le> free_space p"
  shows "\<exists>p' slot. add_tuple p bytes = Ok (p', slot) \<and> page_ok p' \<and> tuples p (unat slot) = None \<and>
    tuples p' = (tuples p)(unat slot \<mapsto> (Normal, bytes))"
  using add_tuple_succeeds [OF _ assms(3,4)] pg.inv_reachable [OF assms(1,2)] by (simp add: page_inv_def)

theorem add_tuple_with_room_succeeds_witness:
  "\<exists>p' slot. add_tuple (init_with_special HEAP_SPECIAL_SIZE) [7] = Ok (p', slot)"
  using add_tuple_with_room_succeeds [OF page_ex_start rtranclp.rtrancl_refl, of "[7]"]
  by (auto simp: page_ex_free LINE_POINTER_SIZE_def)

text \<open>
  C33. Compaction refines the restriction of the map.  On every page the operations can build it never
  panics, succeeds exactly on a strictly ascending list of slots holding tuples, removes exactly
  those slots, keeps every other tuple's bytes and slot number, and turns every hole into free space.
\<close>

theorem compact_refines:
  assumes "page_start p0" and "page_step\<^sup>*\<^sup>* p0 p"
  shows "compact p dead \<noteq> Panic \<and> (\<exists>p'. compact p dead = Ok p') = kill_list_ok p dead \<and>
    (\<forall>p'. compact p dead = Ok p' \<longrightarrow> page_ok p' \<and> tuples p' = tuples p |` (- unat ` set dead) \<and>
      slot_count p' = slot_count p \<and> upper_of p' = special_of p - kept_len p dead)"
proof -
  have ok: "page_ok p" using pg.inv_reachable [OF assms] by (simp add: page_inv_def)
  show ?thesis using compact_iff [OF ok] compact_no_panic [OF ok] compact_Ok_correct [OF ok] by simp
qed

theorem compact_refines_witness: "\<exists>q. compact page_ex [0] = Ok q \<and> tuples q = Map.empty"
proof -
  obtain q where q: "compact page_ex [0] = Ok q" using page_ex_kill by blast
  have "tuples q = tuples page_ex |` (- {0})" using compact_refines [OF page_ex_start page_ex_steps, of "[0]"] q by simp
  then show ?thesis using q by (auto simp: page_ex_tuples restrict_map_def)
qed

text \<open>C36. The assertions of \<^verbatim>\<open>debug_assert_invariants\<close> hold on every page the operations can build.\<close>

theorem page_assertions_never_fire:
  assumes "page_start p0" and "page_step\<^sup>*\<^sup>* p0 p"
  shows "debug_assert_invariants p"
  using pg.inv_reachable [OF assms] by (simp add: page_inv_def page_ok_asserts)

theorem page_assertions_never_fire_witness: "debug_assert_invariants page_ex"
  by (rule page_assertions_never_fire [OF page_ex_start page_ex_steps])

text \<open>
  The chain pointer round trip: what \<^verbatim>\<open>set_next_page\<close> stores, \<^verbatim>\<open>next_page\<close> returns (a page id of
  0 reads as none), and the tuples of the page are untouched.
\<close>

theorem next_page_roundtrip:
  assumes "page_start p0" and "page_step\<^sup>*\<^sup>* p0 p" and "set_next_page p nxt = Ok p'"
  shows "next_page p' = Ok (if nxt = Some 0 then None else nxt) \<and> tuples p' = tuples p"
  using pg.inv_reachable [OF assms(1,2)] set_next_page_correct [OF _ assms(3)] by (simp add: page_inv_def)

theorem next_page_roundtrip_witness:
  "\<exists>q. set_next_page (init_with_special HEAP_SPECIAL_SIZE) (Some 42) = Ok q \<and> next_page q = Ok (Some 42)"
proof -
  let ?p = "init_with_special HEAP_SPECIAL_SIZE"
  have "\<exists>q. set_next_page ?p (Some 42) = Ok q"
    using init_with_special_effect [of HEAP_SPECIAL_SIZE]
    by (simp add: set_next_page_def checked_header_ok HEAP_SPECIAL_SIZE_def PAGE_SIZE_def Let_def)
  then show ?thesis using next_page_roundtrip [OF page_ex_start rtranclp.rtrancl_refl] by fastforce
qed

end
