(* ===== verification/Heap_Tuple.thy ===== *)
theory Heap_Tuple
  imports Slotted_Page
begin

unbundle bit_operations_syntax

text \<open>
  The tuple format of \<^verbatim>\<open>pg-am-heap/src/tuple.rs\<close> and the TOAST pointers of
  \<^verbatim>\<open>pg-am-heap/src/toast.rs\<close>: the 64-byte header, the null bitmap, fixed-width and varlena
  columns, and the trailing node id.  An \<^verbatim>\<open>f32\<close> is its bit pattern, a \<^verbatim>\<open>String\<close> its UTF-8 bytes
  and a UUID its sixteen bytes.  Decoding an encoded tuple returns it, and decoding arbitrary
  bytes never panics.
\<close>

section \<open>TOAST pointers\<close>

definition TOAST_POINTER_SIZE :: nat where "TOAST_POINTER_SIZE = 20"
definition VARLENA_EXTERNAL_FLAG :: u32 where "VARLENA_EXTERNAL_FLAG = 0x40000000"
definition VARLENA_TAG_MASK :: u32 where "VARLENA_TAG_MASK = 0xC0000000"
definition VARLENA_LEN_MASK :: u32 where "VARLENA_LEN_MASK = NOT VARLENA_TAG_MASK"

definition is_external :: "u32 \<Rightarrow> bool" where
  "is_external vl_len \<longleftrightarrow> vl_len AND VARLENA_TAG_MASK = VARLENA_EXTERNAL_FLAG"

record ToastPointer =
  va_rawsize :: u32
  va_extsize :: u32
  va_valueid :: u32
  va_toastrelid :: u32

definition toast_encode :: "ToastPointer \<Rightarrow> u8 list" where
  "toast_encode p =
     (let vl_len = of_nat TOAST_POINTER_SIZE OR VARLENA_EXTERNAL_FLAG :: u32
      in le_bytes 4 vl_len @ le_bytes 4 (va_rawsize p) @ le_bytes 4 (va_extsize p) @
         le_bytes 4 (va_valueid p) @ le_bytes 4 (va_toastrelid p))"

definition toast_decode :: "u8 list \<Rightarrow> ToastPointer heap_result" where
  "toast_decode bytes =
     (if length bytes \<noteq> TOAST_POINTER_SIZE then Err Corrupted
      else let vl_len = le_word (slice_of bytes 0 4) :: u32
           in if \<not> is_external vl_len then Err Corrupted
              else if unat (vl_len AND VARLENA_LEN_MASK) \<noteq> TOAST_POINTER_SIZE then Err Corrupted
              else Ok \<lparr>va_rawsize = le_word (slice_of bytes 4 8), va_extsize = le_word (slice_of bytes 8 12),
                       va_valueid = le_word (slice_of bytes 12 16), va_toastrelid = le_word (slice_of bytes 16 20)\<rparr>)"

section \<open>Header\<close>

definition TUPLE_HEADER_SIZE :: nat where "TUPLE_HEADER_SIZE = 64"
definition HEAP_HASNULL :: u16 where "HEAP_HASNULL = 0x0001"
definition HEAP_HASVARWIDTH :: u16 where "HEAP_HASVARWIDTH = 0x0002"
definition HEAP_HASEXTERNAL :: u16 where "HEAP_HASEXTERNAL = 0x0004"
definition HEAP_NATTS_MASK :: u16 where "HEAP_NATTS_MASK = 0x07FF"
definition HEAP_HAS_NODEID :: u16 where "HEAP_HAS_NODEID = 0x0800"
definition TUPLE_VERSION_MASK :: u16 where "TUPLE_VERSION_MASK = 0x000F"
definition TUPLE_VERSION_M2 :: u16 where "TUPLE_VERSION_M2 = 0"
definition MAX_NATTS :: nat where "MAX_NATTS = 2047"
definition MAX_VECTOR_DIM :: u32 where "MAX_VECTOR_DIM = 2000"

record TupleHeader =
  t_xmin :: TxnId
  t_xmax :: TxnId
  t_agent_id :: u64
  t_trace_id :: "u8 list"
  t_ctid :: Tid
  t_infomask :: u16
  t_infomask2 :: u16
  t_hoff :: u16
  t_flags :: u16
  t_cid :: u32

definition tuple_header_new ::
    "TxnId \<Rightarrow> TxnId \<Rightarrow> u64 \<Rightarrow> u8 list \<Rightarrow> Tid \<Rightarrow> u32 \<Rightarrow> TupleHeader" where
  "tuple_header_new xmin xmax agent_id trace_id ctid cid =
     \<lparr>t_xmin = xmin, t_xmax = xmax, t_agent_id = agent_id, t_trace_id = trace_id, t_ctid = ctid,
      t_infomask = 0, t_infomask2 = 0, t_hoff = 0, t_flags = 0, t_cid = cid\<rparr>"

definition natts :: "TupleHeader \<Rightarrow> nat" where
  "natts h = unat (t_infomask2 h AND HEAP_NATTS_MASK)"

definition tuple_header_write :: "TupleHeader \<Rightarrow> u8 list \<Rightarrow> u8 list" where
  "tuple_header_write h buf =
     (let b = write_at buf 0 (le_bytes 8 (t_xmin h));
          b = write_at b 8 (le_bytes 8 (t_xmax h));
          b = write_at b 16 (le_bytes 8 (t_agent_id h));
          b = write_at b 24 (t_trace_id h);
          b = write_at b 40 (le_bytes 8 (page_id (t_ctid h)));
          b = write_at b 48 (le_bytes 2 (slot_id (t_ctid h)));
          b = write_at b 50 (le_bytes 2 (0 :: u16));
          b = write_at b 52 (le_bytes 2 (t_infomask h));
          b = write_at b 54 (le_bytes 2 (t_infomask2 h));
          b = write_at b 56 (le_bytes 2 (t_hoff h));
          b = write_at b 58 (le_bytes 2 (t_flags h))
      in write_at b 60 (le_bytes 4 (t_cid h)))"

definition u16_at :: "u8 list \<Rightarrow> nat \<Rightarrow> u16" where
  "u16_at bytes off = le_word (slice_of bytes off (off + 2))"

definition tuple_header_read :: "u8 list \<Rightarrow> TupleHeader heap_result" where
  "tuple_header_read bytes =
     (if length bytes < TUPLE_HEADER_SIZE then Err Corrupted
      else if u16_at bytes 50 \<noteq> 0 then Err Corrupted
      else Ok \<lparr>t_xmin = le_word (slice_of bytes 0 8), t_xmax = le_word (slice_of bytes 8 16),
               t_agent_id = le_word (slice_of bytes 16 24), t_trace_id = slice_of bytes 24 40,
               t_ctid = \<lparr>page_id = le_word (slice_of bytes 40 48), slot_id = u16_at bytes 48\<rparr>,
               t_infomask = u16_at bytes 52, t_infomask2 = u16_at bytes 54,
               t_hoff = u16_at bytes 56, t_flags = u16_at bytes 58,
               t_cid = le_word (slice_of bytes 60 64)\<rparr>)"

section \<open>Columns and values\<close>

datatype ColumnType = CInt4 | CInt8 | CTimestamptz | CUuid | CText | CBytea | CVector u32

definition check_vector_dim :: "u32 \<Rightarrow> unit heap_result" where
  "check_vector_dim dim = (if \<not> (1 \<le> dim \<and> dim \<le> MAX_VECTOR_DIM) then Err InvalidArgument else Ok ())"

definition column_vector :: "u32 \<Rightarrow> ColumnType heap_result" where
  "column_vector dim = obind (check_vector_dim dim) (\<lambda>_. Ok (CVector dim))"

fun fixed_width :: "ColumnType \<Rightarrow> nat option" where
  "fixed_width CInt4 = Some 4"
| "fixed_width CInt8 = Some 8"
| "fixed_width CTimestamptz = Some 8"
| "fixed_width CUuid = Some 16"
| "fixed_width CText = None"
| "fixed_width CBytea = None"
| "fixed_width (CVector dim) = Some (unat dim * 4)"

datatype Datum =
    Int4 u32
  | Int8 u64
  | Timestamptz u64
  | Uuid "u8 list"
  | TextD "u8 list"
  | Bytea "u8 list"
  | VectorD "u32 list"
  | External ToastPointer

fun column_type :: "Datum \<Rightarrow> ColumnType" where
  "column_type (Int4 _) = CInt4"
| "column_type (Int8 _) = CInt8"
| "column_type (Timestamptz _) = CTimestamptz"
| "column_type (Uuid _) = CUuid"
| "column_type (TextD _) = CText"
| "column_type (Bytea _) = CBytea"
| "column_type (VectorD v) = CVector (of_nat (length v))"
| "column_type (External _) = CBytea"

text \<open>
  \<^verbatim>\<open>String::from_utf8\<close> accepts exactly the well-formed UTF-8 sequences.
\<close>

definition is_cont :: "u8 \<Rightarrow> bool" where
  "is_cont b \<longleftrightarrow> 0x80 \<le> b \<and> b \<le> 0xBF"

function utf8_valid :: "u8 list \<Rightarrow> bool" where
  "utf8_valid bs =
     (case bs of
        [] \<Rightarrow> True
      | b # r \<Rightarrow>
          if b \<le> 0x7F then utf8_valid r
          else if 0xC2 \<le> b \<and> b \<le> 0xDF then
            1 \<le> length r \<and> is_cont (r ! 0) \<and> utf8_valid (drop 1 r)
          else if 0xE0 \<le> b \<and> b \<le> 0xEF then
            2 \<le> length r \<and>
            (if b = 0xE0 then 0xA0 \<le> r ! 0 \<and> r ! 0 \<le> 0xBF
             else if b = 0xED then 0x80 \<le> r ! 0 \<and> r ! 0 \<le> 0x9F else is_cont (r ! 0)) \<and>
            is_cont (r ! 1) \<and> utf8_valid (drop 2 r)
          else if 0xF0 \<le> b \<and> b \<le> 0xF4 then
            3 \<le> length r \<and>
            (if b = 0xF0 then 0x90 \<le> r ! 0 \<and> r ! 0 \<le> 0xBF
             else if b = 0xF4 then 0x80 \<le> r ! 0 \<and> r ! 0 \<le> 0x8F else is_cont (r ! 0)) \<and>
            is_cont (r ! 1) \<and> is_cont (r ! 2) \<and> utf8_valid (drop 3 r)
          else False)"
  by pat_completeness auto
termination
  by (relation "measure length") auto

declare utf8_valid.simps [simp del]

section \<open>Encoding\<close>

definition div_ceil8 :: "nat \<Rightarrow> nat" where
  "div_ceil8 n = (n + 7) div 8"

definition next_multiple_of8 :: "nat \<Rightarrow> nat" where
  "next_multiple_of8 n = div_ceil8 n * 8"

fun datum_matches :: "ColumnType \<Rightarrow> Datum \<Rightarrow> bool" where
  "datum_matches col (External _) = (fixed_width col = None)"
| "datum_matches (CVector dim) (VectorD v) = (length v = unat dim)"
| "datum_matches col datum = (col = column_type datum)"

text \<open>The scan of the schema and values: has a null, has a varlena, has an external value.\<close>

fun scan_columns ::
    "bool \<times> bool \<times> bool \<Rightarrow> (ColumnType \<times> Datum option) list \<Rightarrow> (bool \<times> bool \<times> bool) heap_result" where
  "scan_columns acc [] = Ok acc"
| "scan_columns (n, v, e) ((col, val) # rest) =
     obind (case col of CVector dim \<Rightarrow> check_vector_dim dim | _ \<Rightarrow> Ok ()) (\<lambda>_.
       case val of
         None \<Rightarrow> scan_columns (True, v, e) rest
       | Some datum \<Rightarrow>
           if \<not> datum_matches col datum then Err InvalidArgument
           else scan_columns (n, v \<or> fixed_width col = None, e \<or> (case datum of External _ \<Rightarrow> True | _ \<Rightarrow> False)) rest)"

definition write_inline_varlena :: "u8 list \<Rightarrow> u8 list \<Rightarrow> u8 list heap_result" where
  "write_inline_varlena out payload =
     (if unat VARLENA_LEN_MASK < length payload + 4 then Err InvalidArgument
      else Ok (out @ le_bytes 4 (of_nat (length payload + 4) :: u32) @ payload))"

fun write_datum :: "u8 list \<Rightarrow> Datum \<Rightarrow> u8 list heap_result" where
  "write_datum out (Int4 v) = Ok (out @ le_bytes 4 v)"
| "write_datum out (Int8 v) = Ok (out @ le_bytes 8 v)"
| "write_datum out (Timestamptz v) = Ok (out @ le_bytes 8 v)"
| "write_datum out (Uuid b) = Ok (out @ b)"
| "write_datum out (TextD s) = write_inline_varlena out s"
| "write_datum out (Bytea b) = write_inline_varlena out b"
| "write_datum out (VectorD v) = Ok (out @ concat (map (le_bytes 4) v))"
| "write_datum out (External p) = Ok (out @ toast_encode p)"

fun write_values :: "u8 list \<Rightarrow> Datum option list \<Rightarrow> u8 list heap_result" where
  "write_values out [] = Ok out"
| "write_values out (None # vals) = write_values out vals"
| "write_values out (Some d # vals) = obind (write_datum out d) (\<lambda>out'. write_values out' vals)"

text \<open>Bit \<open>i\<close> of the bitmap is set when column \<open>i\<close> is null.\<close>

fun set_null_bits :: "nat \<Rightarrow> Datum option list \<Rightarrow> u8 list \<Rightarrow> u8 list" where
  "set_null_bits i [] out = out"
| "set_null_bits i (val # vals) out =
     set_null_bits (Suc i) vals
       (if val = None
        then out[TUPLE_HEADER_SIZE + i div 8 := out ! (TUPLE_HEADER_SIZE + i div 8) OR push_bit (i mod 8) 1]
        else out)"

definition encode_header :: "TupleHeader \<Rightarrow> nat \<Rightarrow> bool \<times> bool \<times> bool \<Rightarrow> bool \<Rightarrow> TupleHeader" where
  "encode_header h n flags has_nodeid =
     (let (has_null, has_varwidth, has_external) = flags;
          hoff = next_multiple_of8 (TUPLE_HEADER_SIZE + (if has_null then div_ceil8 n else 0));
          infomask = (t_infomask h AND NOT (HEAP_HASNULL OR HEAP_HASVARWIDTH OR HEAP_HASEXTERNAL))
            OR (if has_null then HEAP_HASNULL else 0) OR (if has_varwidth then HEAP_HASVARWIDTH else 0)
            OR (if has_external then HEAP_HASEXTERNAL else 0);
          infomask2 = (t_infomask2 h AND NOT HEAP_NATTS_MASK) OR of_nat n;
          infomask2 = (infomask2 AND NOT HEAP_HAS_NODEID) OR (if has_nodeid then HEAP_HAS_NODEID else 0)
      in h\<lparr>t_infomask := infomask, t_infomask2 := infomask2, t_hoff := of_nat hoff,
           t_flags := (t_flags h AND NOT TUPLE_VERSION_MASK) OR TUPLE_VERSION_M2\<rparr>)"

definition encode_tuple_impl ::
    "TupleHeader \<Rightarrow> ColumnType list \<Rightarrow> Datum option list \<Rightarrow> u32 option \<Rightarrow> u8 list heap_result" where
  "encode_tuple_impl header columns values node_id =
     (if length columns \<noteq> length values then Err InvalidArgument
      else if MAX_NATTS < length columns then Err InvalidArgument
      else obind (scan_columns (False, False, False) (zip columns values)) (\<lambda>flags.
        let n = length columns;
            has_null = fst flags;
            hoff = next_multiple_of8 (TUPLE_HEADER_SIZE + (if has_null then div_ceil8 n else 0));
            header = encode_header header n flags (node_id \<noteq> None);
            out = tuple_header_write header (replicate TUPLE_HEADER_SIZE 0);
            out = out @ replicate (hoff - TUPLE_HEADER_SIZE) 0;
            out = (if has_null then set_null_bits 0 values out else out)
        in obind (write_values out values) (\<lambda>out.
             Ok (case node_id of None \<Rightarrow> out | Some nid \<Rightarrow> out @ le_bytes 4 nid))))"

definition encode_tuple :: "TupleHeader \<Rightarrow> ColumnType list \<Rightarrow> Datum option list \<Rightarrow> u8 list heap_result" where
  "encode_tuple header columns values = encode_tuple_impl header columns values None"

definition encode_tuple_with_node_id ::
    "TupleHeader \<Rightarrow> ColumnType list \<Rightarrow> Datum option list \<Rightarrow> u32 \<Rightarrow> u8 list heap_result" where
  "encode_tuple_with_node_id header columns values node_id =
     encode_tuple_impl header columns values (Some node_id)"

section \<open>Decoding\<close>

text \<open>\<^verbatim>\<open>take\<close>: the bytes and the advanced position.\<close>

definition take_bytes :: "u8 list \<Rightarrow> nat \<Rightarrow> nat \<Rightarrow> (u8 list \<times> nat) heap_result" where
  "take_bytes bytes pos n =
     (if length bytes < pos + n then Err Corrupted else Ok (slice_of bytes pos (pos + n), pos + n))"

fun chunks4 :: "u8 list \<Rightarrow> u32 list" where
  "chunks4 (a # b # c # d # rest) = le_word [a, b, c, d] # chunks4 rest"
| "chunks4 _ = []"

fun decode_fixed :: "ColumnType \<Rightarrow> u8 list \<Rightarrow> Datum heap_result" where
  "decode_fixed CInt4 field = Ok (Int4 (le_word field))"
| "decode_fixed CInt8 field = Ok (Int8 (le_word field))"
| "decode_fixed CTimestamptz field = Ok (Timestamptz (le_word field))"
| "decode_fixed CUuid field = Ok (Uuid field)"
| "decode_fixed (CVector dim) field = Ok (VectorD (chunks4 field))"
| "decode_fixed CText field = Panic"
| "decode_fixed CBytea field = Panic"

fun decode_inline :: "ColumnType \<Rightarrow> u8 list \<Rightarrow> Datum heap_result" where
  "decode_inline CText payload = (if utf8_valid payload then Ok (TextD payload) else Err Corrupted)"
| "decode_inline CBytea payload = Ok (Bytea payload)"
| "decode_inline _ payload = Panic"

definition decode_varlena :: "ColumnType \<Rightarrow> u8 list \<Rightarrow> nat \<Rightarrow> (Datum \<times> nat) heap_result" where
  "decode_varlena col bytes pos =
     obind (take_bytes bytes pos 4) (\<lambda>(raw, pos).
       let vl_len = le_word raw :: u32
       in if is_external vl_len then
            obind (take_bytes bytes (pos - 4) TOAST_POINTER_SIZE) (\<lambda>(raw, pos).
              obind (toast_decode raw) (\<lambda>ptr. Ok (External ptr, pos)))
          else
            let total = unat (vl_len AND VARLENA_LEN_MASK)
            in if total < 4 then Err Corrupted
               else obind (take_bytes bytes pos (total - 4)) (\<lambda>(payload, pos).
                      obind (decode_inline col payload) (\<lambda>d. Ok (d, pos))))"

definition decode_column :: "ColumnType \<Rightarrow> u8 list \<Rightarrow> nat \<Rightarrow> (Datum \<times> nat) heap_result" where
  "decode_column col bytes pos =
     (case fixed_width col of
        Some width \<Rightarrow>
          obind (take_bytes bytes pos width) (\<lambda>(field, pos).
            obind (decode_fixed col field) (\<lambda>d. Ok (d, pos)))
      | None \<Rightarrow> decode_varlena col bytes pos)"

text \<open>Reading the bitmap past the end of the tuple is an index panic.\<close>

fun decode_columns ::
    "bool \<Rightarrow> u8 list \<Rightarrow> nat \<Rightarrow> nat \<Rightarrow> ColumnType list \<Rightarrow> (Datum option list \<times> nat) heap_result" where
  "decode_columns has_null bytes i pos [] = Ok ([], pos)"
| "decode_columns has_null bytes i pos (col # cols) =
     (if has_null \<and> length bytes \<le> TUPLE_HEADER_SIZE + i div 8 then Panic
      else if has_null \<and> bytes ! (TUPLE_HEADER_SIZE + i div 8) AND push_bit (i mod 8) 1 \<noteq> 0 then
        obind (decode_columns has_null bytes (Suc i) pos cols) (\<lambda>(vals, pos). Ok (None # vals, pos))
      else
        obind (decode_column col bytes pos) (\<lambda>(d, pos).
          obind (decode_columns has_null bytes (Suc i) pos cols) (\<lambda>(vals, pos). Ok (Some d # vals, pos))))"

fun bad_dim :: "ColumnType \<Rightarrow> bool" where
  "bad_dim (CVector dim) = (check_vector_dim dim \<noteq> Ok ())"
| "bad_dim _ = False"

definition decode_tuple :: "u8 list \<Rightarrow> ColumnType list \<Rightarrow> (TupleHeader \<times> Datum option list) heap_result" where
  "decode_tuple bytes columns =
     obind (tuple_header_read bytes) (\<lambda>header.
       if natts header \<noteq> length columns then Err Corrupted
       else if list_ex bad_dim columns then Err Corrupted
       else let hoff = unat (t_hoff header) in
       if hoff < TUPLE_HEADER_SIZE \<or> length bytes < hoff \<or> hoff mod 8 \<noteq> 0 then Err Corrupted
       else let has_null = (t_infomask header AND HEAP_HASNULL \<noteq> 0);
                bitmap_len = (if has_null then div_ceil8 (length columns) else 0)
       in if has_null \<and> hoff < TUPLE_HEADER_SIZE + bitmap_len then Err Corrupted
       else obind (decode_columns has_null bytes 0 hoff columns) (\<lambda>(values, pos).
         if length bytes < pos then Panic
         else let trailing = length bytes - pos
         in if t_infomask2 header AND HEAP_HAS_NODEID \<noteq> 0
            then (if trailing \<noteq> 4 then Err Corrupted else Ok (header, values))
            else if trailing \<noteq> 0 then Err Corrupted else Ok (header, values)))"

definition tuple_node_id :: "u8 list \<Rightarrow> ColumnType list \<Rightarrow> u32 option heap_result" where
  "tuple_node_id bytes columns =
     obind (decode_tuple bytes columns) (\<lambda>(header, _).
       if t_infomask2 header AND HEAP_HAS_NODEID = 0 then Ok None
       else let n = length bytes in
            if n < 4 then Panic else Ok (Some (le_word (slice_of bytes (n - 4) n))))"

section \<open>TOAST and header round trips\<close>

lemma slice_of_prefix: "b \<le> length xs \<Longrightarrow> slice_of (xs @ ys) a b = slice_of xs a b"
  by (simp add: slice_of_def)

lemma slice_of_at: "a = length xs \<Longrightarrow> b = a + length ys \<Longrightarrow> slice_of (xs @ ys @ zs) a b = ys"
  by (simp add: slice_of_def)

lemma length_toast_encode [simp]: "length (toast_encode p) = 20"
  by (simp add: toast_encode_def Let_def)

lemma toast_tag: "is_external (of_nat TOAST_POINTER_SIZE OR VARLENA_EXTERNAL_FLAG)"
  "unat ((of_nat TOAST_POINTER_SIZE OR VARLENA_EXTERNAL_FLAG) AND VARLENA_LEN_MASK) = TOAST_POINTER_SIZE"
  by (simp_all add: is_external_def TOAST_POINTER_SIZE_def VARLENA_EXTERNAL_FLAG_def VARLENA_TAG_MASK_def VARLENA_LEN_MASK_def)

lemma toast_head: "slice_of (toast_encode p) 0 4 = le_bytes 4 (of_nat TOAST_POINTER_SIZE OR VARLENA_EXTERNAL_FLAG :: u32)"
  by (simp add: toast_encode_def Let_def slice_of_def)

lemma toast_decode_encode: "toast_decode (toast_encode p) = Ok p"
proof -
  have "slice_of (toast_encode p) 4 8 = le_bytes 4 (va_rawsize p)" "slice_of (toast_encode p) 8 12 = le_bytes 4 (va_extsize p)"
    "slice_of (toast_encode p) 12 16 = le_bytes 4 (va_valueid p)" "slice_of (toast_encode p) 16 20 = le_bytes 4 (va_toastrelid p)"
    by (simp_all add: toast_encode_def Let_def slice_of_def)
  then show ?thesis
    using toast_tag by (simp add: toast_decode_def toast_head Let_def TOAST_POINTER_SIZE_def)
qed

definition tuple_header_bytes :: "TupleHeader \<Rightarrow> u8 list" where
  "tuple_header_bytes h = le_bytes 8 (t_xmin h) @ le_bytes 8 (t_xmax h) @ le_bytes 8 (t_agent_id h) @ t_trace_id h @
     le_bytes 8 (page_id (t_ctid h)) @ le_bytes 2 (slot_id (t_ctid h)) @ le_bytes 2 (0 :: u16) @
     le_bytes 2 (t_infomask h) @ le_bytes 2 (t_infomask2 h) @ le_bytes 2 (t_hoff h) @ le_bytes 2 (t_flags h) @
     le_bytes 4 (t_cid h)"

lemma length_tuple_header_bytes: "length (t_trace_id h) = 16 \<Longrightarrow> length (tuple_header_bytes h) = 64"
  by (simp add: tuple_header_bytes_def)

lemma tuple_header_write_eq:
  assumes "length (t_trace_id h) = 16"
  shows "tuple_header_write h buf = tuple_header_bytes h @ drop 64 buf"
proof -
  have "tuple_header_write h buf = tuple_header_write h ([] @ buf)" by simp
  also have "\<dots> = tuple_header_bytes h @ drop 64 buf"
    unfolding tuple_header_write_def Let_def
    by (subst write_at_append, simp add: assms)+ (simp add: tuple_header_bytes_def assms)
  finally show ?thesis .
qed

lemma tuple_header_read_bytes:
  assumes "length (t_trace_id h) = 16"
  shows "tuple_header_read (tuple_header_bytes h @ rest) = Ok h"
proof -
  note len = length_tuple_header_bytes [OF assms]
  have "slice_of (tuple_header_bytes h @ rest) a b = slice_of (tuple_header_bytes h) a b" if "b \<le> 64" for a b
    using that len by (simp add: slice_of_prefix)
  then show ?thesis
    using len by (simp add: tuple_header_read_def TUPLE_HEADER_SIZE_def u16_at_def)
      (simp add: tuple_header_bytes_def slice_of_def assms)
qed

section \<open>Column round trip\<close>

fun datum_bytes :: "Datum \<Rightarrow> u8 list" where
  "datum_bytes (Int4 v) = le_bytes 4 v"
| "datum_bytes (Int8 v) = le_bytes 8 v"
| "datum_bytes (Timestamptz v) = le_bytes 8 v"
| "datum_bytes (Uuid b) = b"
| "datum_bytes (TextD s) = le_bytes 4 (of_nat (length s + 4) :: u32) @ s"
| "datum_bytes (Bytea b) = le_bytes 4 (of_nat (length b + 4) :: u32) @ b"
| "datum_bytes (VectorD v) = concat (map (le_bytes 4) v)"
| "datum_bytes (External p) = toast_encode p"

fun payload_fits :: "Datum \<Rightarrow> bool" where
  "payload_fits (TextD s) = (length s + 4 \<le> unat VARLENA_LEN_MASK)"
| "payload_fits (Bytea b) = (length b + 4 \<le> unat VARLENA_LEN_MASK)"
| "payload_fits _ = True"

text \<open>What the Rust types guarantee of a value: a string is UTF-8, a UUID has sixteen bytes.\<close>

fun datum_typed :: "Datum \<Rightarrow> bool" where
  "datum_typed (TextD s) = utf8_valid s"
| "datum_typed (Uuid b) = (length b = 16)"
| "datum_typed _ = True"

lemma write_datum_eq: "write_datum out d = (if payload_fits d then Ok (out @ datum_bytes d) else Err InvalidArgument)"
  by (cases d) (auto simp: write_inline_varlena_def)

lemma write_values_eq:
  "write_values out vals =
     (if \<forall>d. Some d \<in> set vals \<longrightarrow> payload_fits d
      then Ok (out @ concat (map datum_bytes (List.map_filter (\<lambda>v. v) vals))) else Err InvalidArgument)"
proof (induction out vals rule: write_values.induct)
  case (3 out d vals)
  then show ?case by (auto simp: write_datum_eq map_filter_simps)
qed (auto simp: map_filter_simps)

lemma chunks4_concat: "chunks4 (concat (map (le_bytes 4) v)) = v"
proof (induction v)
  case (Cons w v)
  have "le_bytes 4 w = [le_bytes 4 w ! 0, le_bytes 4 w ! 1, le_bytes 4 w ! 2, le_bytes 4 w ! 3]"
    by (simp add: le_bytes_def upt_rec)
  then show ?case
    using Cons le_word_u32 [of w] by (metis append.simps chunks4.simps(1) concat.simps(2) list.simps(9))
qed simp

lemma length_concat_le4 [simp]: "length (concat (map (le_bytes 4) v)) = length v * 4"
  by (induction v) auto

lemma take_bytes_at:
  assumes "pos = length pre" and "n = length xs"
  shows "take_bytes (pre @ xs @ post) pos n = Ok (xs, pos + n)"
  using assms by (simp add: take_bytes_def slice_of_at)

lemma varlena_len:
  assumes "n + 4 \<le> unat VARLENA_LEN_MASK"
  shows "\<not> is_external (of_nat (n + 4) :: u32)" and "unat ((of_nat (n + 4) :: u32) AND VARLENA_LEN_MASK) = n + 4"
proof -
  have m: "VARLENA_LEN_MASK = mask 30" by (simp add: VARLENA_LEN_MASK_def VARLENA_TAG_MASK_def mask_eq_exp_minus_1)
  have "unat VARLENA_LEN_MASK = 1073741823" by (simp add: VARLENA_LEN_MASK_def VARLENA_TAG_MASK_def)
  then have lt: "n + 4 < 2 ^ 30" using assms by simp
  let ?w = "of_nat (n + 4) :: u32"
  have u: "unat ?w = n + 4" using lt by (simp add: unsigned_of_nat take_bit_nat_eq_self del: of_nat_add)
  then have tb: "take_bit 30 ?w = ?w"
    using lt by (metis take_bit_nat_eq_self unsigned_take_bit_eq word_unat_eq_iff)
  then show "unat (?w AND VARLENA_LEN_MASK) = n + 4" using u by (simp add: m take_bit_eq_mask del: of_nat_add)
  have "?w AND VARLENA_TAG_MASK = 0"
  proof -
    have "VARLENA_TAG_MASK = NOT (mask 30)" by (simp add: VARLENA_TAG_MASK_def mask_eq_exp_minus_1)
    moreover have "take_bit 30 ?w AND NOT (mask 30) = 0"
      by (rule bit_word_eqI) (simp add: bit_simps)
    ultimately show ?thesis using tb by metis
  qed
  then show "\<not> is_external ?w" by (simp add: is_external_def VARLENA_EXTERNAL_FLAG_def)
qed

lemma decode_varlena_inline:
  assumes "length xs + 4 \<le> unat VARLENA_LEN_MASK" and "decode_inline col xs = Ok d"
  shows "decode_varlena col (pre @ (le_bytes 4 (of_nat (length xs + 4) :: u32) @ xs) @ post) (length pre) =
    Ok (d, length pre + (length xs + 4))"
proof -
  let ?h = "le_bytes 4 (of_nat (length xs + 4) :: u32)"
  have "take_bytes (pre @ (?h @ xs) @ post) (length pre) 4 = Ok (?h, length pre + 4)"
    using take_bytes_at [of "length pre" pre 4 ?h "xs @ post"] by simp
  moreover have "take_bytes (pre @ (?h @ xs) @ post) (length pre + 4) (length xs) = Ok (xs, length pre + 4 + length xs)"
    using take_bytes_at [of "length pre + 4" "pre @ ?h" "length xs" xs post] by simp
  ultimately show ?thesis
    using varlena_len [OF assms(1)] assms(2) by (simp add: decode_varlena_def Let_def del: of_nat_add)
qed

lemma decode_varlena_external:
  "decode_varlena col (pre @ toast_encode p @ post) (length pre) = Ok (External p, length pre + 20)"
proof -
  let ?v = "of_nat TOAST_POINTER_SIZE OR VARLENA_EXTERNAL_FLAG :: u32"
  obtain r where r: "toast_encode p = le_bytes 4 ?v @ r" by (simp add: toast_encode_def Let_def)
  have "take_bytes (pre @ toast_encode p @ post) (length pre) 4 = Ok (le_bytes 4 ?v, length pre + 4)"
    unfolding r using take_bytes_at [of "length pre" pre 4 "le_bytes 4 ?v" "r @ post"] by simp
  moreover have "take_bytes (pre @ toast_encode p @ post) (length pre) TOAST_POINTER_SIZE = Ok (toast_encode p, length pre + 20)"
    using take_bytes_at [of "length pre" pre 20 "toast_encode p" post] by (simp add: TOAST_POINTER_SIZE_def)
  ultimately show ?thesis
    using toast_tag(1) by (simp add: decode_varlena_def toast_decode_encode)
qed

lemma decode_column_bytes:
  assumes m: "datum_matches col d" and t: "datum_typed d" and f: "payload_fits d"
  shows "decode_column col (pre @ datum_bytes d @ post) (length pre) = Ok (d, length pre + length (datum_bytes d))"
proof (cases "fixed_width col")
  case None
  then consider "col = CText" | "col = CBytea" by (cases col) auto
  then show ?thesis
  proof cases
    case 1
    then show ?thesis
      using m t f decode_varlena_inline [of _ col d pre post] decode_varlena_external [of col pre _ post]
      by (cases d) (auto simp: decode_column_def simp del: of_nat_add)
  next
    case 2
    then show ?thesis
      using m t f decode_varlena_inline [of _ col d pre post] decode_varlena_external [of col pre _ post]
      by (cases d) (auto simp: decode_column_def simp del: of_nat_add)
  qed
next
  case (Some w)
  have w: "w = length (datum_bytes d)" using m t Some by (cases col; cases d) auto
  moreover have "decode_fixed col (datum_bytes d) = Ok d" using m Some by (cases col; cases d) (auto simp: chunks4_concat)
  ultimately show ?thesis
    using take_bytes_at [OF refl w, of pre post] Some by (simp add: decode_column_def)
qed

section \<open>The null bitmap\<close>

lemma length_set_null_bits [simp]: "length (set_null_bits i vals out) = length out"
  by (induction i vals out rule: set_null_bits.induct) auto

lemma take_set_null_bits [simp]: "take 64 (set_null_bits i vals out) = take 64 out"
  by (induction i vals out rule: set_null_bits.induct) (auto simp: TUPLE_HEADER_SIZE_def)

lemma bit_or_push: "b < 8 \<Longrightarrow> bit ((w :: u8) OR push_bit c 1) b \<longleftrightarrow> bit w b \<or> b = c"
  by (auto simp: bit_simps)

lemma bit_set_null_bits:
  assumes "64 + m div 8 < length out"
  shows "bit (set_null_bits i vals out ! (64 + m div 8)) (m mod 8) \<longleftrightarrow> bit (out ! (64 + m div 8)) (m mod 8) \<or>
    (i \<le> m \<and> m < i + length vals \<and> vals ! (m - i) = None)"
  using assms
proof (induction i vals out rule: set_null_bits.induct)
  case (2 i val vals out)
  let ?o = "if val = None
        then out[TUPLE_HEADER_SIZE + i div 8 := out ! (TUPLE_HEADER_SIZE + i div 8) OR push_bit (i mod 8) 1]
        else out"
  have eq: "m div 8 = i div 8 \<and> m mod 8 = i mod 8 \<longleftrightarrow> m = i" by (metis div_mult_mod_eq)
  have here: "bit (?o ! (64 + m div 8)) (m mod 8) \<longleftrightarrow> bit (out ! (64 + m div 8)) (m mod 8) \<or> (val = None \<and> m = i)"
  proof (cases "m div 8 = i div 8 \<and> val = None")
    case True
    then have "?o ! (64 + m div 8) = out ! (64 + m div 8) OR push_bit (i mod 8) 1"
      using 2(2) by (simp add: TUPLE_HEADER_SIZE_def)
    then show ?thesis
      using True eq bit_or_push [of "m mod 8" "out ! (64 + m div 8)" "i mod 8"] by simp
  next
    case False
    then have "?o ! (64 + m div 8) = out ! (64 + m div 8)" by (auto simp: TUPLE_HEADER_SIZE_def)
    then show ?thesis using False by auto
  qed
  have "64 + m div 8 < length ?o" using 2(2) by simp
  from 2(1) [OF this] have step: "bit (set_null_bits i (val # vals) out ! (64 + m div 8)) (m mod 8) \<longleftrightarrow>
      (bit (out ! (64 + m div 8)) (m mod 8) \<or> (val = None \<and> m = i)) \<or>
      (Suc i \<le> m \<and> m < Suc i + length vals \<and> vals ! (m - Suc i) = None)"
    unfolding set_null_bits.simps here .
  show ?case
  proof (cases "m = i")
    case True
    then show ?thesis unfolding step by simp
  next
    case False
    then have "(val # vals) ! (m - i) = vals ! (m - Suc i)" if "i \<le> m"
    proof -
      obtain j where "m = i + Suc j" using \<open>m \<noteq> i\<close> \<open>i \<le> m\<close> by (metis add_Suc_right le_neq_implies_less less_iff_Suc_add)
      then show ?thesis by simp
    qed
    then show ?thesis unfolding step using False by auto
  qed
qed auto

lemma and_push_bit: "(w :: u8) AND push_bit n 1 \<noteq> 0 \<longleftrightarrow> bit w n"
  by (simp add: push_bit_of_1 and_exp_eq_0_iff_not_bit)

lemma null_bit_test:
  assumes "m < length vals" and "64 + (length vals + 7) div 8 \<le> length out" and "\<forall>k. 64 \<le> k \<and> k < length out \<longrightarrow> out ! k = 0"
  shows "set_null_bits 0 vals out ! (64 + m div 8) AND push_bit (m mod 8) 1 \<noteq> 0 \<longleftrightarrow> vals ! m = None"
proof -
  have "m div 8 < (length vals + 7) div 8" using assms(1) by linarith
  then have k: "64 + m div 8 < length out" using assms(2) by linarith
  show ?thesis
    unfolding and_push_bit bit_set_null_bits [OF k] using assms k by simp
qed

section \<open>Tuple round trip\<close>

lemma scan_columns_Ok:
  assumes "scan_columns (n, v, e) cvs = Ok (n', v', e')"
  shows "n' \<longleftrightarrow> n \<or> None \<in> snd ` set cvs" and "\<forall>(c, val) \<in> set cvs. \<not> bad_dim c \<and> (\<forall>d. val = Some d \<longrightarrow> datum_matches c d)"
proof -
  have "(n' \<longleftrightarrow> n \<or> None \<in> snd ` set cvs) \<and>
    (\<forall>(c, val) \<in> set cvs. \<not> bad_dim c \<and> (\<forall>d. val = Some d \<longrightarrow> datum_matches c d))"
    using assms
  proof (induction cvs arbitrary: n v e)
    case (Cons p cvs)
    obtain col val where p: "p = (col, val)" by (cases p)
    have nb: "\<not> bad_dim col" using Cons.prems p by (cases col) auto
    show ?case
    proof (cases val)
      case None
      have "scan_columns (True, v, e) cvs = Ok (n', v', e')" using Cons.prems p None by auto
      from Cons.IH [OF this] show ?thesis using p nb None by auto
    next
      case (Some d)
      then have m: "datum_matches col d" using Cons.prems p by (auto split: if_splits)
      then have "scan_columns (n, v \<or> fixed_width col = None, e \<or> (case d of External _ \<Rightarrow> True | _ \<Rightarrow> False)) cvs = Ok (n', v', e')"
        using Cons.prems p Some by auto
      from Cons.IH [OF this] show ?thesis using p nb Some m by auto
    qed
  qed auto
  then show "n' \<longleftrightarrow> n \<or> None \<in> snd ` set cvs"
    "\<forall>(c, val) \<in> set cvs. \<not> bad_dim c \<and> (\<forall>d. val = Some d \<longrightarrow> datum_matches c d)" by blast+
qed

lemma and_u16_bit: "(w :: u16) AND 2 ^ n \<noteq> 0 \<longleftrightarrow> bit w n"
  by (simp add: and_exp_eq_0_iff_not_bit)

lemma bit_nodeid: "bit HEAP_HAS_NODEID k \<longleftrightarrow> k = 11"
proof -
  have e: "HEAP_HAS_NODEID = 2 ^ 11" by (simp add: HEAP_HAS_NODEID_def)
  have "bit (2 ^ n :: u16) k \<longleftrightarrow> k = n" if "n < 16" for n using that by (auto simp: bit_exp_iff)
  from this [of 11] show ?thesis unfolding e by simp
qed

lemma encode_header_fields:
  assumes "n \<le> MAX_NATTS"
  shows "natts (encode_header h n (hn, hv, he) hid) = n"
    and "t_infomask (encode_header h n (hn, hv, he) hid) AND HEAP_HASNULL \<noteq> 0 \<longleftrightarrow> hn"
    and "t_infomask2 (encode_header h n (hn, hv, he) hid) AND HEAP_HAS_NODEID \<noteq> 0 \<longleftrightarrow> hid"
    and "unat (t_hoff (encode_header h n (hn, hv, he) hid)) =
      next_multiple_of8 (TUPLE_HEADER_SIZE + (if hn then div_ceil8 n else 0))"
    and "t_trace_id (encode_header h n (hn, hv, he) hid) = t_trace_id h"
proof -
  have n: "n < 2048" using assms by (simp add: MAX_NATTS_def)
  have m11: "HEAP_NATTS_MASK = mask 11" by (simp add: HEAP_NATTS_MASK_def mask_eq_exp_minus_1)
  have nid: "w AND HEAP_HAS_NODEID \<noteq> 0 \<longleftrightarrow> bit w 11" for w
    using and_u16_bit [of w 11] by (simp add: HEAP_HAS_NODEID_def)
  have nb: "bit (of_nat n :: u16) k \<Longrightarrow> k < 11" for k
    using bit_small [of "of_nat n :: u16" 11 k] n by simp
  have "t_infomask2 (encode_header h n (hn, hv, he) hid) AND HEAP_NATTS_MASK = of_nat n"
    by (rule bit_word_eqI)
      (use nb in \<open>auto simp: encode_header_def Let_def m11 bit_nodeid bit_simps\<close>)
  then show "natts (encode_header h n (hn, hv, he) hid) = n" using n by (simp add: natts_def)
  have one: "HEAP_HASNULL = 2 ^ 0" by (simp add: HEAP_HASNULL_def)
  show "t_infomask (encode_header h n (hn, hv, he) hid) AND HEAP_HASNULL \<noteq> 0 \<longleftrightarrow> hn"
  proof -
    have "bit HEAP_HASNULL 0" "\<not> bit HEAP_HASVARWIDTH 0" "\<not> bit HEAP_HASEXTERNAL 0"
      by (simp_all add: HEAP_HASNULL_def HEAP_HASVARWIDTH_def HEAP_HASEXTERNAL_def bit_0)
    moreover have "t_infomask (encode_header h n (hn, hv, he) hid) AND HEAP_HASNULL \<noteq> 0 \<longleftrightarrow>
        bit (t_infomask (encode_header h n (hn, hv, he) hid)) 0"
      using and_u16_bit [of _ 0] unfolding one by blast
    ultimately show ?thesis by (simp add: encode_header_def Let_def bit_simps del: bit_0)
  qed
  show "t_infomask2 (encode_header h n (hn, hv, he) hid) AND HEAP_HAS_NODEID \<noteq> 0 \<longleftrightarrow> hid"
    unfolding nid by (auto simp: encode_header_def Let_def bit_nodeid bit_simps)
  have "next_multiple_of8 (TUPLE_HEADER_SIZE + (if hn then div_ceil8 n else 0)) < 65536"
  proof -
    have "(n + 7) div 8 \<le> 256" using n by linarith
    then have "(71 + (n + 7) div 8) div 8 \<le> 40" by linarith
    then show ?thesis by (simp add: next_multiple_of8_def div_ceil8_def TUPLE_HEADER_SIZE_def)
  qed
  then show "unat (t_hoff (encode_header h n (hn, hv, he) hid)) =
      next_multiple_of8 (TUPLE_HEADER_SIZE + (if hn then div_ceil8 n else 0))"
    by (simp add: encode_header_def Let_def del: of_nat_add of_nat_mult)
  show "t_trace_id (encode_header h n (hn, hv, he) hid) = t_trace_id h"
    by (simp add: encode_header_def Let_def)
qed

definition values_bytes :: "Datum option list \<Rightarrow> u8 list" where
  "values_bytes vals = concat (map datum_bytes (List.map_filter (\<lambda>v. v) vals))"

lemma values_bytes_simps [simp]:
  "values_bytes [] = []" "values_bytes (None # vals) = values_bytes vals"
  "values_bytes (Some d # vals) = datum_bytes d @ values_bytes vals"
  by (simp_all add: values_bytes_def map_filter_simps)

text \<open>The bitmap of \<open>bytes\<close> marks exactly the null values, from column \<open>i\<close> on.\<close>

definition bitmap_marks :: "bool \<Rightarrow> u8 list \<Rightarrow> nat \<Rightarrow> Datum option list \<Rightarrow> bool" where
  "bitmap_marks has_null bytes i vals \<longleftrightarrow>
     (\<forall>j < length vals. (has_null \<longrightarrow> TUPLE_HEADER_SIZE + (i + j) div 8 < length bytes) \<and>
        ((has_null \<and> bytes ! (TUPLE_HEADER_SIZE + (i + j) div 8) AND push_bit ((i + j) mod 8) 1 \<noteq> 0) = (vals ! j = None)))"

lemma bitmap_marks_Cons:
  "bitmap_marks has_null bytes i (val # vals) \<longleftrightarrow>
     (has_null \<longrightarrow> TUPLE_HEADER_SIZE + i div 8 < length bytes) \<and>
     ((has_null \<and> bytes ! (TUPLE_HEADER_SIZE + i div 8) AND push_bit (i mod 8) 1 \<noteq> 0) = (val = None)) \<and>
     bitmap_marks has_null bytes (Suc i) vals"
  unfolding bitmap_marks_def by (simp add: All_less_Suc2)

lemma decode_columns_bytes:
  assumes "length cols = length vals" and "bitmap_marks has_null (pre @ values_bytes vals @ post) i vals"
    and "\<forall>(c, v) \<in> set (zip cols vals). \<forall>d. v = Some d \<longrightarrow> datum_matches c d \<and> datum_typed d \<and> payload_fits d"
  shows "decode_columns has_null (pre @ values_bytes vals @ post) i (length pre) cols =
    Ok (vals, length pre + length (values_bytes vals))"
  using assms
proof (induction cols vals arbitrary: pre i rule: list_induct2)
  case (Cons col cols val vals)
  note marks = Cons.prems(1) [unfolded bitmap_marks_Cons]
  show ?case
  proof (cases val)
    case None
    then show ?thesis using Cons.IH [of pre "Suc i"] Cons.prems(2) marks by auto
  next
    case (Some d)
    have d: "decode_column col (pre @ datum_bytes d @ values_bytes vals @ post) (length pre) =
        Ok (d, length pre + length (datum_bytes d))"
      using Cons.prems(2) Some by (intro decode_column_bytes) auto
    have "decode_columns has_null ((pre @ datum_bytes d) @ values_bytes vals @ post) (Suc i) (length (pre @ datum_bytes d)) cols =
        Ok (vals, length (pre @ datum_bytes d) + length (values_bytes vals))"
      using Cons.IH [of "pre @ datum_bytes d" "Suc i"] Cons.prems(2) marks Some by auto
    then show ?thesis using d marks Some by auto
  qed
qed simp

text \<open>The three parts of an encoded tuple: header and bitmap, columns, node id.\<close>

definition tuple_front :: "TupleHeader \<Rightarrow> bool \<Rightarrow> Datum option list \<Rightarrow> u8 list" where
  "tuple_front h has_null vals =
     (let out = tuple_header_bytes h @ replicate (unat (t_hoff h) - 64) 0
      in if has_null then set_null_bits 0 vals out else out)"

definition tuple_tail :: "u32 option \<Rightarrow> u8 list" where
  "tuple_tail node_id = (case node_id of None \<Rightarrow> [] | Some nid \<Rightarrow> le_bytes 4 nid)"

lemma encode_tuple_impl_Ok:
  assumes e: "encode_tuple_impl header columns values node_id = Ok bytes" and tr: "length (t_trace_id header) = 16"
  obtains hn hv he where
    "bytes = tuple_front (encode_header header (length columns) (hn, hv, he) (node_id \<noteq> None)) hn values @
       values_bytes values @ tuple_tail node_id"
    and "length columns = length values" and "length columns \<le> MAX_NATTS" and "hn \<longleftrightarrow> None \<in> set values"
    and "\<forall>c \<in> set columns. \<not> bad_dim c"
    and "\<forall>(c, v) \<in> set (zip columns values). \<forall>d. v = Some d \<longrightarrow> datum_matches c d \<and> payload_fits d"
proof -
  have len: "length columns = length values" and mx: "length columns \<le> MAX_NATTS"
    using e by (auto simp: encode_tuple_impl_def split: if_splits)
  obtain hn hv he where sc: "scan_columns (False, False, False) (zip columns values) = Ok (hn, hv, he)"
    using e len mx by (auto simp: encode_tuple_impl_def Let_def)
  let ?h = "encode_header header (length columns) (hn, hv, he) (node_id \<noteq> None)"
  note hf = encode_header_fields [OF mx, of header hn hv he "node_id \<noteq> None"]
  have hw: "tuple_header_write ?h (replicate TUPLE_HEADER_SIZE 0) = tuple_header_bytes ?h"
    using tuple_header_write_eq [of ?h] hf(5) tr by (simp add: TUPLE_HEADER_SIZE_def)
  have front: "(let out = tuple_header_write ?h (replicate TUPLE_HEADER_SIZE 0) @
        replicate (next_multiple_of8 (TUPLE_HEADER_SIZE + (if hn then div_ceil8 (length columns) else 0)) - TUPLE_HEADER_SIZE) 0
      in if hn then set_null_bits 0 values out else out) = tuple_front ?h hn values"
    unfolding tuple_front_def hw hf(4) by (simp only: TUPLE_HEADER_SIZE_def)
  have w: "obind (write_values (tuple_front ?h hn values) values)
      (\<lambda>out. Ok (case node_id of None \<Rightarrow> out | Some nid \<Rightarrow> out @ le_bytes 4 nid)) = Ok bytes"
  proof -
    have 1: "\<not> length columns \<noteq> length values" and 2: "\<not> MAX_NATTS < length columns" using len mx by simp_all
    show ?thesis
      using e unfolding encode_tuple_impl_def if_not_P [OF 1] if_not_P [OF 2] sc obind.simps Let_def fst_conv
        front [unfolded Let_def] .
  qed
  then have fits: "\<forall>d. Some d \<in> set values \<longrightarrow> payload_fits d" by (auto simp: write_values_eq split: if_splits)
  have bytes: "bytes = tuple_front ?h hn values @ values_bytes values @ tuple_tail node_id"
    using w fits by (auto simp: write_values_eq values_bytes_def tuple_tail_def split: option.splits)
  have "snd ` set (zip columns values) = set values" using len by (metis map_snd_zip set_map)
  then have hn: "hn \<longleftrightarrow> None \<in> set values" using scan_columns_Ok(1) [OF sc] by simp
  have cols: "\<forall>c \<in> set columns. \<not> bad_dim c"
    using scan_columns_Ok(2) [OF sc] len by (metis (no_types, lifting) case_prodD in_set_impl_in_set_zip1)
  have "\<forall>(c, v) \<in> set (zip columns values). \<forall>d. v = Some d \<longrightarrow> datum_matches c d \<and> payload_fits d"
    using scan_columns_Ok(2) [OF sc] fits by (auto dest: set_zip_rightD)
  with bytes len mx hn cols show thesis by (rule that)
qed

lemma tuple_front_props:
  assumes "length (t_trace_id h) = 16" and "64 \<le> unat (t_hoff h)"
  shows "length (tuple_front h hn vals) = unat (t_hoff h)"
    and "tuple_header_read (tuple_front h hn vals @ rest) = Ok h"
proof -
  note len = length_tuple_header_bytes [OF assms(1)]
  show "length (tuple_front h hn vals) = unat (t_hoff h)" using assms len by (simp add: tuple_front_def Let_def)
  have "take 64 (tuple_front h hn vals) = tuple_header_bytes h" using len by (simp add: tuple_front_def Let_def)
  then have "tuple_front h hn vals = tuple_header_bytes h @ drop 64 (tuple_front h hn vals)" by (metis append_take_drop_id)
  then show "tuple_header_read (tuple_front h hn vals @ rest) = Ok h"
    using tuple_header_read_bytes [OF assms(1)] by (metis append.assoc)
qed

lemma tuple_front_marks:
  assumes tr: "length (t_trace_id h) = 16" and hoff: "64 + (if hn then (length vals + 7) div 8 else 0) \<le> unat (t_hoff h)"
    and hn: "hn \<longleftrightarrow> None \<in> set vals"
  shows "bitmap_marks hn (tuple_front h hn vals @ rest) 0 vals"
proof (cases hn)
  case False
  then show ?thesis using hn by (auto simp: bitmap_marks_def in_set_conv_nth)
next
  case True
  let ?out = "tuple_header_bytes h @ replicate (unat (t_hoff h) - 64) (0 :: u8)"
  note len = length_tuple_header_bytes [OF tr]
  have lo: "length ?out = unat (t_hoff h)" using len hoff by simp
  have f: "tuple_front h hn vals = set_null_bits 0 vals ?out" using True by (simp add: tuple_front_def)
  have "64 + j div 8 < unat (t_hoff h) \<and>
      ((set_null_bits 0 vals ?out @ rest) ! (64 + j div 8) AND push_bit (j mod 8) 1 \<noteq> 0) = (vals ! j = None)"
    if j: "j < length vals" for j
  proof -
    have "j div 8 < (length vals + 7) div 8" using j by linarith
    then have k: "64 + j div 8 < unat (t_hoff h)" using hoff True by simp
    have "\<forall>k. 64 \<le> k \<and> k < length ?out \<longrightarrow> ?out ! k = 0" using len by (auto simp: nth_append)
    then have "set_null_bits 0 vals ?out ! (64 + j div 8) AND push_bit (j mod 8) 1 \<noteq> 0 \<longleftrightarrow> vals ! j = None"
      using hoff True lo by (intro null_bit_test [OF j]) auto
    moreover have "(set_null_bits 0 vals ?out @ rest) ! (64 + j div 8) = set_null_bits 0 vals ?out ! (64 + j div 8)"
      using k lo by (simp only: nth_append length_set_null_bits if_True)
    ultimately show ?thesis using k by simp
  qed
  then show ?thesis
    using True lo unfolding bitmap_marks_def f TUPLE_HEADER_SIZE_def by (simp add: trans_less_add1)
qed

lemma decode_encode:
  assumes e: "encode_tuple_impl header columns values node_id = Ok bytes" and tr: "length (t_trace_id header) = 16"
    and ty: "\<forall>d. Some d \<in> set values \<longrightarrow> datum_typed d"
  obtains flags where
    "decode_tuple bytes columns = Ok (encode_header header (length columns) flags (node_id \<noteq> None), values)"
    and "tuple_node_id bytes columns = Ok node_id"
proof -
  from encode_tuple_impl_Ok [OF e tr] obtain hn hv he where
    b: "bytes = tuple_front (encode_header header (length columns) (hn, hv, he) (node_id \<noteq> None)) hn values @
       values_bytes values @ tuple_tail node_id"
    and len: "length columns = length values" and mx: "length columns \<le> MAX_NATTS" and hn: "hn \<longleftrightarrow> None \<in> set values"
    and nb: "\<forall>c \<in> set columns. \<not> bad_dim c"
    and md: "\<forall>(c, v) \<in> set (zip columns values). \<forall>d. v = Some d \<longrightarrow> datum_matches c d \<and> payload_fits d" .
  let ?h = "encode_header header (length columns) (hn, hv, he) (node_id \<noteq> None)"
  note hf = encode_header_fields [OF mx, of header hn hv he "node_id \<noteq> None"]
  have tr': "length (t_trace_id ?h) = 16" using hf(5) tr by simp
  have hoff: "64 + (if hn then (length values + 7) div 8 else 0) \<le> unat (t_hoff ?h)" "unat (t_hoff ?h) mod 8 = 0"
    unfolding hf(4) by (auto simp: next_multiple_of8_def div_ceil8_def TUPLE_HEADER_SIZE_def len)
  then have h64: "64 \<le> unat (t_hoff ?h)" by simp
  note fr = tuple_front_props [OF tr' h64]
  have rd: "tuple_header_read bytes = Ok ?h" unfolding b by (rule fr(2))
  have cols: "decode_columns hn bytes 0 (unat (t_hoff ?h)) columns =
      Ok (values, unat (t_hoff ?h) + length (values_bytes values))"
    unfolding b fr(1) [where hn = hn and vals = "values", symmetric]
  proof (rule decode_columns_bytes [OF len])
    show "bitmap_marks hn (tuple_front ?h hn values @ values_bytes values @ tuple_tail node_id) 0 values"
      by (rule tuple_front_marks [OF tr' hoff(1) hn])
    show "\<forall>(c, v) \<in> set (zip columns values). \<forall>d. v = Some d \<longrightarrow> datum_matches c d \<and> datum_typed d \<and> payload_fits d"
      using md ty by (fastforce dest: set_zip_rightD)
  qed
  have lb: "length bytes = unat (t_hoff ?h) + length (values_bytes values) + length (tuple_tail node_id)"
    unfolding b using fr(1) by simp
  have lt: "length (tuple_tail node_id) = (if node_id \<noteq> None then 4 else 0)" by (auto simp: tuple_tail_def split: option.splits)
  have ex: "\<not> list_ex bad_dim columns" using nb by (auto simp: list_ex_iff)
  have d: "decode_tuple bytes columns = Ok (?h, values)"
    unfolding decode_tuple_def rd obind.simps Let_def hf(2) cols
    using hf(1,3) hoff h64 lb lt ex len by (auto simp: TUPLE_HEADER_SIZE_def div_ceil8_def)
  moreover have "tuple_node_id bytes columns = Ok node_id"
  proof (cases node_id)
    case None
    then show ?thesis using hf(3) by (simp add: tuple_node_id_def d)
  next
    case (Some nid)
    have "slice_of bytes (length bytes - 4) (length bytes) = le_bytes 4 nid"
      unfolding b using Some by (simp add: tuple_tail_def slice_of_def)
    then show ?thesis using hf(3) Some lb lt by (simp add: tuple_node_id_def d Let_def)
  qed
  ultimately show thesis by (rule that)
qed

section \<open>Decoding arbitrary bytes\<close>

lemma take_bytes_Ok: "take_bytes bytes pos n = Ok (xs, pos') \<longleftrightarrow> pos' = pos + n \<and> pos' \<le> length bytes \<and> xs = slice_of bytes pos pos'"
  by (auto simp: take_bytes_def)

lemma take_bytes_no_panic [simp]: "take_bytes bytes pos n \<noteq> Panic"
  by (simp add: take_bytes_def)

lemma toast_decode_no_panic [simp]: "toast_decode bytes \<noteq> Panic"
  by (simp add: toast_decode_def Let_def)

lemma decode_column_no_panic: "decode_column col bytes pos \<noteq> Panic"
  by (cases col) (simp_all add: decode_column_def decode_varlena_def obind_eq_Panic Let_def split: prod.splits if_splits)

lemma decode_column_pos: "decode_column col bytes pos = Ok (d, pos') \<Longrightarrow> pos' \<le> length bytes"
  by (auto simp: decode_column_def decode_varlena_def Let_def take_bytes_Ok split: option.splits prod.splits if_splits)

lemma decode_columns_safe:
  assumes "has_null \<longrightarrow> TUPLE_HEADER_SIZE + (i + length cols + 7) div 8 \<le> length bytes" and "pos \<le> length bytes"
  shows "decode_columns has_null bytes i pos cols \<noteq> Panic \<and>
    (\<forall>vals pos'. decode_columns has_null bytes i pos cols = Ok (vals, pos') \<longrightarrow> pos' \<le> length bytes)"
  using assms
proof (induction cols arbitrary: i pos)
  case (Cons col cols)
  have "i div 8 < (i + length (col # cols) + 7) div 8" by simp
  then have ix: "has_null \<Longrightarrow> TUPLE_HEADER_SIZE + i div 8 < length bytes" using Cons.prems(1) by linarith
  have "has_null \<longrightarrow> TUPLE_HEADER_SIZE + (Suc i + length cols + 7) div 8 \<le> length bytes" using Cons.prems(1) by simp
  note IH = Cons.IH [OF this]
  show ?case
    using ix IH Cons.prems(2) decode_column_no_panic [of col bytes pos] decode_column_pos [of col bytes pos]
    by (auto simp: obind_eq_Panic split: prod.splits) 
qed simp

lemma tuple_header_read_no_panic [simp]: "tuple_header_read bytes \<noteq> Panic"
  by (simp add: tuple_header_read_def)

lemma tuple_header_read_length: "tuple_header_read bytes = Ok h \<Longrightarrow> TUPLE_HEADER_SIZE \<le> length bytes"
  by (simp add: tuple_header_read_def split: if_splits)

lemma if_Err_no_panic: "(\<not> c \<Longrightarrow> m \<noteq> Panic) \<Longrightarrow> (if c then Err e else m) \<noteq> Panic"
  by simp

lemma decode_tuple_no_panic: "decode_tuple bytes columns \<noteq> Panic"
proof (cases "tuple_header_read bytes")
  case (Ok h)
  let ?hn = "t_infomask h AND HEAP_HASNULL \<noteq> 0" and ?hoff = "unat (t_hoff h)"
  let ?body = "decode_columns ?hn bytes 0 ?hoff columns"
  have safe: "?body \<noteq> Panic \<and> (\<forall>vals pos. ?body = Ok (vals, pos) \<longrightarrow> \<not> length bytes < pos)"
    if "\<not> (?hoff < TUPLE_HEADER_SIZE \<or> length bytes < ?hoff \<or> ?hoff mod 8 \<noteq> 0)"
      "\<not> (?hn \<and> ?hoff < TUPLE_HEADER_SIZE + (if ?hn then div_ceil8 (length columns) else 0))"
  proof -
    have "?hn \<longrightarrow> TUPLE_HEADER_SIZE + (0 + length columns + 7) div 8 \<le> length bytes" and "?hoff \<le> length bytes"
      using that by (auto simp: div_ceil8_def)
    from decode_columns_safe [OF this] show ?thesis by (meson not_less)
  qed
  have fin: "obind ?body (\<lambda>(vals, pos). if length bytes < pos then Panic else g vals pos) \<noteq> Panic"
    if "?body \<noteq> Panic \<and> (\<forall>vals pos. ?body = Ok (vals, pos) \<longrightarrow> \<not> length bytes < pos)" "\<And>vals pos. g vals pos \<noteq> Panic" for g
    using that by (cases ?body) auto
  show ?thesis
    unfolding decode_tuple_def Ok Let_def obind.simps
    by (intro if_Err_no_panic, rule fin, rule safe) simp_all
qed (simp_all add: decode_tuple_def)

lemma encode_header_kept [simp]:
  "t_xmin (encode_header h n flags b) = t_xmin h" "t_xmax (encode_header h n flags b) = t_xmax h"
  "t_cid (encode_header h n flags b) = t_cid h" "t_ctid (encode_header h n flags b) = t_ctid h"
  "t_agent_id (encode_header h n flags b) = t_agent_id h" "t_trace_id (encode_header h n flags b) = t_trace_id h"
  by (simp_all add: encode_header_def Let_def split: prod.split)

lemma scan_columns_Ok_iff:
  "(\<exists>acc'. scan_columns acc ps = Ok acc') \<longleftrightarrow>
     (\<forall>(c, v) \<in> set ps. \<not> bad_dim c \<and> (\<forall>d. v = Some d \<longrightarrow> datum_matches c d))"
proof (induction acc ps rule: scan_columns.induct)
  case (2 n v e col val rest)
  have "(case col of CVector dim \<Rightarrow> check_vector_dim dim | _ \<Rightarrow> Ok ()) = Ok () \<longleftrightarrow> \<not> bad_dim col" by (cases col) auto
  then show ?case using 2 by (cases val) auto
qed auto

section \<open>Properties of the tuple codec\<close>

text \<open>C34. Tuple round trip: whatever \<^verbatim>\<open>encode_tuple_impl\<close> accepts, with any mix of nulls, fixed and variable width
columns, TOAST pointers and an optional node id, \<^verbatim>\<open>decode_tuple\<close> returns the same column values under the same schema,
\<^verbatim>\<open>tuple_node_id\<close> returns the same node id, and the decoded header has the MVCC and provenance fields of the header
that was passed in and the attribute count of the schema.\<close>

theorem tuple_roundtrip:
  assumes "encode_tuple_impl header columns values node_id = Ok bytes" and "length (t_trace_id header) = 16"
    and "\<forall>d. Some d \<in> set values \<longrightarrow> datum_typed d"
  shows "\<exists>h. decode_tuple bytes columns = Ok (h, values) \<and> tuple_node_id bytes columns = Ok node_id \<and>
    natts h = length columns \<and> t_xmin h = t_xmin header \<and> t_xmax h = t_xmax header \<and> t_cid h = t_cid header \<and>
    t_ctid h = t_ctid header \<and> t_agent_id h = t_agent_id header \<and> t_trace_id h = t_trace_id header"
proof -
  obtain flags where d: "decode_tuple bytes columns = Ok (encode_header header (length columns) flags (node_id \<noteq> None), values)"
      "tuple_node_id bytes columns = Ok node_id"
    by (rule decode_encode [OF assms])
  have "length columns \<le> MAX_NATTS" using assms(1) by (auto simp: encode_tuple_impl_def split: if_splits)
  then have "natts (encode_header header (length columns) flags (node_id \<noteq> None)) = length columns"
    by (cases flags) (simp add: encode_header_fields)
  then show ?thesis using d by (intro exI [of _ "encode_header header (length columns) flags (node_id \<noteq> None)"]) simp
qed

definition tuple_ex_header :: TupleHeader where
  "tuple_ex_header = tuple_header_new 7 0 2 (replicate 16 9) \<lparr>page_id = 1, slot_id = 0\<rparr> 0"

lemma tuple_roundtrip_witness:
  "\<exists>bytes h. encode_tuple_impl tuple_ex_header [CInt4, CText, CInt8] [Some (Int4 5), Some (TextD [104, 105]), None] (Some 3) = Ok bytes \<and>
     decode_tuple bytes [CInt4, CText, CInt8] = Ok (h, [Some (Int4 5), Some (TextD [104, 105]), None]) \<and> t_xmin h = 7"
proof -
  have "\<exists>bytes. encode_tuple_impl tuple_ex_header [CInt4, CText, CInt8] [Some (Int4 5), Some (TextD [104, 105]), None] (Some 3) = Ok bytes"
    by (simp add: encode_tuple_impl_def MAX_NATTS_def Let_def write_inline_varlena_def VARLENA_LEN_MASK_def VARLENA_TAG_MASK_def)
  then obtain bytes where e: "encode_tuple_impl tuple_ex_header [CInt4, CText, CInt8]
      [Some (Int4 5), Some (TextD [104, 105]), None] (Some 3) = Ok bytes" by blast
  have "utf8_valid [104, 105]" by code_simp
  then have "\<forall>d. Some d \<in> set [Some (Int4 5), Some (TextD [104, 105]), None] \<longrightarrow> datum_typed d" by simp
  from tuple_roundtrip [OF e _ this] show ?thesis
    using e by (auto simp: tuple_ex_header_def tuple_header_new_def)
qed

text \<open>C35. Decoding is total: on arbitrary bytes and any schema \<^verbatim>\<open>decode_tuple\<close> and \<^verbatim>\<open>tuple_node_id\<close> return a value
or an error and never index outside the buffer or reach an unreachable branch.\<close>

theorem tuple_decode_total: "decode_tuple bytes columns \<noteq> Panic \<and> tuple_node_id bytes columns \<noteq> Panic"
proof -
  have "4 \<le> length bytes" if "decode_tuple bytes columns = Ok x" for x
  proof -
    have "TUPLE_HEADER_SIZE \<le> length bytes"
      using that by (auto simp: decode_tuple_def intro: tuple_header_read_length)
    then show ?thesis by (simp add: TUPLE_HEADER_SIZE_def)
  qed
  then show ?thesis
    using decode_tuple_no_panic by (fastforce simp: tuple_node_id_def obind_eq_Panic Let_def split: if_splits)
qed

text \<open>C38. What the encoder accepts: \<^verbatim>\<open>encode_tuple_impl\<close> succeeds exactly when the schema and the values have the same
length of at most \<^verbatim>\<open>MAX_NATTS\<close>, every vector column has a legal dimension, every value matches its column and every
inline payload fits the thirty bit length of its varlena header.\<close>

theorem tuple_encode_accepts:
  "(\<exists>bytes. encode_tuple_impl header columns values node_id = Ok bytes) \<longleftrightarrow>
     length columns = length values \<and> length columns \<le> MAX_NATTS \<and>
     list_all (\<lambda>(c, v). \<not> bad_dim c \<and> (case v of None \<Rightarrow> True | Some d \<Rightarrow> datum_matches c d \<and> payload_fits d)) (zip columns values)"
proof (cases "length columns = length values \<and> length columns \<le> MAX_NATTS")
  case True
  have "set values = snd ` set (zip columns values)" using True by (metis map_snd_zip set_map)
  then have v: "(\<forall>d. Some d \<in> set values \<longrightarrow> payload_fits d) \<longleftrightarrow>
      (\<forall>p \<in> set (zip columns values). \<forall>d. snd p = Some d \<longrightarrow> payload_fits d)" by (auto; force)
  have "(\<exists>bytes. encode_tuple_impl header columns values node_id = Ok bytes) \<longleftrightarrow>
      (\<exists>acc. scan_columns (False, False, False) (zip columns values) = Ok acc) \<and> (\<forall>d. Some d \<in> set values \<longrightarrow> payload_fits d)"
    using True by (simp add: encode_tuple_impl_def Let_def write_values_eq) blast
  also have "\<dots> \<longleftrightarrow> (\<forall>p \<in> set (zip columns values). \<not> bad_dim (fst p) \<and>
      (\<forall>d. snd p = Some d \<longrightarrow> datum_matches (fst p) d \<and> payload_fits d))"
    unfolding scan_columns_Ok_iff v case_prod_beta by blast
  finally show ?thesis
    using True by (auto simp: list_all_iff case_prod_beta split: option.split)
qed (auto simp: encode_tuple_impl_def)

end
