(* ===== verification/Btree_Key.thy ===== *)
theory Btree_Key
  imports Heap_Tuple Storage_File "HOL-Library.List_Lexorder"
begin

unbundle bit_operations_syntax

text \<open>
  The order-preserving key encoding of \<^verbatim>\<open>pg-am-btree/src/key.rs\<close> and the error type of
  \<^verbatim>\<open>pg-am-btree/src/error.rs\<close>.  Index pages compare encoded keys as plain byte strings, which
  is the lexicographic order on lists of bytes; the order lemma says that this is the order of
  the datums (signed for integers, bytewise for text and byte arrays).
\<close>

section \<open>Errors\<close>

text \<open>Without the message strings; \<open>Heap\<close> wraps the error of a heap-page primitive.\<close>

datatype BTreeError =
    PageFull nat nat
  | KeyTooLarge nat
  | DuplicateKey
  | EntryNotFound
  | Corrupted
  | InvalidArgument
  | Unsupported
  | Heap HeapError
  | Storage StorageError

type_synonym 'a btree_result = "('a, BTreeError) outcome"

text \<open>The \<^verbatim>\<open>?\<close> operator on a heap result inside a function with a B+Tree result.\<close>

fun from_heap :: "'a heap_result \<Rightarrow> 'a btree_result" where
  "from_heap (Ok x) = Ok x"
| "from_heap (Err e) = Err (Heap e)"
| "from_heap Panic = Panic"

section \<open>Encoding\<close>

definition MAX_INDEX_KEY_BYTES :: nat where
  "MAX_INDEX_KEY_BYTES = (PAGE_SIZE - 32 - 16) div 3 - 16"

fun is_supported_key_type :: "ColumnType \<Rightarrow> bool" where
  "is_supported_key_type CInt4 = True"
| "is_supported_key_type CInt8 = True"
| "is_supported_key_type CText = True"
| "is_supported_key_type CBytea = True"
| "is_supported_key_type _ = False"

text \<open>\<^verbatim>\<open>to_be_bytes\<close> and \<^verbatim>\<open>from_be_bytes\<close>.\<close>

definition be_bytes :: "nat \<Rightarrow> 'a::len word \<Rightarrow> u8 list" where
  "be_bytes n w = rev (le_bytes n w)"

definition be_word :: "u8 list \<Rightarrow> 'a::len word" where
  "be_word bs = le_word (rev bs)"

definition encode_i32 :: "u32 \<Rightarrow> u8 list" where
  "encode_i32 v = be_bytes 4 (v XOR 0x80000000)"

definition decode_i32 :: "u8 list \<Rightarrow> u32" where
  "decode_i32 bytes = be_word bytes XOR 0x80000000"

definition encode_i64 :: "u64 \<Rightarrow> u8 list" where
  "encode_i64 v = be_bytes 8 (v XOR 0x8000000000000000)"

definition decode_i64 :: "u8 list \<Rightarrow> u64" where
  "decode_i64 bytes = be_word bytes XOR 0x8000000000000000"

definition encode_key :: "Datum \<Rightarrow> u8 list btree_result" where
  "encode_key datum =
     obind (case datum of
              Int4 v \<Rightarrow> Ok (encode_i32 v)
            | Int8 v \<Rightarrow> Ok (encode_i64 v)
            | TextD s \<Rightarrow> Ok s
            | Bytea b \<Rightarrow> Ok b
            | _ \<Rightarrow> Err InvalidArgument) (\<lambda>bytes.
       if MAX_INDEX_KEY_BYTES < length bytes then Err (KeyTooLarge (length bytes)) else Ok bytes)"

fun decode_key :: "ColumnType \<Rightarrow> u8 list \<Rightarrow> Datum btree_result" where
  "decode_key CInt4 bytes = (if length bytes \<noteq> 4 then Err Corrupted else Ok (Int4 (decode_i32 bytes)))"
| "decode_key CInt8 bytes = (if length bytes \<noteq> 8 then Err Corrupted else Ok (Int8 (decode_i64 bytes)))"
| "decode_key CText bytes = (if \<not> utf8_valid bytes then Err Corrupted else Ok (TextD bytes))"
| "decode_key CBytea bytes = Ok (Bytea bytes)"
| "decode_key _ bytes = Err InvalidArgument"

text \<open>The native order of two datums of one key type.\<close>

fun datum_less :: "Datum \<Rightarrow> Datum \<Rightarrow> bool" where
  "datum_less (Int4 a) (Int4 b) \<longleftrightarrow> sint a < sint b"
| "datum_less (Int8 a) (Int8 b) \<longleftrightarrow> sint a < sint b"
| "datum_less (TextD a) (TextD b) \<longleftrightarrow> a < b"
| "datum_less (Bytea a) (Bytea b) \<longleftrightarrow> a < b"
| "datum_less _ _ \<longleftrightarrow> False"

section \<open>Big-endian bytes are ordered like the integers\<close>

text \<open>The value of a big-endian byte string.\<close>

fun be_val :: "u8 list \<Rightarrow> nat" where
  "be_val [] = 0"
| "be_val (b # bs) = unat b * 256 ^ length bs + be_val bs"

lemma be_val_less: "be_val bs < 256 ^ length bs"
proof (induction bs)
  case (Cons b bs)
  have "unat b \<le> 255" using unsigned_less [of b, where 'a = nat] by simp
  then have "unat b * 256 ^ length bs \<le> 255 * 256 ^ length bs" by (rule mult_right_mono) simp
  with Cons.IH have "unat b * 256 ^ length bs + be_val bs < 255 * 256 ^ length bs + 256 ^ length bs"
    by (rule add_le_less_mono [rotated])
  then show ?case by simp
qed simp

lemma be_val_order: "length xs = length ys \<Longrightarrow> xs < ys \<longleftrightarrow> be_val xs < be_val ys"
proof (induction xs ys rule: list_induct2)
  case (Cons x xs y ys)
  have bounds: "be_val xs < 256 ^ length ys" "be_val ys < 256 ^ length ys"
    using be_val_less [of xs] be_val_less [of ys] Cons.hyps by simp_all
  have step: "be_val (a # xs) < be_val (b # ys)" if "unat a < unat b" for a b
  proof -
    have "(unat a + 1) * 256 ^ length ys \<le> unat b * 256 ^ length ys"
      using that by (intro mult_right_mono) simp_all
    with bounds show ?thesis using Cons.hyps by simp
  qed
  have step': "be_val (b # ys) < be_val (a # xs)" if "unat b < unat a" for a b
  proof -
    have "(unat b + 1) * 256 ^ length ys \<le> unat a * 256 ^ length ys"
      using that by (intro mult_right_mono) simp_all
    with bounds show ?thesis using Cons.hyps by simp
  qed
  consider "unat x < unat y" | "x = y" | "unat y < unat x"
    by (metis linorder_neqE_nat word_unat_eq_iff)
  then show ?case
  proof cases
    case 1 then show ?thesis using step by (simp add: word_less_nat_alt)
  next
    case 2 then show ?thesis using Cons by simp
  next
    case 3
    have "\<not> be_val (x # xs) < be_val (y # ys)" using step' [OF 3] by (rule less_not_sym)
    moreover have "\<not> x # xs < y # ys" using 3 by (auto simp: word_less_nat_alt)
    ultimately show ?thesis by blast
  qed
qed simp

lemma be_val_bytes: "be_val (be_bytes n w) = unat w mod 256 ^ n"
proof (induction n)
  case 0
  then show ?case by (simp add: be_bytes_def le_bytes_def)
next
  case (Suc n)
  have "be_bytes (Suc n) w = ucast (drop_bit (8 * n) w) # be_bytes n w"
    by (simp add: be_bytes_def le_bytes_def)
  moreover have "unat (ucast (drop_bit (8 * n) w) :: u8) = unat w div 256 ^ n mod 256"
    by (simp only: unsigned_ucast_eq unat_drop_bit_eq)
      (simp add: take_bit_eq_mod drop_bit_eq_div power_mult)
  ultimately show ?case
    using Suc by (simp add: be_bytes_def mult.commute [of 256] mod_mult2_eq)
qed

lemma be_bytes_order:
  assumes "LENGTH('a::len) = 8 * n"
  shows "be_bytes n (a :: 'a word) < be_bytes n b \<longleftrightarrow> a < b"
proof -
  have "unat w < 256 ^ n" for w :: "'a word"
    using unsigned_less [of w, where 'a = nat] assms by (simp add: power_mult)
  then have "be_val (be_bytes n w) = unat w" for w :: "'a word" by (simp add: be_val_bytes)
  then show ?thesis
    by (subst be_val_order) (simp_all add: be_bytes_def word_less_nat_alt)
qed

lemma be_word_bytes: "LENGTH('a::len) = 8 * n \<Longrightarrow> be_word (be_bytes n (w :: 'a word)) = w"
  by (simp add: be_word_def be_bytes_def le_word_le_bytes)

section \<open>The flipped sign bit\<close>

text \<open>Flipping the top bit adds half the range, so it maps the signed order to the unsigned one.\<close>

lemma flip_top:
  fixes w :: "'a::len word"
  assumes "LENGTH('a) = Suc m"
  shows "uint (w XOR 2 ^ m) = sint w + 2 ^ m"
proof -
  have "bit (uint w) m = bit w m" using assms by (simp add: bit_uint_iff)
  moreover have "uint (2 ^ m :: 'a word) = 2 ^ m" using assms by (intro uint_2p) (simp add: word_gt_0)
  then have "uint (w XOR 2 ^ m) = flip_bit m (uint w)"
    by (simp add: unsigned_xor_eq flip_bit_eq_xor push_bit_eq_mult)
  moreover have "sint w = uint w - 2 ^ Suc m * of_bool (bit (uint w) m)"
    using assms take_bit_int_eq_self [of "uint w" "Suc m"] unsigned_less [of w, where 'a = int]
    by (simp add: sint_uint signed_take_bit_eq_take_bit_minus)
  ultimately show ?thesis
    by (simp add: flip_bit_eq_if set_bit_eq unset_bit_eq)
qed

lemma flip_top_order:
  fixes a b :: "'a::len word"
  assumes "LENGTH('a) = Suc m"
  shows "a XOR 2 ^ m < b XOR 2 ^ m \<longleftrightarrow> sint a < sint b"
  by (simp add: word_less_def flip_top [OF assms])

lemma encode_i32_order: "encode_i32 a < encode_i32 b \<longleftrightarrow> sint a < sint b"
  using flip_top_order [of 31 a b] by (simp add: encode_i32_def be_bytes_order)

lemma encode_i64_order: "encode_i64 a < encode_i64 b \<longleftrightarrow> sint a < sint b"
  using flip_top_order [of 63 a b] by (simp add: encode_i64_def be_bytes_order)

lemma decode_i32_encode: "decode_i32 (encode_i32 v) = v"
  by (simp add: decode_i32_def encode_i32_def be_word_bytes xor.assoc)

lemma decode_i64_encode: "decode_i64 (encode_i64 v) = v"
  by (simp add: decode_i64_def encode_i64_def be_word_bytes xor.assoc)

lemma encode_key_Ok:
  "encode_key d = Ok bs \<longleftrightarrow> length bs \<le> MAX_INDEX_KEY_BYTES \<and>
     (case d of Int4 v \<Rightarrow> bs = encode_i32 v | Int8 v \<Rightarrow> bs = encode_i64 v
      | TextD s \<Rightarrow> bs = s | Bytea b \<Rightarrow> bs = b | _ \<Rightarrow> False)"
  by (cases d) (auto simp: encode_key_def not_less simp del: obind_eq_Ok split: if_splits)

lemma length_encode_int [simp]: "length (encode_i32 a) = 4" "length (encode_i64 b) = 8"
  by (simp_all add: encode_i32_def encode_i64_def be_bytes_def)

section \<open>Properties\<close>

text \<open>
  C30. Two datums of one key type compare in their native order (signed for \<^verbatim>\<open>Int4\<close> and
  \<^verbatim>\<open>Int8\<close>, bytewise for \<^verbatim>\<open>Text\<close> and \<^verbatim>\<open>Bytea\<close>) exactly as their encoded keys compare as byte
  strings, so comparing bytes on an index page is comparing keys.
\<close>

theorem key_order_preserved:
  assumes "encode_key a = Ok x" and "encode_key b = Ok y" and "column_type a = column_type b"
  shows "x < y \<longleftrightarrow> datum_less a b"
  using assms by (cases a; cases b) (auto simp: encode_key_Ok encode_i32_order encode_i64_order)

theorem key_order_preserved_witness: "encode_i32 (- 1) < encode_i32 5"
  using key_order_preserved [of "Int4 (- 1)" "encode_i32 (- 1)" "Int4 5" "encode_i32 5"]
  by (simp add: encode_key_def MAX_INDEX_KEY_BYTES_def PAGE_SIZE_def)

text \<open>
  C31. Decoding an encoded key at the datum's column type returns the datum, and every encoded
  key is within the index key limit.
\<close>

theorem key_roundtrip:
  assumes "encode_key d = Ok bs" and "datum_typed d"
  shows "decode_key (column_type d) bs = Ok d \<and> length bs \<le> MAX_INDEX_KEY_BYTES"
  using assms by (cases d) (auto simp: encode_key_Ok decode_i32_encode decode_i64_encode)

theorem key_roundtrip_witness: "decode_key CInt8 (encode_i64 (- 7)) = Ok (Int8 (- 7))"
  using key_roundtrip [of "Int8 (- 7)" "encode_i64 (- 7)"]
  by (simp add: encode_key_def MAX_INDEX_KEY_BYTES_def PAGE_SIZE_def)

end
