(* ===== verification/Btree_Page.thy ===== *)
theory Btree_Page
  imports Btree_Key
begin

unbundle bit_operations_syntax

text \<open>
  The B+Tree page of \<^verbatim>\<open>pg-am-btree/src/page.rs\<close>: a slotted page whose line pointers are sorted
  by entry, with the level and flags in \<^verbatim>\<open>pd_flags\<close> and the sibling links in the special space.
  The abstraction \<open>node\<close> reads a page as a record of its LSN, level, flags, siblings and list of
  entries; each operation on the bytes is shown to be the evident operation on that record.
\<close>

section \<open>Operations\<close>

text \<open>
  The operations are those of a debug build: a debug assertion that fails is the outcome \<^const>\<open>Panic\<close>.
\<close>

definition BTREE_SPECIAL_SIZE :: nat where "BTREE_SPECIAL_SIZE = HEAP_SPECIAL_SIZE"
definition BTREE_FLAG_LEAF :: u8 where "BTREE_FLAG_LEAF = 0x1"
definition BTREE_FLAG_ROOT :: u8 where "BTREE_FLAG_ROOT = 0x2"
definition BTREE_FLAG_DELETED :: u8 where "BTREE_FLAG_DELETED = 0x4"
definition BTREE_FLAG_SPLIT_INCOMPLETE :: u8 where "BTREE_FLAG_SPLIT_INCOMPLETE = 0x8"
definition LEVEL_SHIFT :: nat where "LEVEL_SHIFT = 8"
definition FLAGS_SHIFT :: nat where "FLAGS_SHIFT = 12"
definition LEAF_TRAILER_SIZE :: nat where "LEAF_TRAILER_SIZE = 10"
definition INTERNAL_TRAILER_SIZE :: nat where "INTERNAL_TRAILER_SIZE = 8"
definition META_RECORD_SIZE :: nat where "META_RECORD_SIZE = 10"

definition set_level :: "page \<Rightarrow> u8 \<Rightarrow> page btree_result" where
  "set_level page level =
     (if 0x0F < level then Panic else
      let raw = le_word (slice_of page 12 14) :: u16;
          raw = (raw AND NOT (push_bit LEVEL_SHIFT 0x0F)) OR push_bit LEVEL_SHIFT (ucast level)
      in Ok (write_at page 12 (le_bytes 2 raw)))"

definition set_flags :: "page \<Rightarrow> u8 \<Rightarrow> page btree_result" where
  "set_flags page flags =
     (if 0x0F < flags then Panic else
      let raw = le_word (slice_of page 12 14) :: u16;
          raw = (raw AND NOT (push_bit FLAGS_SHIFT 0x0F)) OR push_bit FLAGS_SHIFT (ucast flags)
      in Ok (write_at page 12 (le_bytes 2 raw)))"

definition bt_init :: "u8 \<Rightarrow> u8 \<Rightarrow> page btree_result" where
  "bt_init level flags =
     obind (set_level (init_with_special BTREE_SPECIAL_SIZE) level) (\<lambda>page. set_flags page flags)"

definition bt_init_if_fresh :: "page \<Rightarrow> u8 \<Rightarrow> u8 \<Rightarrow> (page \<times> bool) btree_result" where
  "bt_init_if_fresh page level flags =
     (if pd_upper (page_header page) = 0 then obind (bt_init level flags) (\<lambda>page. Ok (page, True)) else Ok (page, False))"

definition bt_checked_header :: "page \<Rightarrow> PageHeader btree_result" where
  "bt_checked_header page =
     (let header = page_header page;
          lower = unat (pd_lower header); upper = unat (pd_upper header); special = unat (pd_special header)
      in if lower < PAGE_HEADER_SIZE \<or> (lower - PAGE_HEADER_SIZE) mod LINE_POINTER_SIZE \<noteq> 0 \<or>
            upper < lower \<or> special < upper \<or> special \<noteq> PAGE_SIZE - BTREE_SPECIAL_SIZE
         then Err Corrupted else Ok header)"

definition bt_level :: "page \<Rightarrow> u8 btree_result" where
  "bt_level page =
     obind (bt_checked_header page) (\<lambda>header. Ok (ucast (drop_bit LEVEL_SHIFT (pd_flags header) AND 0x0F)))"

definition bt_flags :: "page \<Rightarrow> u8 btree_result" where
  "bt_flags page =
     obind (bt_checked_header page) (\<lambda>header. Ok (ucast (drop_bit FLAGS_SHIFT (pd_flags header) AND 0x0F)))"

definition set_flag :: "page \<Rightarrow> u8 \<Rightarrow> bool \<Rightarrow> page btree_result" where
  "set_flag page flag on =
     obind (bt_flags page) (\<lambda>flags.
       set_flags page (if on then flags OR flag else flags AND NOT flag))"

definition bt_prev :: "page \<Rightarrow> PageId btree_result" where
  "bt_prev page =
     obind (bt_checked_header page) (\<lambda>header.
       let off = unat (pd_special header) in Ok (le_word (slice_of page off (off + 8))))"

definition bt_next :: "page \<Rightarrow> PageId btree_result" where
  "bt_next page =
     obind (bt_checked_header page) (\<lambda>header.
       let off = unat (pd_special header) in Ok (le_word (slice_of page (off + 8) (off + 16))))"

definition set_prev :: "page \<Rightarrow> PageId \<Rightarrow> page btree_result" where
  "set_prev page prev =
     (let off = unat (pd_special (page_header page))
      in if off \<noteq> PAGE_SIZE - BTREE_SPECIAL_SIZE then Panic else Ok (write_at page off (le_bytes 8 prev)))"

definition set_next :: "page \<Rightarrow> PageId \<Rightarrow> page btree_result" where
  "set_next page next_id =
     (let off = unat (pd_special (page_header page))
      in if off \<noteq> PAGE_SIZE - BTREE_SPECIAL_SIZE then Panic else Ok (write_at page (off + 8) (le_bytes 8 next_id)))"

definition flags_for_level :: "u8 \<Rightarrow> u8" where
  "flags_for_level level = (if level = 0 then BTREE_FLAG_LEAF else 0)"

text \<open>\<^verbatim>\<open>page.copy_within(a..b, dest)\<close>\<close>

definition copy_within :: "page \<Rightarrow> nat \<Rightarrow> nat \<Rightarrow> nat \<Rightarrow> page" where
  "copy_within page a b dest = write_at page dest (slice_of page a b)"

text \<open>The assertions of \<^verbatim>\<open>debug_assert_invariants\<close> at the end of an operation.\<close>

definition asserted :: "page \<Rightarrow> page btree_result" where
  "asserted page = (if debug_assert_invariants page then Ok page else Panic)"

definition insert_entry_at :: "page \<Rightarrow> u16 \<Rightarrow> u8 list \<Rightarrow> page btree_result" where
  "insert_entry_at page slot entry =
     obind (bt_checked_header page) (\<lambda>header.
       if entry = [] then Err InvalidArgument
       else let count = (unat (pd_lower header) - PAGE_HEADER_SIZE) div LINE_POINTER_SIZE
            in if count < unat slot then Err Corrupted
               else let max_entry = (PAGE_SIZE - BTREE_SPECIAL_SIZE) - (PAGE_HEADER_SIZE + LINE_POINTER_SIZE)
                    in if max_entry < length entry then Err (KeyTooLarge (length entry))
                       else let needed = length entry + LINE_POINTER_SIZE;
                                free = unat (pd_upper header - pd_lower header)
                            in if free < needed then Err (PageFull needed free)
                               else let new_upper = unat (pd_upper header) - length entry;
                                        page = write_at page new_upper entry;
                                        lp_start = PAGE_HEADER_SIZE + unat slot * LINE_POINTER_SIZE;
                                        lp_end = PAGE_HEADER_SIZE + count * LINE_POINTER_SIZE;
                                        page = copy_within page lp_start lp_end (lp_start + LINE_POINTER_SIZE);
                                        lp = lp_new (of_nat new_upper) Normal (of_nat (length entry));
                                        page = write_at page lp_start (lp_to_le_bytes lp);
                                        page = write_at page 14 (le_bytes 2 (pd_lower header + of_nat LINE_POINTER_SIZE))
                                    in asserted (write_at page 16 (le_bytes 2 (of_nat new_upper :: u16))))"

definition remove_entry_at :: "page \<Rightarrow> u16 \<Rightarrow> page btree_result" where
  "remove_entry_at page slot =
     obind (bt_checked_header page) (\<lambda>header.
       let count = (unat (pd_lower header) - PAGE_HEADER_SIZE) div LINE_POINTER_SIZE
       in if count \<le> unat slot then Err Corrupted
          else let a = PAGE_HEADER_SIZE + (unat slot + 1) * LINE_POINTER_SIZE;
                   b = PAGE_HEADER_SIZE + count * LINE_POINTER_SIZE;
                   page = copy_within page a b (a - LINE_POINTER_SIZE)
               in asserted (write_at page 14 (le_bytes 2 (pd_lower header - of_nat LINE_POINTER_SIZE))))"

definition truncate_slots :: "page \<Rightarrow> u16 \<Rightarrow> page btree_result" where
  "truncate_slots page keep =
     obind (bt_checked_header page) (\<lambda>header.
       let count = (unat (pd_lower header) - PAGE_HEADER_SIZE) div LINE_POINTER_SIZE
       in if count < unat keep then Err Corrupted
          else let new_lower = of_nat (PAGE_HEADER_SIZE + unat keep * LINE_POINTER_SIZE) :: u16
               in asserted (write_at page 14 (le_bytes 2 new_lower)))"

definition apply_prepare_left :: "page \<Rightarrow> PageId \<Rightarrow> page btree_result" where
  "apply_prepare_left page new_right =
     obind (bt_checked_header page) (\<lambda>_.
       if pd_upper (page_header page) = 0 then Err Corrupted
       else obind (set_flag page BTREE_FLAG_SPLIT_INCOMPLETE True) (\<lambda>page. set_next page new_right))"

definition init_right_page :: "PageId \<Rightarrow> PageId \<Rightarrow> u8 \<Rightarrow> page btree_result" where
  "init_right_page left left_old_next level =
     obind (bt_init level (flags_for_level level)) (\<lambda>page.
     obind (set_prev page left) (\<lambda>page. set_next page left_old_next))"

definition apply_commit_left :: "page \<Rightarrow> page btree_result" where
  "apply_commit_left page =
     obind (bt_checked_header page) (\<lambda>_.
       if pd_upper (page_header page) = 0 then Err Corrupted
       else obind (bt_flags page) (\<lambda>flags.
         set_flags page (flags AND NOT (BTREE_FLAG_SPLIT_INCOMPLETE OR BTREE_FLAG_ROOT))))"

section \<open>Entries\<close>

definition encode_leaf_entry :: "u8 list \<Rightarrow> Tid \<Rightarrow> u8 list" where
  "encode_leaf_entry key tid = key @ le_bytes 8 (page_id tid) @ le_bytes 2 (slot_id tid)"

definition decode_leaf_entry :: "u8 list \<Rightarrow> (u8 list \<times> Tid) btree_result" where
  "decode_leaf_entry bytes =
     (if length bytes < LEAF_TRAILER_SIZE then Err Corrupted
      else let n = length bytes - LEAF_TRAILER_SIZE; key = take n bytes; tail = drop n bytes
           in Ok (key, \<lparr>page_id = le_word (slice_of tail 0 8), slot_id = le_word (slice_of tail 8 10)\<rparr>))"

definition encode_internal_entry :: "u8 list \<Rightarrow> PageId \<Rightarrow> u8 list" where
  "encode_internal_entry key child = key @ le_bytes 8 child"

definition decode_internal_entry :: "u8 list \<Rightarrow> (u8 list \<times> PageId) btree_result" where
  "decode_internal_entry bytes =
     (if length bytes < INTERNAL_TRAILER_SIZE then Err Corrupted
      else let n = length bytes - INTERNAL_TRAILER_SIZE
           in Ok (take n bytes, le_word (drop n bytes)))"

definition encode_meta_record :: "PageId \<Rightarrow> u16 \<Rightarrow> u8 list" where
  "encode_meta_record root tree_level = le_bytes 8 root @ le_bytes 2 tree_level"

definition decode_meta_record :: "u8 list \<Rightarrow> (PageId \<times> u16) btree_result" where
  "decode_meta_record bytes =
     (if length bytes \<noteq> META_RECORD_SIZE then Err Corrupted
      else Ok (le_word (slice_of bytes 0 8), le_word (slice_of bytes 8 10)))"

lemma decode_encode_leaf: "decode_leaf_entry (encode_leaf_entry key tid) = Ok (key, tid)"
  by (simp add: decode_leaf_entry_def encode_leaf_entry_def LEAF_TRAILER_SIZE_def slice_of_def Let_def)

lemma decode_encode_internal: "decode_internal_entry (encode_internal_entry key child) = Ok (key, child)"
  by (simp add: decode_internal_entry_def encode_internal_entry_def INTERNAL_TRAILER_SIZE_def Let_def)

lemma decode_encode_meta: "decode_meta_record (encode_meta_record root lvl) = Ok (root, lvl)"
  by (simp add: decode_meta_record_def encode_meta_record_def META_RECORD_SIZE_def slice_of_def)

section \<open>The abstract node\<close>

definition lps :: "page \<Rightarrow> LinePointer list" where
  "lps page = map (lp_at page) [0..<slot_count page]"

definition lp_bytes :: "page \<Rightarrow> LinePointer \<Rightarrow> u8 list" where
  "lp_bytes page lp = slice_of page (unat (lp_off lp)) (unat (lp_off lp) + unat (lp_len lp))"

definition entries :: "page \<Rightarrow> u8 list list" where
  "entries page = map (lp_bytes page) (lps page)"

record bt_node =
  node_lsn :: Lsn
  node_level :: u8
  node_flags :: u8
  node_prev :: PageId
  node_next :: PageId
  node_entries :: "u8 list list"

definition node :: "page \<Rightarrow> bt_node" where
  "node page =
     \<lparr>node_lsn = page_pd_lsn page,
      node_level = ucast (drop_bit LEVEL_SHIFT (pd_flags (page_header page)) AND 0x0F),
      node_flags = ucast (drop_bit FLAGS_SHIFT (pd_flags (page_header page)) AND 0x0F),
      node_prev = le_word (slice_of page 8176 8184), node_next = le_word (slice_of page 8184 8192),
      node_entries = entries page\<rparr>"

definition lp_ok :: "nat \<Rightarrow> LinePointer \<Rightarrow> bool" where
  "lp_ok upper lp \<longleftrightarrow> lp_flags lp = Normal \<and> upper \<le> unat (lp_off lp) \<and> 0 < unat (lp_len lp) \<and>
     unat (lp_off lp) + unat (lp_len lp) \<le> 8176"

definition lp_apart :: "LinePointer \<Rightarrow> LinePointer \<Rightarrow> bool" where
  "lp_apart a b \<longleftrightarrow> unat (lp_off a) + unat (lp_len a) \<le> unat (lp_off b) \<or>
     unat (lp_off b) + unat (lp_len b) \<le> unat (lp_off a)"

text \<open>
  The invariant: the geometry every reader checks, all line pointers live and inside the data
  area, and no two entries overlap.
\<close>

definition bt_ok :: "page \<Rightarrow> bool" where
  "bt_ok page \<longleftrightarrow> geometry_ok page \<and> special_of page = 8176 \<and>
     list_all (lp_ok (upper_of page)) (lps page) \<and> sorted_wrt lp_apart (lps page)"

lemma bt_okD:
  assumes "bt_ok page"
  shows "geometry_ok page" and "special_of page = 8176" and "length page = 8192"
    and "list_all (lp_ok (upper_of page)) (lps page)" and "sorted_wrt lp_apart (lps page)"
  using assms by (simp_all add: bt_ok_def geometry_ok_def PAGE_SIZE_def)

lemma length_lps [simp]: "length (lps page) = slot_count page"
  by (simp add: lps_def)

lemma length_entries [simp]: "length (entries page) = slot_count page"
  by (simp add: entries_def)

lemma nth_lps [simp]: "s < slot_count page \<Longrightarrow> lps page ! s = lp_at page s"
  by (simp add: lps_def)

lemma lp_apart_sym: "lp_apart a b \<Longrightarrow> lp_apart b a"
  by (auto simp: lp_apart_def)

lemma bt_ok_lp:
  assumes "bt_ok page" and "s < slot_count page"
  shows "lp_ok (upper_of page) (lp_at page s)"
  using bt_okD(4) [OF assms(1)] assms(2) by (metis length_lps list_all_length nth_lps)

lemma bt_ok_page_ok:
  assumes ok: "bt_ok page"
  shows "page_ok page" and "used page s \<longleftrightarrow> s < slot_count page"
proof -
  have u: "used page s \<longleftrightarrow> s < slot_count page" for s
    using bt_ok_lp [OF ok] by (auto simp: used_def lp_ok_def)
  then show "used page s \<longleftrightarrow> s < slot_count page" .
  show "page_ok page"
  proof (rule page_okI [OF bt_okD(1) [OF ok]])
    fix s assume "used page s"
    then show "upper_of page \<le> region_lo page s \<and> region_lo page s < region_hi page s \<and> region_hi page s \<le> special_of page"
      using bt_ok_lp [OF ok] u bt_okD(2) [OF ok] by (simp add: lp_ok_def)
  next
    fix s t assume "used page s" "used page t" "s < t"
    then show "region_hi page s \<le> region_lo page t \<or> region_hi page t \<le> region_lo page s"
      using bt_okD(5) [OF ok] u by (auto simp: sorted_wrt_iff_nth_less lp_apart_def)
  qed
qed

lemma asserted_ok: "bt_ok page \<Longrightarrow> asserted page = Ok page"
  using bt_ok_page_ok(1) page_ok_asserts by (simp add: asserted_def)

lemma bt_checked_header_ok:
  assumes "bt_ok page"
  shows "bt_checked_header page = Ok (page_header page)"
proof -
  note geo = bt_okD(1,2) [OF assms, unfolded geometry_ok_def]
  have "PAGE_SIZE - BTREE_SPECIAL_SIZE = 8176" by (simp add: BTREE_SPECIAL_SIZE_def HEAP_SPECIAL_SIZE_def PAGE_SIZE_def)
  with geo show ?thesis unfolding bt_checked_header_def Let_def by (intro if_not_P) linarith
qed

lemma bt_readers:
  assumes "bt_ok page"
  shows "bt_level page = Ok (node_level (node page))" and "bt_flags page = Ok (node_flags (node page))"
    and "bt_prev page = Ok (node_prev (node page))" and "bt_next page = Ok (node_next (node page))"
  using bt_okD(2) [OF assms]
  by (simp_all add: bt_level_def bt_flags_def bt_prev_def bt_next_def bt_checked_header_ok [OF assms] node_def)

section \<open>Writes outside the data area\<close>

text \<open>Two pages with the same geometry and the same bytes between header and special space.\<close>

definition same_body :: "page \<Rightarrow> page \<Rightarrow> bool" where
  "same_body p q \<longleftrightarrow> length q = length p \<and> lower_of q = lower_of p \<and> upper_of q = upper_of p \<and>
     special_of q = special_of p \<and> slice_of q 32 8176 = slice_of p 32 8176"

lemma same_body_slice:
  assumes "same_body p q" and "32 \<le> a" and "b \<le> 8176"
  shows "slice_of q a b = slice_of p a b"
proof -
  have "slice_of r a b = slice_of (slice_of r 32 8176) (a - 32) (b - 32)" for r :: page
    using assms(2,3) slice_of_slice_of [of "b - 32" 8176 32 r "a - 32"]
    by (cases "32 \<le> b") (simp_all, simp_all add: slice_of_def)
  then show ?thesis using assms(1) by (simp add: same_body_def)
qed

lemma same_body_entries:
  assumes ok: "bt_ok p" and same: "same_body p q"
  shows "bt_ok q" and "entries q = entries p" and "slot_count q = slot_count p"
proof -
  note geo = geometry_bounds [OF bt_okD(1) [OF ok]] and low = lower_slots [OF bt_okD(1) [OF ok]]
  show cnt: "slot_count q = slot_count p" using same by (simp add: same_body_def slot_count_def)
  have "lp_at q s = lp_at p s" if "s < slot_count p" for s
  proof -
    have "36 + 4 * s \<le> 8176" using that low geo bt_okD(2) [OF ok] by linarith
    then show ?thesis using same_body_slice [OF same] by (simp add: lp_at_def page_consts)
  qed
  then have l: "lps q = lps p" by (simp add: lps_def cnt)
  show "bt_ok q" using ok same unfolding bt_ok_def geometry_ok_def l same_body_def by simp
  have "lp_bytes q lp = lp_bytes p lp" if "lp \<in> set (lps p)" for lp
  proof -
    have "lp_ok (upper_of p) lp" using bt_okD(4) [OF ok] that by (simp add: list_all_iff)
    then show ?thesis unfolding lp_bytes_def using geo by (intro same_body_slice [OF same]) (auto simp: lp_ok_def)
  qed
  then show "entries q = entries p" by (simp add: entries_def l)
qed

lemma same_body_write:
  assumes "length p = 8192" and "a + length bs \<le> 14 \<or> 8176 \<le> a" and "a + length bs \<le> 8192"
  shows "same_body p (write_at p a bs)"
  using assms by (auto simp: same_body_def page_header_def header_read_from_def slice_simps)

text \<open>The level and the flags are two nibbles of one 16-bit field.\<close>

lemma nibble_fields:
  fixes raw :: u16 and v :: u8
  assumes "v \<le> 15"
  shows "ucast (drop_bit 8 ((raw AND NOT (push_bit 8 0xF)) OR push_bit 8 (ucast v)) AND 0xF) = v"
    and "drop_bit 12 ((raw AND NOT (push_bit 8 0xF)) OR push_bit 8 (ucast v)) AND 0xF = drop_bit 12 raw AND 0xF"
    and "ucast (drop_bit 12 ((raw AND NOT (push_bit 12 0xF)) OR push_bit 12 (ucast v)) AND 0xF) = v"
    and "drop_bit 8 ((raw AND NOT (push_bit 12 0xF)) OR push_bit 12 (ucast v)) AND 0xF = drop_bit 8 raw AND 0xF"
proof -
  have m: "(0xF :: u16) = mask 4" by (simp add: mask_eq_exp_minus_1)
  have "unat v < 2 ^ 4" using assms by (simp add: word_le_nat_alt)
  then have v: "i < 4" if "bit v i" for i using that by (rule bit_small)
  note bits = bit_and_iff bit_or_iff bit_not_iff bit_push_bit_iff bit_drop_bit_eq bit_mask_iff bit_unsigned_iff o_apply
  show "ucast (drop_bit 8 ((raw AND NOT (push_bit 8 0xF)) OR push_bit 8 (ucast v)) AND 0xF) = v"
    unfolding m by (rule bit_word_eqI, simp only: bits) (use v in auto)
  show "drop_bit 12 ((raw AND NOT (push_bit 8 0xF)) OR push_bit 8 (ucast v)) AND 0xF = drop_bit 12 raw AND 0xF"
    unfolding m by (rule bit_word_eqI, simp only: bits) (auto dest: v)
  show "ucast (drop_bit 12 ((raw AND NOT (push_bit 12 0xF)) OR push_bit 12 (ucast v)) AND 0xF) = v"
    unfolding m by (rule bit_word_eqI, simp only: bits) (use v in auto)
  show "drop_bit 8 ((raw AND NOT (push_bit 12 0xF)) OR push_bit 12 (ucast v)) AND 0xF = drop_bit 8 raw AND 0xF"
    unfolding m by (rule bit_word_eqI, simp only: bits) (auto dest: v)
qed

lemma set_flags_node:
  assumes ok: "bt_ok p" and f: "f \<le> 15"
  shows "\<exists>q. set_flags p f = Ok q \<and> bt_ok q \<and> node q = (node p)\<lparr>node_flags := f\<rparr> \<and> upper_of q = upper_of p"
proof -
  let ?raw = "(pd_flags (page_header p) AND NOT (push_bit 12 0xF)) OR push_bit 12 (ucast f) :: u16"
  let ?q = "write_at p 12 (le_bytes 2 ?raw)"
  note len = bt_okD(3) [OF ok]
  have q: "set_flags p f = Ok ?q"
    using f by (simp add: set_flags_def FLAGS_SHIFT_def Let_def page_header_def header_read_from_def not_less)
  have same: "same_body p ?q" by (rule same_body_write) (simp_all add: len)
  have "pd_flags (page_header ?q) = ?raw"
    by (simp add: page_header_def header_read_from_def slice_of_write_same len)
  moreover have "page_pd_lsn ?q = page_pd_lsn p"
    by (simp add: page_pd_lsn_def slice_of_write_disjoint len)
  ultimately have "node ?q = (node p)\<lparr>node_flags := f\<rparr>"
    unfolding node_def same_body_entries(2) [OF ok same] LEVEL_SHIFT_def FLAGS_SHIFT_def
    by (simp only: nibble_fields [OF f] slice_of_write_disjoint len) (simp add: slice_of_write_disjoint len)
  then show ?thesis using q same_body_entries(1) [OF ok same] same by (simp add: same_body_def)
qed

lemma set_level_node:
  assumes ok: "bt_ok p" and f: "f \<le> 15"
  shows "\<exists>q. set_level p f = Ok q \<and> bt_ok q \<and> node q = (node p)\<lparr>node_level := f\<rparr> \<and> upper_of q = upper_of p"
proof -
  let ?raw = "(pd_flags (page_header p) AND NOT (push_bit 8 0xF)) OR push_bit 8 (ucast f) :: u16"
  let ?q = "write_at p 12 (le_bytes 2 ?raw)"
  note len = bt_okD(3) [OF ok]
  have q: "set_level p f = Ok ?q"
    using f by (simp add: set_level_def LEVEL_SHIFT_def Let_def page_header_def header_read_from_def not_less)
  have same: "same_body p ?q" by (rule same_body_write) (simp_all add: len)
  have "pd_flags (page_header ?q) = ?raw"
    by (simp add: page_header_def header_read_from_def slice_of_write_same len)
  moreover have "page_pd_lsn ?q = page_pd_lsn p"
    by (simp add: page_pd_lsn_def slice_of_write_disjoint len)
  ultimately have "node ?q = (node p)\<lparr>node_level := f\<rparr>"
    unfolding node_def same_body_entries(2) [OF ok same] LEVEL_SHIFT_def FLAGS_SHIFT_def
    by (simp only: nibble_fields [OF f] slice_of_write_disjoint len) (simp add: slice_of_write_disjoint len)
  then show ?thesis using q same_body_entries(1) [OF ok same] same by (simp add: same_body_def)
qed

text \<open>The three eight-byte fields: the page LSN and the sibling links.\<close>

lemma write_field_node:
  assumes ok: "bt_ok p" and a: "a \<in> {0, 8176, 8184}"
  shows "bt_ok (write_at p a (le_bytes 8 v))"
    and "upper_of (write_at p a (le_bytes 8 v)) = upper_of p"
    and "node (write_at p a (le_bytes 8 v)) =
      (if a = 0 then (node p)\<lparr>node_lsn := v\<rparr> else if a = 8176 then (node p)\<lparr>node_prev := v\<rparr>
       else (node p)\<lparr>node_next := v\<rparr>)"
proof -
  note len = bt_okD(3) [OF ok]
  have same: "same_body p (write_at p a (le_bytes 8 v))" using a by (intro same_body_write) (auto simp: len)
  show "bt_ok (write_at p a (le_bytes 8 v))" by (rule same_body_entries(1) [OF ok same])
  show "upper_of (write_at p a (le_bytes 8 v)) = upper_of p" using same by (simp add: same_body_def)
  show "node (write_at p a (le_bytes 8 v)) =
      (if a = 0 then (node p)\<lparr>node_lsn := v\<rparr> else if a = 8176 then (node p)\<lparr>node_prev := v\<rparr>
       else (node p)\<lparr>node_next := v\<rparr>)"
    unfolding node_def same_body_entries(2) [OF ok same] page_pd_lsn_def page_header_def header_read_from_def
    using a len by (auto simp: slice_simps)
qed

lemma set_lsn_node:
  assumes "bt_ok p"
  shows "bt_ok (set_page_pd_lsn p v)" and "node (set_page_pd_lsn p v) = (node p)\<lparr>node_lsn := v\<rparr>"
    and "upper_of (set_page_pd_lsn p v) = upper_of p"
  using write_field_node [OF assms, of 0 v] by (simp_all add: set_page_pd_lsn_def)

lemma set_links_node:
  assumes "bt_ok p"
  shows "\<exists>q. set_prev p v = Ok q \<and> bt_ok q \<and> node q = (node p)\<lparr>node_prev := v\<rparr> \<and> upper_of q = upper_of p"
    and "\<exists>q. set_next p v = Ok q \<and> bt_ok q \<and> node q = (node p)\<lparr>node_next := v\<rparr> \<and> upper_of q = upper_of p"
  using write_field_node [OF assms, of 8176 v] write_field_node [OF assms, of 8184 v] bt_okD(2) [OF assms]
  by (simp_all add: set_prev_def set_next_def Let_def PAGE_SIZE_def BTREE_SPECIAL_SIZE_def HEAP_SPECIAL_SIZE_def)

section \<open>Fresh pages\<close>

lemma init_special_node:
  "bt_ok (init_with_special 16)"
  "node (init_with_special 16) =
     \<lparr>node_lsn = 0, node_level = 0, node_flags = 0, node_prev = 0, node_next = 0, node_entries = []\<rparr>"
  "upper_of (init_with_special 16) = 8176"
proof -
  let ?base = "init_page (replicate PAGE_SIZE 0)" and ?p = "init_with_special 16"
  have len: "length ?base = 8192" by (simp add: init_page_def PAGE_SIZE_def PAGE_HEADER_SIZE_def)
  have "(16 :: nat) \<le> 8160" by simp
  note e = init_with_special_effect [OF this]
  show up: "upper_of ?p = 8176" using e(4) by simp
  have l: "lps ?p = []" using e(2) by (simp add: lps_def)
  then show "bt_ok ?p" using e by (simp add: bt_ok_def)
  have "header_read_from ?base = header_new (of_nat PAGE_SIZE)" by (simp add: init_page_def header_read_write)
  then have f: "pd_flags (page_header ?p) = 0" "page_pd_lsn ?p = 0"
    by (simp_all add: init_with_special_def Let_def page_header_def header_read_from_def page_pd_lsn_def
        header_new_def Lsn_INVALID_def slice_of_write_disjoint len)
  have z: "slice_of ?p a (a + 8) = replicate 8 0" if "32 \<le> a" "a \<le> 8184" for a
  proof -
    have "slice_of ?p a (a + 8) = slice_of ?base a (a + 8)"
      using that by (simp add: init_with_special_def Let_def slice_of_write_disjoint len)
    then show ?thesis using that
      by (simp add: init_page_def header_write_eq slice_of_def PAGE_HEADER_SIZE_def PAGE_SIZE_def)
  qed
  have w: "le_word (replicate 8 (0 :: u8)) = (0 :: u64)" by (simp add: numeral_eq_Suc)
  show "node ?p = \<lparr>node_lsn = 0, node_level = 0, node_flags = 0, node_prev = 0, node_next = 0, node_entries = []\<rparr>"
    using z [of 8176] z [of 8184] by (simp add: node_def f w entries_def l)
qed

lemma bt_init_node:
  assumes "level \<le> 15" and "flags \<le> 15"
  shows "\<exists>p. bt_init level flags = Ok p \<and> bt_ok p \<and> upper_of p = 8176 \<and> slot_count p = 0 \<and>
    node p = \<lparr>node_lsn = 0, node_level = level, node_flags = flags, node_prev = 0, node_next = 0, node_entries = []\<rparr>"
proof -
  note i = init_special_node
  obtain p where p: "set_level (init_with_special 16) level = Ok p" "bt_ok p" "upper_of p = 8176"
      "node p = (node (init_with_special 16))\<lparr>node_level := level\<rparr>"
    using set_level_node [OF i(1) assms(1)] i(3) by auto
  obtain q where q: "set_flags p flags = Ok q" "bt_ok q" "upper_of q = 8176" "node q = (node p)\<lparr>node_flags := flags\<rparr>"
    using set_flags_node [OF p(2) assms(2)] p(3) by auto
  have "entries q = []" using q(4) p(4) i(2) by (simp add: node_def)
  then have "slot_count q = 0" by (metis length_entries list.size(3))
  then show ?thesis using p q i(2) by (simp add: bt_init_def BTREE_SPECIAL_SIZE_def HEAP_SPECIAL_SIZE_def)
qed

section \<open>The line pointer array\<close>

lemma lp_new_fields:
  assumes "off < 32768" and "len < 32768"
  shows "unat (lp_off (lp_new (of_nat off) f (of_nat len))) = off"
    and "unat (lp_len (lp_new (of_nat off) f (of_nat len))) = len"
    and "lp_flags (lp_new (of_nat off) f (of_nat len)) = f"
  using assms by simp_all

text \<open>A page that gained one entry, carved from the free space, at position \<open>k\<close> of the array.\<close>

lemma extended_page:
  assumes ok: "bt_ok p" and g: "geometry_ok q" and sp: "special_of q = 8176"
    and up: "upper_of q = upper_of p - length e" and e: "e \<noteq> []" "length e \<le> upper_of p"
    and l: "lps q = take k (lps p) @ lp_new (of_nat (upper_of p - length e)) Normal (of_nat (length e)) # drop k (lps p)"
    and old: "\<And>a b. upper_of p \<le> a \<Longrightarrow> b \<le> 8176 \<Longrightarrow> slice_of q a b = slice_of p a b"
    and new: "slice_of q (upper_of p - length e) (upper_of p) = e"
  shows "bt_ok q" and "entries q = take k (entries p) @ e # drop k (entries p)"
proof -
  let ?n = "upper_of p - length e" and ?lp = "lp_new (of_nat (upper_of p - length e)) Normal (of_nat (length e))"
  note geo = geometry_bounds [OF bt_okD(1) [OF ok]] and s8 = bt_okD(2) [OF ok]
  have small: "?n < 32768" "length e < 32768" "?n + length e = upper_of p" "0 < length e" using geo e by auto
  note fld = lp_new_fields [OF small(1,2), where f = Normal]
  have all: "lp_ok (upper_of p) lp" if "lp \<in> set (lps p)" for lp
    using bt_okD(4) [OF ok] that by (simp add: list_all_iff)
  have apart: "lp_apart ?lp lp" if "lp \<in> set (lps p)" for lp
    using all [OF that] small unfolding lp_apart_def fld(1,2) lp_ok_def by simp
  have sets: "set (take k (lps p)) \<subseteq> set (lps p)" "set (drop k (lps p)) \<subseteq> set (lps p)"
    by (auto dest: in_set_takeD in_set_dropD)
  have split: "sorted_wrt lp_apart (take k (lps p) @ drop k (lps p))" using bt_okD(5) [OF ok] by simp
  have "lp_ok (upper_of q) ?lp" unfolding lp_ok_def fld up using small geo s8 by simp
  moreover have "lp_ok (upper_of q) lp" if "lp \<in> set (lps p)" for lp
    using all [OF that] unfolding lp_ok_def up by auto
  ultimately have "list_all (lp_ok (upper_of q)) (lps q)" using sets unfolding l list_all_iff by auto
  moreover have "sorted_wrt lp_apart (lps q)"
    using split apart sets lp_apart_sym unfolding l sorted_wrt_append by auto
  ultimately show "bt_ok q" using g sp by (simp add: bt_ok_def)
  have "lp_bytes q lp = lp_bytes p lp" if "lp \<in> set (lps p)" for lp
    unfolding lp_bytes_def using all [OF that] by (intro old) (auto simp: lp_ok_def)
  then have m: "map (lp_bytes q) xs = map (lp_bytes p) xs" if "set xs \<subseteq> set (lps p)" for xs using that by auto
  have "lp_bytes q ?lp = e" unfolding lp_bytes_def fld small(3) by (rule new)
  then show "entries q = take k (entries p) @ e # drop k (entries p)"
    unfolding entries_def l by (simp only: map_append list.map m [OF sets(1)] m [OF sets(2)] take_map drop_map)
qed

text \<open>A page whose array lost some entries; the bytes stay.\<close>

lemma shrunk_page:
  assumes ok: "bt_ok p" and g: "geometry_ok q" and sp: "special_of q = 8176" and up: "upper_of q = upper_of p"
    and l: "lps q = take i (lps p) @ drop j (lps p)" and ij: "i \<le> j"
    and old: "\<And>a b. upper_of p \<le> a \<Longrightarrow> b \<le> 8176 \<Longrightarrow> slice_of q a b = slice_of p a b"
  shows "bt_ok q" and "entries q = take i (entries p) @ drop j (entries p)"
proof -
  have all: "lp_ok (upper_of p) lp" if "lp \<in> set (lps p)" for lp
    using bt_okD(4) [OF ok] that by (simp add: list_all_iff)
  have sets: "set (take i (lps p)) \<subseteq> set (lps p)" "set (drop j (lps p)) \<subseteq> set (lps p)"
    by (auto dest: in_set_takeD in_set_dropD)
  have "drop j (lps p) = drop (j - i) (drop i (lps p))" using ij by simp
  then have sub: "set (drop j (lps p)) \<subseteq> set (drop i (lps p))" by (metis set_drop_subset)
  have "sorted_wrt lp_apart (take i (lps p) @ drop i (lps p))" using bt_okD(5) [OF ok] by simp
  then have "sorted_wrt lp_apart (lps q)"
    unfolding l sorted_wrt_append using sub bt_okD(5) [OF ok] by (auto intro: sorted_wrt_drop)
  moreover have "list_all (lp_ok (upper_of q)) (lps q)" using sets all unfolding l up list_all_iff by auto
  ultimately show "bt_ok q" using g sp by (simp add: bt_ok_def)
  have "lp_bytes q lp = lp_bytes p lp" if "lp \<in> set (lps p)" for lp
    unfolding lp_bytes_def using all [OF that] by (intro old) (auto simp: lp_ok_def)
  then have m: "map (lp_bytes q) xs = map (lp_bytes p) xs" if "set xs \<subseteq> set (lps p)" for xs using that by auto
  show "entries q = take i (entries p) @ drop j (entries p)"
    unfolding entries_def l by (simp only: map_append m [OF sets(1)] m [OF sets(2)] take_map drop_map)
qed

text \<open>Reading inside a block that was copied.\<close>

lemma slice_of_copied:
  assumes "b \<le> length p" and "d + (b - a) \<le> length p" and "d \<le> c" and "e \<le> d + (b - a)" and "a \<le> b" and "c \<le> e"
  shows "slice_of (copy_within p a b d) c e = slice_of p (a + (c - d)) (a + (e - d))"
proof (rule nth_equalityI)
  show "length (slice_of (copy_within p a b d) c e) = length (slice_of p (a + (c - d)) (a + (e - d)))"
    using assms by (simp add: copy_within_def)
next
  fix i assume "i < length (slice_of (copy_within p a b d) c e)"
  then have i: "c + i < e" using assms by (simp add: copy_within_def)
  have "slice_of (copy_within p a b d) c e ! i = write_at p d (slice_of p a b) ! (c + i)"
    using assms i unfolding copy_within_def by (subst nth_slice_of) simp_all
  also have "\<dots> = slice_of p a b ! (c + i - d)"
    using assms i by (subst nth_write_at) auto
  also have "\<dots> = p ! (a + (c + i - d))"
    using assms i by (subst nth_slice_of) auto
  also have "a + (c + i - d) = a + (c - d) + i" using assms by simp
  also have "p ! (a + (c - d) + i) = slice_of p (a + (c - d)) (a + (e - d)) ! i"
    using assms i by (subst nth_slice_of) auto
  finally show "slice_of (copy_within p a b d) c e ! i = slice_of p (a + (c - d)) (a + (e - d)) ! i" .
qed

lemma slice_of_copy_disjoint:
  assumes "b \<le> length p" and "d + (b - a) \<le> length p" and "a \<le> b" and "e \<le> length p"
    and "e \<le> d \<or> d + (b - a) \<le> c"
  shows "slice_of (copy_within p a b d) c e = slice_of p c e"
  unfolding copy_within_def using assms by (intro slice_of_write_disjoint) auto

lemma lp_at_slice: "lp_at p s = le_word (slice_of p (32 + 4 * s) (36 + 4 * s))"
  by (simp add: lp_at_def lp_from_le_bytes_def page_consts mult.commute)

text \<open>Shifting the tail of the array one place right, or left.\<close>

lemma lp_at_shift_right:
  assumes "length p = 8192" and "k \<le> n" and "36 + 4 * n \<le> 8192"
  shows "s < k \<Longrightarrow> lp_at (copy_within p (32 + 4 * k) (32 + 4 * n) (36 + 4 * k)) s = lp_at p s"
    and "k < s \<Longrightarrow> s \<le> n \<Longrightarrow> lp_at (copy_within p (32 + 4 * k) (32 + 4 * n) (36 + 4 * k)) s = lp_at p (s - 1)"
proof -
  show "lp_at (copy_within p (32 + 4 * k) (32 + 4 * n) (36 + 4 * k)) s = lp_at p s" if "s < k"
    unfolding lp_at_slice using assms that by (subst slice_of_copy_disjoint) auto
  show "lp_at (copy_within p (32 + 4 * k) (32 + 4 * n) (36 + 4 * k)) s = lp_at p (s - 1)" if "k < s" "s \<le> n"
  proof -
    have "slice_of (copy_within p (32 + 4 * k) (32 + 4 * n) (36 + 4 * k)) (32 + 4 * s) (36 + 4 * s) =
      slice_of p (32 + 4 * k + (32 + 4 * s - (36 + 4 * k))) (32 + 4 * k + (36 + 4 * s - (36 + 4 * k)))"
      using assms that by (intro slice_of_copied) auto
    moreover have "32 + 4 * k + (32 + 4 * s - (36 + 4 * k)) = 32 + 4 * (s - 1)"
      "32 + 4 * k + (36 + 4 * s - (36 + 4 * k)) = 36 + 4 * (s - 1)" using that by auto
    ultimately show ?thesis unfolding lp_at_slice by simp
  qed
qed

lemma lp_at_shift_left:
  assumes "length p = 8192" and "k < n" and "32 + 4 * n \<le> 8192"
  shows "s < k \<Longrightarrow> lp_at (copy_within p (36 + 4 * k) (32 + 4 * n) (32 + 4 * k)) s = lp_at p s"
    and "k \<le> s \<Longrightarrow> s + 1 < n \<Longrightarrow> lp_at (copy_within p (36 + 4 * k) (32 + 4 * n) (32 + 4 * k)) s = lp_at p (s + 1)"
proof -
  show "lp_at (copy_within p (36 + 4 * k) (32 + 4 * n) (32 + 4 * k)) s = lp_at p s" if "s < k"
    unfolding lp_at_slice using assms that by (subst slice_of_copy_disjoint) auto
  show "lp_at (copy_within p (36 + 4 * k) (32 + 4 * n) (32 + 4 * k)) s = lp_at p (s + 1)" if "k \<le> s" "s + 1 < n"
  proof -
    obtain j where j: "s = k + j" using \<open>k \<le> s\<close> le_Suc_ex by blast
    have "slice_of (copy_within p (36 + 4 * k) (32 + 4 * n) (32 + 4 * k)) (32 + 4 * s) (36 + 4 * s) =
      slice_of p (36 + 4 * k + (32 + 4 * s - (32 + 4 * k))) (36 + 4 * k + (36 + 4 * s - (32 + 4 * k)))"
      using assms that by (intro slice_of_copied) auto
    then show ?thesis unfolding lp_at_slice by (simp add: j algebra_simps)
  qed
qed

section \<open>Insertion, removal and truncation\<close>

definition insert_write :: "page \<Rightarrow> nat \<Rightarrow> u8 list \<Rightarrow> page" where
  "insert_write page k entry =
     (let new_upper = upper_of page - length entry;
          shifted = copy_within (write_at page new_upper entry) (32 + 4 * k) (32 + 4 * slot_count page) (36 + 4 * k);
          linked = write_at shifted (32 + 4 * k) (lp_to_le_bytes (lp_new (of_nat new_upper) Normal (of_nat (length entry))))
      in set_pd_upper (set_pd_lower linked (pd_lower (page_header page) + 4)) (of_nat new_upper))"

lemma insert_write_effect:
  assumes ok: "bt_ok p" and k: "k \<le> slot_count p" and e: "e \<noteq> []" and room: "length e + 4 \<le> free_space p"
  shows "length (insert_write p k e) = 8192" and "lower_of (insert_write p k e) = lower_of p + 4"
    and "upper_of (insert_write p k e) = upper_of p - length e" and "special_of (insert_write p k e) = 8176"
    and "pd_flags (page_header (insert_write p k e)) = pd_flags (page_header p)"
    and "page_pd_lsn (insert_write p k e) = page_pd_lsn p"
    and "s \<le> slot_count p \<Longrightarrow> lp_at (insert_write p k e) s =
      (if s < k then lp_at p s else if s = k then lp_new (of_nat (upper_of p - length e)) Normal (of_nat (length e))
       else lp_at p (s - 1))"
    and "slice_of (insert_write p k e) (upper_of p - length e) (upper_of p) = e"
    and "upper_of p \<le> a \<Longrightarrow> b \<le> 8192 \<Longrightarrow> slice_of (insert_write p k e) a b = slice_of p a b"
proof -
  let ?n = "upper_of p - length e" and ?c = "slot_count p"
  let ?lp = "lp_new (of_nat ?n) Normal (of_nat (length e))"
  define p1 where "p1 = write_at p ?n e"
  define p2 where "p2 = copy_within p1 (32 + 4 * k) (32 + 4 * ?c) (36 + 4 * k)"
  define p3 where "p3 = write_at p2 (32 + 4 * k) (lp_to_le_bytes ?lp)"
  note geo = geometry_bounds [OF bt_okD(1) [OF ok]] and low = lower_slots [OF bt_okD(1) [OF ok]]
  have fit: "36 + 4 * ?c \<le> ?n" "?n + length e = upper_of p" using room low by (auto simp: free_space_def)
  have small: "36 + 4 * ?c \<le> 8192" "upper_of p \<le> 8192" using fit geo by linarith+
  have q: "insert_write p k e = set_pd_upper (set_pd_lower p3 (pd_lower (page_header p) + 4)) (of_nat ?n)"
    by (simp add: insert_write_def p1_def p2_def p3_def Let_def)
  have l1: "length p1 = 8192" using fit geo by (simp add: p1_def)
  have h1: "page_header p1 = page_header p"
    unfolding p1_def using fit geo by (intro header_fields_write) (auto simp: page_consts)
  have cp: "32 + 4 * ?c \<le> length p1" "36 + 4 * k + (32 + 4 * ?c - (32 + 4 * k)) \<le> length p1" "32 + 4 * k \<le> 32 + 4 * ?c"
    using l1 k small by auto
  have l2: "length p2 = 8192" using l1 cp k by (simp add: p2_def copy_within_def)
  have h2: "page_header p2 = page_header p" unfolding p2_def copy_within_def h1 [symmetric]
    using cp k by (intro header_fields_write) (auto simp: page_consts)
  have l3: "length p3 = 8192" using l2 k small by (simp add: p3_def lp_to_le_bytes_def)
  have h3: "page_header p3 = page_header p" unfolding p3_def h2 [symmetric]
    using l2 k small by (intro header_fields_write) (auto simp: page_consts lp_to_le_bytes_def)
  have len: "PAGE_HEADER_SIZE \<le> length p3" "PAGE_HEADER_SIZE \<le> length (set_pd_lower p3 v)" for v
    using l3 by (simp_all add: set_pd_simps page_consts)
  note w = set_pd_simps [OF len(1)] set_pd_simps [OF len(2)]
  show "length (insert_write p k e) = 8192" unfolding q w(9) w(10) w(1) l3 ..
  have hq: "page_header (insert_write p k e) = (page_header p)\<lparr>pd_lower := pd_lower (page_header p) + 4, pd_upper := of_nat ?n\<rparr>"
    unfolding q w h3 by simp
  have "unat (pd_lower (page_header p) + 4) = lower_of p + 4" using geo by (simp add: unat_word_ariths)
  then show "lower_of (insert_write p k e) = lower_of p + 4"
    "upper_of (insert_write p k e) = upper_of p - length e" "special_of (insert_write p k e) = 8176"
    "pd_flags (page_header (insert_write p k e)) = pd_flags (page_header p)"
    using small bt_okD(2) [OF ok] by (simp_all add: hq del: of_nat_diff)
  have "pd_lsn (page_header (insert_write p k e)) = pd_lsn (page_header p)" by (simp add: hq)
  then show "page_pd_lsn (insert_write p k e) = page_pd_lsn p" by (simp add: page_header_def header_read_from_def)
  have sl: "slice_of (insert_write p k e) a b = slice_of p1 a b" if "36 + 4 * ?c \<le> a" "b \<le> 8192" for a b
  proof -
    have "slice_of (insert_write p k e) a b = slice_of p3 a b"
      unfolding q using that l3 by (simp add: set_pd_simps page_consts)
    also have "\<dots> = slice_of p2 a b"
      unfolding p3_def using that l2 k small by (intro slice_of_write_disjoint) (auto simp: lp_to_le_bytes_def)
    also have "\<dots> = slice_of p1 a b"
      unfolding p2_def using that l1 k small by (intro slice_of_copy_disjoint) auto
    finally show ?thesis .
  qed
  show "slice_of (insert_write p k e) ?n (upper_of p) = e"
    using sl [of ?n "upper_of p"] fit small geo by (simp add: p1_def slice_of_write_same)
  show "slice_of (insert_write p k e) a b = slice_of p a b" if "upper_of p \<le> a" "b \<le> 8192"
    using sl [of a b] that fit geo by (simp add: p1_def slice_of_write_disjoint)
  show "lp_at (insert_write p k e) s = (if s < k then lp_at p s else if s = k then ?lp else lp_at p (s - 1))"
    if s: "s \<le> ?c"
  proof -
    have ss: "36 + 4 * s \<le> 8192" "36 + 4 * s \<le> ?n" using s small fit by linarith+
    have "lp_at (insert_write p k e) s = lp_at p3 s" unfolding q using l3 ss by (simp add: set_pd_simps page_consts)
    also have "\<dots> = (if s = k then ?lp else lp_at p2 s)"
      using s k ss l2 set_line_pointer_simps(3) [of "of_nat k" p2 s ?lp] small
      by (simp add: p3_def set_line_pointer_def page_consts mult.commute)
    also have "\<dots> = (if s < k then lp_at p1 s else if s = k then ?lp else lp_at p1 (s - 1))"
      unfolding p2_def using lp_at_shift_right [OF l1 k small(1), of s] s by auto
    also have "lp_at p1 t = lp_at p t" if "t \<le> s" for t
      unfolding p1_def using that ss fit geo by (intro lp_at_write) auto
    then have "(if s < k then lp_at p1 s else if s = k then ?lp else lp_at p1 (s - 1)) =
      (if s < k then lp_at p s else if s = k then ?lp else lp_at p (s - 1))" by simp
    finally show ?thesis .
  qed
qed

lemma list_insert_nth:
  assumes "k \<le> length xs" and "length ys = Suc (length xs)"
    and "\<And>i. i \<le> length xs \<Longrightarrow> ys ! i = (if i < k then xs ! i else if i = k then x else xs ! (i - 1))"
  shows "ys = take k xs @ x # drop k xs"
  by (rule nth_equalityI) (use assms in \<open>auto simp: nth_append min_def nth_Cons' nth_drop\<close>)

lemma insert_write_node:
  assumes ok: "bt_ok p" and k: "k \<le> slot_count p" and e: "e \<noteq> []" and room: "length e + 4 \<le> free_space p"
  shows "bt_ok (insert_write p k e)"
    and "node (insert_write p k e) = (node p)\<lparr>node_entries := take k (entries p) @ e # drop k (entries p)\<rparr>"
    and "upper_of (insert_write p k e) = upper_of p - length e"
    and "slot_count (insert_write p k e) = slot_count p + 1"
proof -
  let ?q = "insert_write p k e"
  let ?lp = "lp_new (of_nat (upper_of p - length e)) Normal (of_nat (length e))"
  note eff = insert_write_effect [OF ok k e room]
  note geo = geometry_bounds [OF bt_okD(1) [OF ok]] and low = lower_slots [OF bt_okD(1) [OF ok]]
  show up: "upper_of ?q = upper_of p - length e" by (rule eff(3))
  show cnt: "slot_count ?q = slot_count p + 1"
    unfolding slot_count_def eff(2) using geo by (simp add: page_consts)
  have fit: "lower_of p + 4 + length e \<le> upper_of p" using room by (auto simp: free_space_def)
  have g: "geometry_ok ?q"
    unfolding geometry_ok_def eff(1-4) using fit geo low bt_okD(2) [OF ok] by (auto simp: page_consts)
  have l: "lps ?q = take k (lps p) @ ?lp # drop k (lps p)"
    by (rule list_insert_nth) (use k cnt eff(7) in auto)
  have le: "length e \<le> upper_of p" using fit by linarith
  have old: "slice_of ?q a b = slice_of p a b" if "upper_of p \<le> a" "b \<le> 8176" for a b
    using that by (intro eff(9)) linarith+
  have ext: "bt_ok ?q" "entries ?q = take k (entries p) @ e # drop k (entries p)"
    by (rule extended_page [OF ok g eff(4) up e le l]; (rule old eff(8))?; assumption?)+
  show "bt_ok ?q" by (rule ext(1))
  have a: "upper_of p \<le> 8176" using geo bt_okD(2) [OF ok] by linarith
  show "node ?q = (node p)\<lparr>node_entries := take k (entries p) @ e # drop k (entries p)\<rparr>"
    using eff(9) [of 8176 8184] eff(9) [of 8184 8192] a unfolding node_def ext(2) eff(5,6) by simp
qed

lemma insert_entry_at_eq:
  assumes ok: "bt_ok p" and e: "e \<noteq> []" and k: "unat slot \<le> slot_count p"
  shows "insert_entry_at p slot e =
    (if 8140 < length e then Err (KeyTooLarge (length e))
     else if free_space p < length e + 4 then Err (PageFull (length e + 4) (free_space p))
     else Ok (insert_write p (unat slot) e))"
proof -
  have c: "(lower_of p - PAGE_HEADER_SIZE) div LINE_POINTER_SIZE = slot_count p" by (simp add: slot_count_def)
  have m: "PAGE_SIZE - BTREE_SPECIAL_SIZE - (PAGE_HEADER_SIZE + LINE_POINTER_SIZE) = 8140"
    by (simp add: page_consts BTREE_SPECIAL_SIZE_def HEAP_SPECIAL_SIZE_def)
  have "insert_entry_at p slot e =
    (if 8140 < length e then Err (KeyTooLarge (length e))
     else if free_space p < length e + 4 then Err (PageFull (length e + 4) (free_space p))
     else asserted (insert_write p (unat slot) e))"
    unfolding insert_entry_at_def bt_checked_header_ok [OF ok] obind.simps Let_def c m
      free_space_word [OF bt_okD(1) [OF ok]] insert_write_def set_pd_upper_def set_pd_lower_def
    using e k by (simp add: page_consts mult.commute algebra_simps del: of_nat_diff)
  then show ?thesis using asserted_ok [OF insert_write_node(1) [OF ok k e]] by simp
qed

text \<open>The two ways to write a smaller \<^verbatim>\<open>pd_lower\<close>: after a shift, or on its own.\<close>

lemma lower_write_node:
  fixes v :: u16
  assumes ok: "bt_ok p" and v: "unat v = 32 + 4 * (i + (slot_count p - j))" and ij: "i \<le> j" "j \<le> slot_count p"
    and len: "length r = 8192" and hdr: "page_header r = page_header p"
    and lp: "\<And>s. s < i \<Longrightarrow> lp_at r s = lp_at p s"
    and lp': "\<And>s. i \<le> s \<Longrightarrow> s < i + (slot_count p - j) \<Longrightarrow> lp_at r s = lp_at p (s + (j - i))"
    and sl: "\<And>a b. lower_of p \<le> a \<Longrightarrow> b \<le> 8192 \<Longrightarrow> slice_of r a b = slice_of p a b"
  shows "bt_ok (write_at r 14 (le_bytes 2 v))"
    and "node (write_at r 14 (le_bytes 2 v)) = (node p)\<lparr>node_entries := take i (entries p) @ drop j (entries p)\<rparr>"
    and "upper_of (write_at r 14 (le_bytes 2 v)) = upper_of p"
proof -
  let ?q = "write_at r 14 (le_bytes 2 v)"
  note geo = geometry_bounds [OF bt_okD(1) [OF ok]] and low = lower_slots [OF bt_okD(1) [OF ok]] and sp = bt_okD(2) [OF ok]
  have h: "PAGE_HEADER_SIZE \<le> length r" using len by (simp add: page_consts)
  note w = set_pd_simps [OF h, unfolded set_pd_lower_def]
  have hq: "page_header ?q = (page_header p)\<lparr>pd_lower := v\<rparr>" using w(3) hdr by simp
  show up: "upper_of ?q = upper_of p" by (simp add: hq)
  have n: "i + (slot_count p - j) \<le> slot_count p" using ij by simp
  have cnt: "slot_count ?q = i + (slot_count p - j)" by (simp add: slot_count_def hq v page_consts)
  have g: "geometry_ok ?q" unfolding geometry_ok_def hq using geo low sp n len by (simp add: page_consts v)
  have sp': "special_of ?q = 8176" by (simp add: hq sp)
  have "lps ?q = take i (lps p) @ drop j (lps p)"
  proof (rule nth_equalityI)
    fix s assume "s < length (lps ?q)"
    then have s: "s < i + (slot_count p - j)" using cnt by simp
    then have "36 + 4 * s \<le> 8192" using n low geo by linarith
    then have "lps ?q ! s = lp_at r s" using s cnt w(5) [of s] len by simp
    then show "lps ?q ! s = (take i (lps p) @ drop j (lps p)) ! s"
      using s ij lp [of s] lp' [of s] by (auto simp: nth_append min_def not_less add.commute nth_drop)
  qed (use cnt ij in simp)
  moreover have old: "slice_of ?q a b = slice_of p a b" if "upper_of p \<le> a" "b \<le> 8192" for a b
    using that geo sl [of a b] w(7) [of a b] len by (simp add: page_consts)
  ultimately have sh: "bt_ok ?q" "entries ?q = take i (entries p) @ drop j (entries p)"
    using shrunk_page [OF ok g sp' up _ ij(1)] by simp_all
  show "bt_ok ?q" by (rule sh(1))
  have "pd_flags (page_header ?q) = pd_flags (page_header p)" "pd_lsn (page_header ?q) = pd_lsn (page_header p)"
    by (simp_all add: hq)
  then have "page_pd_lsn ?q = page_pd_lsn p" "pd_flags (page_header ?q) = pd_flags (page_header p)"
    by (simp_all add: page_header_def header_read_from_def)
  then show "node ?q = (node p)\<lparr>node_entries := take i (entries p) @ drop j (entries p)\<rparr>"
    using old [of 8176 8184] old [of 8184 8192] geo sp unfolding node_def sh(2) by simp
qed

lemma bt_free_space:
  assumes "bt_ok p"
  shows "free_space p \<le> 8144" and "free_space p = upper_of p - (32 + 4 * slot_count p)"
  using geometry_bounds [OF bt_okD(1) [OF assms]] lower_slots [OF bt_okD(1) [OF assms]] bt_okD(2) [OF assms]
  by (auto simp: free_space_def)

lemma insert_entry_at_Ok_iff:
  assumes ok: "bt_ok p"
  shows "insert_entry_at p slot e = Ok q \<longleftrightarrow> e \<noteq> [] \<and> unat slot \<le> slot_count p \<and>
    length e + 4 \<le> free_space p \<and> q = insert_write p (unat slot) e"
proof (cases "e \<noteq> [] \<and> unat slot \<le> slot_count p")
  case True
  then show ?thesis using bt_free_space(1) [OF ok] by (auto simp: insert_entry_at_eq [OF ok])
next
  case False
  have c: "(lower_of p - PAGE_HEADER_SIZE) div LINE_POINTER_SIZE = slot_count p" by (simp add: slot_count_def)
  show ?thesis
    using False unfolding insert_entry_at_def bt_checked_header_ok [OF ok] obind.simps Let_def c by auto
qed

lemma insert_entry_at_node:
  assumes ok: "bt_ok p" and i: "insert_entry_at p slot e = Ok q"
  shows "bt_ok q" and "unat slot \<le> slot_count p" and "length e + 4 \<le> free_space p"
    and "node q = (node p)\<lparr>node_entries := take (unat slot) (entries p) @ e # drop (unat slot) (entries p)\<rparr>"
    and "free_space q = free_space p - (length e + 4)"
proof -
  have c: "e \<noteq> []" "unat slot \<le> slot_count p" "length e + 4 \<le> free_space p" "q = insert_write p (unat slot) e"
    using i by (simp_all add: insert_entry_at_Ok_iff [OF ok])
  note n = insert_write_node [OF ok c(2) c(1) c(3), folded c(4)]
  show "bt_ok q" "unat slot \<le> slot_count p" "length e + 4 \<le> free_space p"
    "node q = (node p)\<lparr>node_entries := take (unat slot) (entries p) @ e # drop (unat slot) (entries p)\<rparr>"
    using n c by simp_all
  show "free_space q = free_space p - (length e + 4)"
    using bt_free_space(2) [OF ok] bt_free_space(2) [OF n(1)] n(3,4) by simp
qed

lemma remove_entry_at_node:
  assumes ok: "bt_ok p"
  shows "unat slot < slot_count p \<Longrightarrow>
      \<exists>q. remove_entry_at p slot = Ok q \<and> bt_ok q \<and> upper_of q = upper_of p \<and>
        node q = (node p)\<lparr>node_entries := take (unat slot) (entries p) @ drop (Suc (unat slot)) (entries p)\<rparr>"
    and "slot_count p \<le> unat slot \<Longrightarrow> remove_entry_at p slot = Err Corrupted"
proof -
  let ?c = "slot_count p" and ?k = "unat slot"
  let ?r = "copy_within p (36 + 4 * ?k) (32 + 4 * ?c) (32 + 4 * ?k)" and ?v = "pd_lower (page_header p) - 4"
  note geo = geometry_bounds [OF bt_okD(1) [OF ok]] and low = lower_slots [OF bt_okD(1) [OF ok]] and sp = bt_okD(2) [OF ok]
  have c: "(lower_of p - PAGE_HEADER_SIZE) div LINE_POINTER_SIZE = ?c" by (simp add: slot_count_def)
  note unf = remove_entry_at_def bt_checked_header_ok [OF ok] obind.simps Let_def c
  show "slot_count p \<le> unat slot \<Longrightarrow> remove_entry_at p slot = Err Corrupted" unfolding unf by simp
  assume k: "?k < ?c"
  have small: "32 + 4 * ?c \<le> 8192" using low geo by linarith
  have r: "remove_entry_at p slot = asserted (write_at ?r 14 (le_bytes 2 ?v))"
    unfolding unf using k by (simp add: page_consts mult.commute)
  have len: "length ?r = 8192" using geo k small by (simp add: copy_within_def)
  have hdr: "page_header ?r = page_header p"
    unfolding copy_within_def using geo k small by (intro header_fields_write) (auto simp: page_consts)
  have v: "unat ?v = 32 + 4 * (?k + (?c - Suc ?k))"
    using low k by (simp add: unat_sub word_le_nat_alt)
  have lp: "lp_at ?r s = lp_at p s" if "s < ?k" for s using lp_at_shift_left(1) [of p ?k ?c s] geo k small that by simp
  have lp': "lp_at ?r s = lp_at p (s + (Suc ?k - ?k))" if "?k \<le> s" "s < ?k + (?c - Suc ?k)" for s
    using lp_at_shift_left(2) [of p ?k ?c s] geo k small that by simp
  have sl: "slice_of ?r a b = slice_of p a b" if "lower_of p \<le> a" "b \<le> 8192" for a b
    using that geo low k small by (intro slice_of_copy_disjoint) auto
  have "bt_ok (write_at ?r 14 (le_bytes 2 ?v)) \<and>
    node (write_at ?r 14 (le_bytes 2 ?v)) = (node p)\<lparr>node_entries := take ?k (entries p) @ drop (Suc ?k) (entries p)\<rparr> \<and>
    upper_of (write_at ?r 14 (le_bytes 2 ?v)) = upper_of p"
    by (intro conjI; rule lower_write_node [OF ok v _ _ len hdr lp lp' sl]) (use k in auto)
  then show "\<exists>q. remove_entry_at p slot = Ok q \<and> bt_ok q \<and> upper_of q = upper_of p \<and>
      node q = (node p)\<lparr>node_entries := take ?k (entries p) @ drop (Suc ?k) (entries p)\<rparr>"
    using r asserted_ok by auto
qed

lemma truncate_slots_node:
  assumes ok: "bt_ok p"
  shows "unat keep \<le> slot_count p \<Longrightarrow>
      \<exists>q. truncate_slots p keep = Ok q \<and> bt_ok q \<and> upper_of q = upper_of p \<and>
        node q = (node p)\<lparr>node_entries := take (unat keep) (entries p)\<rparr>"
    and "slot_count p < unat keep \<Longrightarrow> truncate_slots p keep = Err Corrupted"
proof -
  let ?v = "of_nat (32 + 4 * unat keep) :: u16"
  have c: "(lower_of p - PAGE_HEADER_SIZE) div LINE_POINTER_SIZE = slot_count p" by (simp add: slot_count_def)
  note unf = truncate_slots_def bt_checked_header_ok [OF ok] obind.simps Let_def c
  show "slot_count p < unat keep \<Longrightarrow> truncate_slots p keep = Err Corrupted" unfolding unf by simp
  assume k: "unat keep \<le> slot_count p"
  have "32 + 4 * unat keep < 65536"
    using k lower_slots [OF bt_okD(1) [OF ok]] unsigned_less [of "pd_lower (page_header p)", where 'a = nat] by simp
  then have v: "unat ?v = 32 + 4 * (unat keep + (slot_count p - slot_count p))" by (simp del: of_nat_add of_nat_mult)
  have t: "truncate_slots p keep = asserted (write_at p 14 (le_bytes 2 ?v))"
    unfolding unf using k by (simp add: page_consts mult.commute)
  have "take (unat keep) (entries p) @ drop (slot_count p) (entries p) = take (unat keep) (entries p)" by simp
  with lower_write_node [OF ok v k order_refl bt_okD(3) [OF ok] refl] t asserted_ok [of "write_at p 14 (le_bytes 2 ?v)"]
  show "\<exists>q. truncate_slots p keep = Ok q \<and> bt_ok q \<and> upper_of q = upper_of p \<and>
      node q = (node p)\<lparr>node_entries := take (unat keep) (entries p)\<rparr>" by auto
qed

section \<open>Appending and reading through the heap primitives\<close>

text \<open>A page without unused slots: \<^verbatim>\<open>SlottedPage::add_tuple\<close> appends.\<close>

lemma add_tuple_node:
  assumes ok: "bt_ok p" and e: "e \<noteq> []" and room: "length e + 4 \<le> free_space p"
  shows "\<exists>q. add_tuple p e = Ok (q, of_nat (slot_count p)) \<and> bt_ok q \<and>
    node q = (node p)\<lparr>node_entries := entries p @ [e]\<rparr> \<and> free_space q = free_space p - (length e + 4)"
proof -
  let ?s = "of_nat (slot_count p) :: u16" and ?q = "add_write p (of_nat (slot_count p)) e"
  let ?lp = "lp_new (of_nat (upper_of p - length e)) Normal (of_nat (length e))"
  note g = bt_okD(1) [OF ok] and po = bt_ok_page_ok [OF ok]
  note geo = geometry_bounds [OF g] and low = lower_slots [OF g]
  have s: "unat ?s = slot_count p" using low geo by simp
  have guard: "add_guard p ?s e" using e room by (simp add: add_guard_def s po(2) LINE_POINTER_SIZE_def)
  have "min (lower_of p) PAGE_SIZE = lower_of p" using geo by (simp add: PAGE_SIZE_def)
  then have "first_fit_slot p = None"
    using bt_ok_lp [OF ok] by (auto simp: first_fit_slot_def Let_def find_None_iff slot_count_def [symmetric] lp_ok_def)
  moreover have "add_tuple_at p ?s e = Ok ?q"
    using guard add_room(4) [OF g guard] by (simp add: add_tuple_at_Ok_iff [OF g])
  ultimately have a: "add_tuple p e = Ok (?q, ?s)" by (simp add: add_tuple_def Let_def)
  note hdr = add_write_header [OF g guard] and eff = add_write_effect [OF g guard] and fr = add_write_frame [OF g guard]
  have up: "upper_of ?q = upper_of p - length e" by (rule hdr(2))
  have le: "length e \<le> upper_of p" using room by (simp add: free_space_def)
  have sp: "special_of ?q = 8176" using hdr(3) bt_okD(2) [OF ok] by simp
  have cnt: "slot_count ?q = Suc (slot_count p)" using eff(2) s by simp
  have l: "lps ?q = take (slot_count p) (lps p) @ ?lp # drop (slot_count p) (lps p)"
    by (rule list_insert_nth) (use eff(3) s cnt in auto)
  have old: "slice_of ?q a b = slice_of p a b" if "upper_of p \<le> a" "b \<le> 8192" for a b using that by (rule eff(5))
  have ext: "bt_ok ?q" "entries ?q = take (slot_count p) (entries p) @ e # drop (slot_count p) (entries p)"
    by (rule extended_page [OF ok eff(1) sp up e le l]; (rule old eff(4))?; linarith?)+
  have "pd_flags (page_header ?q) = pd_flags (page_header p)" "pd_lsn (page_header ?q) = pd_lsn (page_header p)"
    using add_body_effect(1,2) [OF g guard] by (simp_all add: add_write_def Let_def set_pd_simps page_consts)
  then have n: "node ?q = (node p)\<lparr>node_entries := entries p @ [e]\<rparr>"
    using old [of 8176 8184] old [of 8184 8192] geo bt_okD(2) [OF ok]
    unfolding node_def ext(2) by (simp add: page_header_def header_read_from_def)
  have "free_space ?q = free_space p - (length e + 4)"
    using bt_free_space(2) [OF ok] bt_free_space(2) [OF ext(1)] up cnt by simp
  then show ?thesis using a ext(1) n by blast
qed

text \<open>\<^verbatim>\<open>entry_bytes\<close> of \<^verbatim>\<open>index.rs\<close>: the live entry of a slot.\<close>

definition entry_bytes :: "page \<Rightarrow> u16 \<Rightarrow> u8 list btree_result" where
  "entry_bytes page slot =
     obind (from_heap (tuple_at page slot)) (\<lambda>t. case t of Some bytes \<Rightarrow> Ok bytes | None \<Rightarrow> Err Corrupted)"

lemma entry_bytes_eq:
  assumes ok: "bt_ok p"
  shows "entry_bytes p slot = (if unat slot < slot_count p then Ok (entries p ! unat slot) else Err Corrupted)"
proof -
  note po = bt_ok_page_ok [OF ok]
  have nr: "lp_flags (lp_at p s) \<noteq> Redirect" if "used p s" for s
    using bt_ok_lp [OF ok] that by (auto simp: po(2) lp_ok_def)
  show ?thesis
    using bt_ok_lp [OF ok, of "unat slot"] tuple_at_correct [OF po(1) nr, of slot]
    by (auto simp: entry_bytes_def tuples_def po(2) entries_def lp_bytes_def lp_ok_def)
qed

section \<open>The steps of a split\<close>

lemma nibble_le: "f \<le> 15 \<longleftrightarrow> take_bit 4 f = f" for f :: u8
proof -
  have "take_bit 4 f = f \<longleftrightarrow> take_bit 4 (unat f) = unat f"
    by (simp add: word_unat_eq_iff unsigned_take_bit_eq)
  also have "\<dots> \<longleftrightarrow> unat f < 2 ^ 4" by (rule take_bit_nat_eq_self_iff)
  finally show ?thesis by (auto simp: word_le_nat_alt)
qed

lemma nibble_ops:
  fixes f g :: u8
  assumes "f \<le> 15"
  shows "g \<le> 15 \<Longrightarrow> f OR g \<le> 15" and "f AND g \<le> 15"
proof -
  show "f OR g \<le> 15" if "g \<le> 15" using assms that by (simp add: nibble_le)
  have "take_bit 4 (f AND g) = take_bit 4 f AND g"
    by (rule bit_word_eqI) (auto simp: bit_take_bit_iff bit_and_iff)
  then show "f AND g \<le> 15" using assms by (simp add: nibble_le)
qed

lemma node_flags_nibble: "node_flags (node p) \<le> 15" "node_level (node p) \<le> 15"
proof -
  have "take_bit 4 (ucast (w AND 0xF) :: u8) = ucast (w AND 0xF)" for w :: u16
  proof -
    have m: "(0xF :: u16) = mask 4" by (simp add: mask_eq_exp_minus_1)
    show ?thesis unfolding m
      by (rule bit_word_eqI) (auto simp: bit_take_bit_iff bit_and_iff bit_unsigned_iff bit_mask_iff)
  qed
  then show "node_flags (node p) \<le> 15" "node_level (node p) \<le> 15"
    unfolding nibble_le node_def by simp_all
qed

lemma set_flag_node:
  assumes ok: "bt_ok p" and f: "flag \<le> 15"
  shows "\<exists>q. set_flag p flag on = Ok q \<and> bt_ok q \<and> upper_of q = upper_of p \<and>
    node q = (node p)\<lparr>node_flags := (if on then node_flags (node p) OR flag else node_flags (node p) AND NOT flag)\<rparr>"
proof -
  have "(if on then node_flags (node p) OR flag else node_flags (node p) AND NOT flag) \<le> 15"
    using nibble_ops [OF node_flags_nibble(1)] f by simp
  from set_flags_node [OF ok this] show ?thesis by (auto simp: set_flag_def bt_readers [OF ok])
qed

text \<open>What Prepare, Commit and the initialisation of the right page do to a node.\<close>

lemma apply_prepare_left_node:
  assumes ok: "bt_ok p"
  shows "\<exists>q. apply_prepare_left p r = Ok q \<and> bt_ok q \<and> upper_of q = upper_of p \<and>
    node q = (node p)\<lparr>node_flags := node_flags (node p) OR BTREE_FLAG_SPLIT_INCOMPLETE, node_next := r\<rparr>"
proof -
  have up: "pd_upper (page_header p) \<noteq> 0" using geometry_bounds [OF bt_okD(1) [OF ok]] by auto
  obtain q where q: "set_flag p BTREE_FLAG_SPLIT_INCOMPLETE True = Ok q" "bt_ok q" "upper_of q = upper_of p"
    "node q = (node p)\<lparr>node_flags := node_flags (node p) OR BTREE_FLAG_SPLIT_INCOMPLETE\<rparr>"
    using set_flag_node [OF ok, of BTREE_FLAG_SPLIT_INCOMPLETE True] by (auto simp: BTREE_FLAG_SPLIT_INCOMPLETE_def)
  from set_links_node(2) [OF q(2), of r] show ?thesis
    using q up by (auto simp: apply_prepare_left_def bt_checked_header_ok [OF ok])
qed

lemma apply_commit_left_node:
  assumes ok: "bt_ok p"
  shows "\<exists>q. apply_commit_left p = Ok q \<and> bt_ok q \<and> upper_of q = upper_of p \<and>
    node q = (node p)\<lparr>node_flags := node_flags (node p) AND NOT (BTREE_FLAG_SPLIT_INCOMPLETE OR BTREE_FLAG_ROOT)\<rparr>"
proof -
  have up: "pd_upper (page_header p) \<noteq> 0" using geometry_bounds [OF bt_okD(1) [OF ok]] by auto
  from set_flags_node [OF ok nibble_ops(2) [OF node_flags_nibble(1)]] show ?thesis
    using up by (simp add: apply_commit_left_def bt_checked_header_ok [OF ok] bt_readers [OF ok]) blast
qed

lemma flags_for_level_nibble: "flags_for_level level \<le> 15"
  by (simp add: flags_for_level_def BTREE_FLAG_LEAF_def)

lemma init_right_page_node:
  assumes "level \<le> 15"
  shows "\<exists>q. init_right_page l r level = Ok q \<and> bt_ok q \<and> free_space q = 8144 \<and>
    node q = \<lparr>node_lsn = 0, node_level = level, node_flags = flags_for_level level, node_prev = l, node_next = r,
      node_entries = []\<rparr>"
proof -
  obtain i where i: "bt_init level (flags_for_level level) = Ok i" "bt_ok i" "upper_of i = 8176" "node i =
      \<lparr>node_lsn = 0, node_level = level, node_flags = flags_for_level level, node_prev = 0, node_next = 0, node_entries = []\<rparr>"
    using bt_init_node [OF assms flags_for_level_nibble] by blast
  from set_links_node(1) [OF i(2), of l] obtain p where p: "set_prev i l = Ok p"
    "bt_ok p" "node p = (node i)\<lparr>node_prev := l\<rparr>" "upper_of p = 8176" using i(3) by auto
  from set_links_node(2) [OF p(2), of r] obtain q where q: "set_next p r = Ok q" "bt_ok q"
    "node q = (node p)\<lparr>node_next := r\<rparr>" "upper_of q = 8176" using p(4) by auto
  have "entries q = []" using q(3) p(3) i(4) by (simp add: node_def)
  then have "slot_count q = 0" by (metis length_entries list.size(3))
  then show ?thesis using p q i bt_free_space(2) [OF q(2)] by (simp add: init_right_page_def)
qed

text \<open>Values outside their four bits are what the assertions of the setters refuse.\<close>

lemma setters_nibble:
  "set_level p v = Ok q \<Longrightarrow> v \<le> 15" "set_flags p v = Ok q \<Longrightarrow> v \<le> 15"
  by (auto simp: set_level_def set_flags_def Let_def split: if_splits)

lemma bt_init_Ok:
  assumes "bt_init level flags = Ok p"
  shows "bt_ok p" and "level \<le> 15" and "flags \<le> 15"
proof -
  show l: "level \<le> 15" "flags \<le> 15" using assms setters_nibble by (auto simp: bt_init_def obind_eq_Ok)
  show "bt_ok p" using bt_init_node [OF l] assms by auto
qed

text \<open>The all-zero page never passes the geometry check: its \<^verbatim>\<open>pd_lower\<close> is below the header size.\<close>

lemma zero_page_fails_geometry: "bt_checked_header (replicate PAGE_SIZE 0) = Err Corrupted"
proof -
  have "pd_lower (page_header (replicate PAGE_SIZE 0)) = 0"
    by (simp add: page_header_def header_read_from_def slice_of_def PAGE_SIZE_def numeral_2_eq_2)
  then show ?thesis by (simp add: bt_checked_header_def Let_def PAGE_HEADER_SIZE_def)
qed

lemma init_right_page_level: "init_right_page l r level = Ok q \<Longrightarrow> level \<le> 15"
  using bt_init_Ok(2) by (auto simp: init_right_page_def obind_eq_Ok)

section \<open>Runs of page operations\<close>

text \<open>
  Every write the index, the bulk loader and redo make to a page: the operations above, the appends
  of \<^verbatim>\<open>SlottedPage::add_tuple\<close>, the LSN stamps, and initialising the page again.
\<close>

inductive bt_page_step :: "page \<Rightarrow> page \<Rightarrow> bool" where
  insert: "insert_entry_at p slot e = Ok q \<Longrightarrow> bt_page_step p q"
| remove: "remove_entry_at p slot = Ok q \<Longrightarrow> bt_page_step p q"
| truncate: "truncate_slots p keep = Ok q \<Longrightarrow> bt_page_step p q"
| append: "add_tuple p e = Ok (q, slot) \<Longrightarrow> bt_page_step p q"
| prepare: "apply_prepare_left p r = Ok q \<Longrightarrow> bt_page_step p q"
| commit: "apply_commit_left p = Ok q \<Longrightarrow> bt_page_step p q"
| link_prev: "set_prev p r = Ok q \<Longrightarrow> bt_page_step p q"
| link_next: "set_next p r = Ok q \<Longrightarrow> bt_page_step p q"
| level: "set_level p v = Ok q \<Longrightarrow> bt_page_step p q"
| flags: "set_flags p v = Ok q \<Longrightarrow> bt_page_step p q"
| flag: "set_flag p v on = Ok q \<Longrightarrow> bt_page_step p q"
| stamp: "bt_page_step p (set_page_pd_lsn p lsn)"
| init: "bt_init v w = Ok q \<Longrightarrow> bt_page_step p q"
| init_right: "init_right_page l r v = Ok q \<Longrightarrow> bt_page_step p q"

definition bt_page_start :: "page \<Rightarrow> bool" where
  "bt_page_start p \<longleftrightarrow> (\<exists>level flags. bt_init level flags = Ok p)"

lemma add_tuple_ok:
  assumes ok: "bt_ok p" and a: "add_tuple p e = Ok (q, slot)"
  shows "bt_ok q"
proof -
  obtain s where "add_tuple_at p s e = Ok q" using a by (auto simp: add_tuple_def Let_def obind_eq_Ok)
  then have g: "add_guard p s e" by (simp add: add_tuple_at_Ok_iff [OF bt_okD(1) [OF ok]])
  then have "unat s = slot_count p" by (auto simp: add_guard_def bt_ok_page_ok(2) [OF ok])
  then have "e \<noteq> []" "length e + 4 \<le> free_space p" using g by (simp_all add: add_guard_def LINE_POINTER_SIZE_def)
  from add_tuple_node [OF ok this] show ?thesis using a by auto
qed

lemma bt_page_step_ok:
  assumes "bt_page_step p q" and ok: "bt_ok p"
  shows "bt_ok q"
  using assms(1)
proof cases
  case (remove slot)
  then show ?thesis using remove_entry_at_node [OF ok, of slot] by (cases "unat slot < slot_count p") auto
next
  case (truncate keep)
  then show ?thesis using truncate_slots_node [OF ok, of keep] by (cases "unat keep \<le> slot_count p") auto
next
  case (prepare r)
  then show ?thesis using apply_prepare_left_node [OF ok, of r] by auto
next
  case commit
  then show ?thesis using apply_commit_left_node [OF ok] by auto
next
  case (link_prev r)
  then show ?thesis using set_links_node(1) [OF ok, of r] by auto
next
  case (link_next r)
  then show ?thesis using set_links_node(2) [OF ok, of r] by auto
next
  case (level v)
  then show ?thesis using set_level_node [OF ok setters_nibble(1) [OF level]] by simp
next
  case (flags v)
  then show ?thesis using set_flags_node [OF ok setters_nibble(2) [OF flags]] by simp
next
  case (flag v on)
  then obtain f where f: "set_flags p f = Ok q" by (auto simp: set_flag_def obind_eq_Ok)
  then show ?thesis using set_flags_node [OF ok setters_nibble(2) [OF f]] by simp
next
  case (init_right l r v)
  then have "v \<le> 15" by (rule init_right_page_level)
  then show ?thesis using init_right_page_node [of v l r] init_right by auto
qed (auto intro: insert_entry_at_node(1) [OF ok] add_tuple_ok [OF ok] bt_init_Ok(1) set_lsn_node(1) [OF ok])

interpretation bt_run: step_invariant bt_page_start bt_page_step bt_ok
  by unfold_locales (auto simp: bt_page_start_def intro: bt_init_Ok(1) bt_page_step_ok)

text \<open>On a well-formed page the assertions of an operation hold.\<close>

definition no_panic :: "('a, 'e) outcome \<Rightarrow> bool" where
  "no_panic r \<longleftrightarrow> r \<noteq> Panic"

lemma no_panic_simps [simp]: "no_panic (Ok x)" "no_panic (Err e)"
  by (simp_all add: no_panic_def)

lemma page_ops_no_panic:
  assumes ok: "bt_ok p"
  shows "no_panic (insert_entry_at p slot e)" and "no_panic (remove_entry_at p slot)"
    and "no_panic (truncate_slots p keep)" and "no_panic (add_tuple p e)"
proof -
  have c: "(lower_of p - PAGE_HEADER_SIZE) div LINE_POINTER_SIZE = slot_count p" by (simp add: slot_count_def)
  show "no_panic (insert_entry_at p slot e)"
  proof (cases "e \<noteq> [] \<and> unat slot \<le> slot_count p")
    case True
    then show ?thesis by (simp add: insert_entry_at_eq [OF ok])
  next
    case False
    then show ?thesis unfolding insert_entry_at_def bt_checked_header_ok [OF ok] obind.simps Let_def c by auto
  qed
  show "no_panic (remove_entry_at p slot)"
    using remove_entry_at_node [OF ok, of slot] by (cases "unat slot < slot_count p") auto
  show "no_panic (truncate_slots p keep)"
    using truncate_slots_node [OF ok, of keep] by (cases "unat keep \<le> slot_count p") auto
  show "no_panic (add_tuple p e)"
    by (simp add: add_tuple_def add_tuple_at_def checked_header_ok [OF bt_okD(1) [OF ok]] Let_def)
qed

lemma split_ops_no_panic:
  assumes ok: "bt_ok p"
  shows "no_panic (apply_prepare_left p r)" and "no_panic (apply_commit_left p)" and "no_panic (set_prev p r)"
    and "no_panic (set_next p r)" and "v \<le> 15 \<Longrightarrow> no_panic (set_flag p v on)"
    and "v \<le> 15 \<Longrightarrow> no_panic (set_flags p v)" and "v \<le> 15 \<Longrightarrow> no_panic (set_level p v)"
    and "v \<le> 15 \<Longrightarrow> no_panic (init_right_page l r v)" and "v \<le> 15 \<Longrightarrow> w \<le> 15 \<Longrightarrow> no_panic (bt_init v w)"
  using apply_prepare_left_node [OF ok, of r] apply_commit_left_node [OF ok] set_links_node [OF ok, of r]
    set_flag_node [OF ok, of v on] set_flags_node [OF ok, of v] set_level_node [OF ok, of v]
    init_right_page_node [of v l r] bt_init_node [of v w] by auto

section \<open>Properties\<close>

text \<open>
  C29. However the page operations are interleaved (insertions, removals, truncations, appends, the
  steps of a split, level, flag and link updates, LSN stamps, re-initialisation), a B+Tree page stays
  well formed: the geometry every reader checks holds, and all line pointers are live, in the data
  area and disjoint.  The assertions of \<^verbatim>\<open>debug_assert_invariants\<close> hold of every page, and the next
  operation, whichever it is, does not panic: neither the assertions it ends with nor those on the
  offset of the special space fire, and those on the four-bit fields do not fire when it is given a
  four-bit value.
\<close>

theorem btree_pages_stay_wellformed:
  assumes "bt_page_start p" and "bt_page_step\<^sup>*\<^sup>* p q"
  shows "bt_ok q \<and> debug_assert_invariants q \<and>
    no_panic (insert_entry_at q slot e) \<and> no_panic (remove_entry_at q slot) \<and> no_panic (truncate_slots q keep) \<and>
    no_panic (add_tuple q e) \<and> no_panic (apply_prepare_left q r) \<and> no_panic (apply_commit_left q) \<and>
    no_panic (set_prev q r) \<and> no_panic (set_next q r) \<and>
    (v \<le> 15 \<longrightarrow> no_panic (set_flag q v on) \<and> no_panic (set_flags q v) \<and> no_panic (set_level q v) \<and>
       no_panic (init_right_page l r v) \<and> (w \<le> 15 \<longrightarrow> no_panic (bt_init v w)))"
proof -
  have ok: "bt_ok q" using bt_run.inv_reachable [OF assms] .
  then show ?thesis
    using bt_ok_page_ok(1) page_ok_asserts page_ops_no_panic [OF ok] split_ops_no_panic [OF ok] by blast
qed

lemma bt_ex:
  "\<exists>p q. bt_init 0 BTREE_FLAG_LEAF = Ok p \<and> bt_ok p \<and> entries p = [] \<and> slot_count p = 0 \<and> free_space p = 8144 \<and>
     insert_entry_at p 0 [1, 2, 3] = Ok q"
proof -
  obtain p where p: "bt_init 0 BTREE_FLAG_LEAF = Ok p" "bt_ok p" "upper_of p = 8176" "slot_count p = 0" "entries p = []"
    using bt_init_node [of 0 BTREE_FLAG_LEAF] by (auto simp: BTREE_FLAG_LEAF_def node_def)
  then show ?thesis by (simp add: insert_entry_at_Ok_iff bt_free_space(2))
qed

theorem btree_pages_stay_wellformed_witness:
  "\<exists>p q r. bt_init 0 BTREE_FLAG_LEAF = Ok p \<and> insert_entry_at p 0 [1, 2, 3] = Ok q \<and>
     set_flag q BTREE_FLAG_ROOT True = Ok r \<and> bt_ok r \<and> debug_assert_invariants r \<and> no_panic (remove_entry_at r 0)"
proof -
  obtain p q where p: "bt_init 0 BTREE_FLAG_LEAF = Ok p" "insert_entry_at p 0 [1, 2, 3] = Ok q" "bt_ok p" using bt_ex by blast
  obtain r where r: "set_flag q BTREE_FLAG_ROOT True = Ok r"
    using set_flag_node [OF insert_entry_at_node(1) [OF p(3,2)], of BTREE_FLAG_ROOT True] by (auto simp: BTREE_FLAG_ROOT_def)
  have "bt_page_step\<^sup>*\<^sup>* p r" using bt_page_step.insert [OF p(2)] bt_page_step.flag [OF r] by (meson converse_rtranclp_into_rtranclp r_into_rtranclp)
  moreover have "bt_page_start p" using p(1) by (auto simp: bt_page_start_def)
  ultimately have "bt_ok r \<and> debug_assert_invariants r \<and> no_panic (remove_entry_at r 0)"
    using btree_pages_stay_wellformed by blast
  then show ?thesis using p r by blast
qed

text \<open>
  C28. Inserting an entry on a well-formed page has exactly these outcomes: it is refused when the
  entry is empty, when the slot is beyond the array, and when the free space cannot hold the
  entry and a line pointer; otherwise the page's entry list gains the entry at that position and
  nothing else about the node changes.
\<close>

theorem insert_entry_at_refines:
  assumes ok: "bt_ok p"
  shows "case insert_entry_at p slot e of
      Ok q \<Rightarrow> bt_ok q \<and> unat slot \<le> slot_count p \<and>
        node q = (node p)\<lparr>node_entries := take (unat slot) (entries p) @ e # drop (unat slot) (entries p)\<rparr> \<and>
        free_space q = free_space p - (length e + 4)
    | Err InvalidArgument \<Rightarrow> e = []
    | Err Corrupted \<Rightarrow> e \<noteq> [] \<and> slot_count p < unat slot
    | Err (KeyTooLarge n) \<Rightarrow> n = length e \<and> 8140 < n
    | Err (PageFull needed available) \<Rightarrow> needed = length e + 4 \<and> available = free_space p \<and> available < needed
    | _ \<Rightarrow> False"
proof (cases "e \<noteq> [] \<and> unat slot \<le> slot_count p")
  case True
  then show ?thesis
    using insert_entry_at_node [OF ok, of slot e "insert_write p (unat slot) e"]
    by (auto simp: insert_entry_at_eq [OF ok])
next
  case False
  have c: "(lower_of p - PAGE_HEADER_SIZE) div LINE_POINTER_SIZE = slot_count p" by (simp add: slot_count_def)
  show ?thesis
    using False unfolding insert_entry_at_def bt_checked_header_ok [OF ok] obind.simps Let_def c by auto
qed

theorem insert_entry_at_refines_witness:
  "\<exists>p q. bt_init 0 BTREE_FLAG_LEAF = Ok p \<and> insert_entry_at p 0 [1, 2, 3] = Ok q \<and> entries q = [[1, 2, 3]]"
proof -
  obtain p q where p: "bt_init 0 BTREE_FLAG_LEAF = Ok p" "bt_ok p" "entries p = []" "insert_entry_at p 0 [1, 2, 3] = Ok q"
    using bt_ex by blast
  then show ?thesis using insert_entry_at_refines [OF p(2), of 0 "[1, 2, 3]"] by (auto simp: node_def)
qed

end
