(* ===== verification/Btree_Node.thy ===== *)
theory Btree_Node
  imports Btree_Page
begin

unbundle bit_operations_syntax

text \<open>
  The page-level routines of \<^verbatim>\<open>pg-am-btree/src/index.rs\<close>: entry comparison, the binary searches,
  the descent rule, the choice of the split point, and the copy step of a split.  The searches
  are shown to find the first entry not below the probe on a sorted page, insertion at that slot
  keeps the page sorted, and a split at the chosen slot leaves room for the pending entry.
\<close>

section \<open>Comparisons\<close>

datatype Ordering = Less | Equal | Greater

definition cmp :: "'a::linorder \<Rightarrow> 'a \<Rightarrow> Ordering" where
  "cmp a b = (if a < b then Less else if a = b then Equal else Greater)"

fun then_ord :: "Ordering \<Rightarrow> Ordering \<Rightarrow> Ordering" where
  "then_ord Equal o' = o'"
| "then_ord o1 _ = o1"

text \<open>The derived order of \<^verbatim>\<open>Tid\<close>: by page, then by slot.\<close>

definition tid_cmp :: "Tid \<Rightarrow> Tid \<Rightarrow> Ordering" where
  "tid_cmp a b = then_ord (cmp (page_id a) (page_id b)) (cmp (slot_id a) (slot_id b))"

definition entry_cmp :: "u8 list \<Rightarrow> u8 list \<Rightarrow> bool \<Rightarrow> Ordering btree_result" where
  "entry_cmp a b leaf =
     (if leaf
      then obind (decode_leaf_entry a) (\<lambda>(ka, ta). obind (decode_leaf_entry b) (\<lambda>(kb, tb).
             Ok (then_ord (cmp ka kb) (tid_cmp ta tb))))
      else obind (decode_internal_entry a) (\<lambda>(ka, ca). obind (decode_internal_entry b) (\<lambda>(kb, cb).
             Ok (then_ord (cmp ka kb) (cmp ca cb)))))"

definition entry_key :: "u8 list \<Rightarrow> u8 \<Rightarrow> u8 list btree_result" where
  "entry_key bytes level =
     (if level = 0 then obind (decode_leaf_entry bytes) (\<lambda>(k, _). Ok k)
      else obind (decode_internal_entry bytes) (\<lambda>(k, _). Ok k))"

definition first_entry_key :: "page \<Rightarrow> u8 list option btree_result" where
  "first_entry_key page =
     (if slot_count page = 0 then Ok None
      else obind (bt_level page) (\<lambda>level. obind (entry_bytes page 0) (\<lambda>bytes.
        obind (entry_key bytes level) (\<lambda>k. Ok (Some k)))))"

section \<open>Binary searches\<close>

text \<open>
  The loop every search shares: \<^verbatim>\<open>while lo < hi { mid = (lo + hi) / 2; ... }\<close>, with the test of
  the middle slot as an argument.
\<close>

function bsearch :: "(nat \<Rightarrow> (bool, 'e) outcome) \<Rightarrow> nat \<Rightarrow> nat \<Rightarrow> (nat, 'e) outcome" where
  "bsearch goes_right lo hi =
     (if lo < hi
      then let mid = (lo + hi) div 2
           in obind (goes_right mid) (\<lambda>b. if b then bsearch goes_right (mid + 1) hi else bsearch goes_right lo mid)
      else Ok lo)"
  by pat_completeness auto
termination
  by (relation "measure (\<lambda>(f, lo, hi). hi - lo)") auto

declare bsearch.simps [simp del]

definition leaf_lower_bound :: "page \<Rightarrow> u8 list \<Rightarrow> Tid \<Rightarrow> nat btree_result" where
  "leaf_lower_bound page key tid =
     bsearch (\<lambda>mid. obind (entry_bytes page (of_nat mid)) (\<lambda>bytes.
       obind (decode_leaf_entry bytes) (\<lambda>(k, t). Ok (then_ord (cmp k key) (tid_cmp t tid) = Less))))
       0 (slot_count page)"

definition leaf_insert_slot :: "page \<Rightarrow> u8 list \<Rightarrow> Tid \<Rightarrow> u16 btree_result" where
  "leaf_insert_slot page key tid =
     obind (leaf_lower_bound page key tid) (\<lambda>pos.
       if pos < slot_count page
       then obind (entry_bytes page (of_nat pos)) (\<lambda>bytes. obind (decode_leaf_entry bytes) (\<lambda>(k, t).
              if k = key \<and> t = tid then Err DuplicateKey else Ok (of_nat pos)))
       else Ok (of_nat pos))"

definition internal_lower_bound :: "page \<Rightarrow> u8 list \<Rightarrow> PageId \<Rightarrow> nat btree_result" where
  "internal_lower_bound page key child =
     bsearch (\<lambda>mid. obind (entry_bytes page (of_nat mid)) (\<lambda>bytes.
       obind (decode_internal_entry bytes) (\<lambda>(k, c). Ok (then_ord (cmp k key) (cmp c child) = Less))))
       0 (slot_count page)"

fun points_at_loop :: "page \<Rightarrow> PageId \<Rightarrow> nat list \<Rightarrow> bool btree_result" where
  "points_at_loop page child [] = Ok False"
| "points_at_loop page child (slot # slots) =
     obind (entry_bytes page (of_nat slot)) (\<lambda>bytes. obind (decode_internal_entry bytes) (\<lambda>(_, c).
       if c = child then Ok True else points_at_loop page child slots))"

definition internal_page_points_at :: "page \<Rightarrow> PageId \<Rightarrow> bool btree_result" where
  "internal_page_points_at page child = points_at_loop page child [0..<slot_count page]"

definition entry_lower_bound :: "page \<Rightarrow> u8 list \<Rightarrow> bool \<Rightarrow> nat btree_result" where
  "entry_lower_bound page entry leaf =
     bsearch (\<lambda>mid. obind (entry_bytes page (of_nat mid)) (\<lambda>bytes.
       obind (entry_cmp bytes entry leaf) (\<lambda>c. Ok (c = Less)))) 0 (slot_count page)"

definition find_child :: "page \<Rightarrow> u8 list \<Rightarrow> PageId btree_result" where
  "find_child page key =
     (let count = slot_count page in
      if count = 0 then Err Corrupted
      else obind (bsearch (\<lambda>mid. obind (entry_bytes page (of_nat mid)) (\<lambda>bytes.
               obind (decode_internal_entry bytes) (\<lambda>(k, _). Ok (k \<le> key)))) 0 count) (\<lambda>lo.
             obind (entry_bytes page (of_nat (lo - 1))) (\<lambda>bytes.
             obind (decode_internal_entry bytes) (\<lambda>(_, child). Ok child))))"

section \<open>Splits\<close>

definition BTREE_PAGE_CAPACITY :: nat where
  "BTREE_PAGE_CAPACITY = PAGE_SIZE - PAGE_HEADER_SIZE - BTREE_SPECIAL_SIZE"

fun entry_costs :: "page \<Rightarrow> nat list \<Rightarrow> nat list btree_result" where
  "entry_costs page [] = Ok []"
| "entry_costs page (slot # slots) =
     obind (entry_bytes page (of_nat slot)) (\<lambda>bytes.
       obind (entry_costs page slots) (\<lambda>rest. Ok ((length bytes + 4) # rest)))"

definition valid_split :: "nat list \<Rightarrow> nat \<Rightarrow> nat \<Rightarrow> nat \<Rightarrow> bool" where
  "valid_split costs pending_cost p s =
     (let total = sum_list costs; left_bytes = sum_list (take s costs);
          lands_left = p \<le> s;
          right_need = total - left_bytes + (if lands_left then 0 else pending_cost);
          left_need = left_bytes + (if lands_left then pending_cost else 0)
      in right_need \<le> BTREE_PAGE_CAPACITY \<and> left_need \<le> BTREE_PAGE_CAPACITY)"

text \<open>The candidates in the order the two loops try them: outwards from the median.\<close>

definition split_candidates :: "nat \<Rightarrow> nat list" where
  "split_candidates count =
     (let mid = count div 2 in concat (map (\<lambda>d. [mid + d, mid - d]) [0..<count div 2 + 2]))"

definition choose_split_slot :: "page \<Rightarrow> u8 \<Rightarrow> u8 list option \<Rightarrow> u16 btree_result" where
  "choose_split_slot page level pending =
     (let count = slot_count page in
      if count < 2 then Err Corrupted
      else case pending of
        None \<Rightarrow> Ok (of_nat (count div 2))
      | Some pending \<Rightarrow>
          obind (entry_costs page [0..<count]) (\<lambda>costs.
          let pending_cost = length pending + 4 in
          obind (entry_lower_bound page pending (level = 0)) (\<lambda>p.
          case find (\<lambda>s. 1 \<le> s \<and> s < count \<and> valid_split costs pending_cost p s) (split_candidates count) of
            Some s \<Rightarrow> Ok (of_nat s)
          | None \<Rightarrow> Err (PageFull pending_cost 0))))"

fun collect_entries :: "page \<Rightarrow> nat list \<Rightarrow> u8 list list btree_result" where
  "collect_entries page [] = Ok []"
| "collect_entries page (slot # slots) =
     obind (entry_bytes page (of_nat slot)) (\<lambda>bytes.
       obind (collect_entries page slots) (\<lambda>rest. Ok (bytes # rest)))"

fun add_entries :: "page \<Rightarrow> u8 list list \<Rightarrow> page btree_result" where
  "add_entries page [] = Ok page"
| "add_entries page (entry # rest) =
     obind (from_heap (add_tuple page entry)) (\<lambda>(page, _). add_entries page rest)"

definition apply_split_copy :: "page \<Rightarrow> page \<Rightarrow> u16 \<Rightarrow> bool \<Rightarrow> (page \<times> page) btree_result" where
  "apply_split_copy left_page right_page copy_start_slot move_to_right =
     (let count = of_nat (slot_count left_page) :: u16 in
      if copy_start_slot = 0 \<or> count < copy_start_slot then Err Corrupted
      else obind (collect_entries left_page [0..<unat count]) (\<lambda>all.
        let kept = take (unat copy_start_slot) all; moved = drop (unat copy_start_slot) all in
        obind (if move_to_right then add_entries right_page moved else Ok right_page) (\<lambda>right_page.
        let pd_lsn = page_pd_lsn left_page in
        obind (bt_prev left_page) (\<lambda>prev.
        obind (bt_next left_page) (\<lambda>next_id.
        obind (bt_level left_page) (\<lambda>level.
        obind (bt_flags left_page) (\<lambda>flags.
        obind (bt_init level flags) (\<lambda>left_page.
        obind (set_prev left_page prev) (\<lambda>left_page.
        obind (set_next left_page next_id) (\<lambda>left_page.
        obind (add_entries left_page kept) (\<lambda>left_page.
        Ok (set_page_pd_lsn left_page pd_lsn, right_page))))))))))))"

definition stamp_pd_lsn :: "page \<Rightarrow> Lsn \<Rightarrow> page" where
  "stamp_pd_lsn page lsn = set_page_pd_lsn page (max lsn (page_pd_lsn page))"

definition page_never_had_entries :: "page \<Rightarrow> bool" where
  "page_never_had_entries page \<longleftrightarrow> pd_upper (page_header page) = pd_special (page_header page)"

section \<open>Searching an array of entries\<close>

lemma bsearch_correct:
  assumes "lo \<le> hi" and "\<And>i. lo \<le> i \<Longrightarrow> i < hi \<Longrightarrow> f i = Ok (P i)"
    and "\<And>i j. lo \<le> i \<Longrightarrow> i \<le> j \<Longrightarrow> j < hi \<Longrightarrow> P j \<Longrightarrow> P i"
  shows "\<exists>k. bsearch f lo hi = Ok k \<and> lo \<le> k \<and> k \<le> hi \<and> (\<forall>i. lo \<le> i \<longrightarrow> i < k \<longrightarrow> P i) \<and>
    (\<forall>i. k \<le> i \<longrightarrow> i < hi \<longrightarrow> \<not> P i)"
  using assms
proof (induction f lo hi rule: bsearch.induct)
  case (1 f lo hi)
  show ?case
  proof (cases "lo < hi")
    case False
    then show ?thesis using "1.prems"(1) by (auto simp: bsearch.simps)
  next
    case True
    let ?m = "(lo + hi) div 2"
    have m: "lo \<le> ?m" "?m < hi" and t: "f ?m = Ok (P ?m)" using True "1.prems"(2) by auto
    show ?thesis
    proof (cases "P ?m")
      case True
      with t m have e: "bsearch f lo hi = bsearch f (?m + 1) hi" by (subst bsearch.simps) (simp add: Let_def)
      obtain k where k: "bsearch f (?m + 1) hi = Ok k" "?m + 1 \<le> k" "k \<le> hi"
        "\<forall>i. ?m + 1 \<le> i \<longrightarrow> i < k \<longrightarrow> P i" "\<forall>i. k \<le> i \<longrightarrow> i < hi \<longrightarrow> \<not> P i"
        using "1.IH"(1) [OF \<open>lo < hi\<close> refl True] m "1.prems" by force
      have "P i" if "lo \<le> i" "i < k" for i
        using k(4) "1.prems"(3) [OF that(1) _ m(2) True] that(2) by (cases "i \<le> ?m") auto
      then show ?thesis using k e m by (intro exI [of _ k]) auto
    next
      case False
      with t m have e: "bsearch f lo hi = bsearch f lo ?m" by (subst bsearch.simps) (simp add: Let_def)
      obtain k where k: "bsearch f lo ?m = Ok k" "lo \<le> k" "k \<le> ?m"
        "\<forall>i. lo \<le> i \<longrightarrow> i < k \<longrightarrow> P i" "\<forall>i. k \<le> i \<longrightarrow> i < ?m \<longrightarrow> \<not> P i"
        using "1.IH"(2) [OF \<open>lo < hi\<close> refl False] m "1.prems" by force
      have "\<not> P i" if "k \<le> i" "i < hi" for i
        using k(5) "1.prems"(3) [OF m(1) _ that(2)] that False by (cases "i < ?m") auto
      then show ?thesis using k e m by (intro exI [of _ k]) auto
    qed
  qed
qed

text \<open>
  What the searches and the insertion rely on: a page is an array of entries that can be read
  by slot and extended at a slot.
\<close>

locale entry_array =
  fixes wf :: "'p \<Rightarrow> bool"
    and elems :: "'p \<Rightarrow> 'e list"
    and cnt :: "'p \<Rightarrow> nat"
    and get :: "'p \<Rightarrow> u16 \<Rightarrow> ('e, 'x) outcome"
    and ins :: "'p \<Rightarrow> u16 \<Rightarrow> 'e \<Rightarrow> ('p, 'x) outcome"
  assumes cnt: "wf p \<Longrightarrow> cnt p = length (elems p)"
    and small: "wf p \<Longrightarrow> length (elems p) < 65536"
    and get: "wf p \<Longrightarrow> unat s < length (elems p) \<Longrightarrow> get p s = Ok (elems p ! unat s)"
    and ins: "wf p \<Longrightarrow> ins p s e = Ok q \<Longrightarrow>
      wf q \<and> unat s \<le> length (elems p) \<and> elems q = take (unat s) (elems p) @ e # drop (unat s) (elems p)"
begin

lemma search:
  assumes wf: "wf p" and test: "\<And>e. e \<in> set (elems p) \<Longrightarrow> test e = Ok (P e)"
    and mono: "sorted_wrt (\<lambda>a b. P b \<longrightarrow> P a) (elems p)"
  shows "\<exists>k \<le> length (elems p). bsearch (\<lambda>mid. obind (get p (of_nat mid)) test) 0 (cnt p) = Ok k \<and>
    (\<forall>e \<in> set (take k (elems p)). P e) \<and> (\<forall>e \<in> set (drop k (elems p)). \<not> P e)"
proof -
  let ?f = "\<lambda>mid. obind (get p (of_nat mid)) test" and ?P = "\<lambda>i. P (elems p ! i)"
  have f: "?f i = Ok (?P i)" if "i < length (elems p)" for i
    using that small [OF wf] get [OF wf, of "of_nat i"] test by simp
  have m: "?P i" if "i \<le> j" "j < length (elems p)" "?P j" for i j
    using mono that unfolding sorted_wrt_iff_nth_less by (metis le_neq_implies_less)
  obtain k where "bsearch ?f 0 (length (elems p)) = Ok k" "k \<le> length (elems p)"
    "\<forall>i < k. ?P i" "\<forall>i. k \<le> i \<longrightarrow> i < length (elems p) \<longrightarrow> \<not> ?P i"
    using bsearch_correct [of 0 "length (elems p)" ?f ?P] f m by auto
  then show ?thesis
    unfolding cnt [OF wf] by (intro exI [of _ k]) (auto simp: in_set_conv_nth)
qed

lemma sorted_insert:
  fixes key :: "'e \<Rightarrow> 'k::linorder"
  assumes wf: "wf p" and i: "ins p (of_nat k) e = Ok q" and k: "k \<le> length (elems p)"
    and sorted: "sorted_wrt (<) (map key (elems p))"
    and below: "\<And>a. a \<in> set (take k (elems p)) \<Longrightarrow> key a < key e"
    and above: "\<And>a. a \<in> set (drop k (elems p)) \<Longrightarrow> key e < key a"
  shows "wf q \<and> elems q = take k (elems p) @ e # drop k (elems p) \<and> sorted_wrt (<) (map key (elems q))"
proof -
  have q: "wf q" "elems q = take k (elems p) @ e # drop k (elems p)"
    using ins [OF wf i] k small [OF wf] by simp_all
  have "sorted_wrt (<) (map key (take k (elems p) @ drop k (elems p)))" using sorted by simp
  then have "sorted_wrt (<) (map key (elems q))"
    unfolding q map_append sorted_wrt_append using below above by auto
  with q show ?thesis by simp
qed

end

interpretation btpage: entry_array bt_ok entries slot_count entry_bytes insert_entry_at
proof
  fix p assume ok: "bt_ok p"
  show "slot_count p = length (entries p)" by simp
  show "length (entries p) < 65536"
    using lower_slots [OF bt_okD(1) [OF ok]] geometry_bounds [OF bt_okD(1) [OF ok]] by simp
  show "entry_bytes p s = Ok (entries p ! unat s)" if "unat s < length (entries p)" for s
    using that by (simp add: entry_bytes_eq [OF ok])
  show "bt_ok q \<and> unat s \<le> length (entries p) \<and> entries q = take (unat s) (entries p) @ e # drop (unat s) (entries p)"
    if "insert_entry_at p s e = Ok q" for s e q
    using insert_entry_at_node [OF ok that] by (simp add: node_def)
qed

section \<open>Sorted pages\<close>

text \<open>The sort key of an entry: its key bytes, then its trailer.\<close>

definition entry_ord :: "bool \<Rightarrow> u8 list \<Rightarrow> u8 list \<times> u64 \<times> u16" where
  "entry_ord leaf e =
     (if leaf then case decode_leaf_entry e of Ok (k, t) \<Rightarrow> (k, page_id t, slot_id t) | _ \<Rightarrow> ([], 0, 0)
      else case decode_internal_entry e of Ok (k, c) \<Rightarrow> (k, c, 0) | _ \<Rightarrow> ([], 0, 0))"

definition wf_entry :: "bool \<Rightarrow> u8 list \<Rightarrow> bool" where
  "wf_entry leaf e \<longleftrightarrow> (if leaf then LEAF_TRAILER_SIZE else INTERNAL_TRAILER_SIZE) \<le> length e"

definition page_sorted :: "bool \<Rightarrow> page \<Rightarrow> bool" where
  "page_sorted leaf p \<longleftrightarrow> (\<forall>e \<in> set (entries p). wf_entry leaf e) \<and>
     sorted_wrt (<) (map (entry_ord leaf) (entries p))"

lemma cmp_Less [simp]: "cmp a b = Less \<longleftrightarrow> a < b" "cmp a b = Equal \<longleftrightarrow> a = b"
  by (auto simp: cmp_def)

lemma then_ord_Less [simp]: "then_ord x y = Less \<longleftrightarrow> x = Less \<or> (x = Equal \<and> y = Less)"
  by (cases x) auto

lemma tid_cmp_Less: "tid_cmp a b = Less \<longleftrightarrow> (page_id a, slot_id a) < (page_id b, slot_id b)"
  by (auto simp: tid_cmp_def)

lemma decode_leaf_ord:
  "wf_entry True e \<Longrightarrow> decode_leaf_entry e =
     Ok (fst (entry_ord True e), \<lparr>page_id = fst (snd (entry_ord True e)), slot_id = snd (snd (entry_ord True e))\<rparr>)"
  by (auto simp: wf_entry_def entry_ord_def decode_leaf_entry_def Let_def)

lemma decode_internal_ord:
  "wf_entry False e \<Longrightarrow> decode_internal_entry e = Ok (fst (entry_ord False e), fst (snd (entry_ord False e)))"
  "snd (snd (entry_ord False e)) = 0"
  by (auto simp: wf_entry_def entry_ord_def decode_internal_entry_def Let_def)

lemma entry_ord_encode:
  "entry_ord True (encode_leaf_entry key tid) = (key, page_id tid, slot_id tid)"
  "entry_ord False (encode_internal_entry key child) = (key, child, 0)"
  "wf_entry True (encode_leaf_entry key tid)" "wf_entry False (encode_internal_entry key child)"
  by (simp_all add: entry_ord_def decode_encode_leaf decode_encode_internal wf_entry_def)
    (simp_all add: encode_leaf_entry_def encode_internal_entry_def LEAF_TRAILER_SIZE_def INTERNAL_TRAILER_SIZE_def)

lemma entry_cmp_Less:
  assumes "wf_entry leaf a" and "wf_entry leaf b"
  shows "\<exists>c. entry_cmp a b leaf = Ok c \<and> (c = Less \<longleftrightarrow> entry_ord leaf a < entry_ord leaf b)"
proof (cases leaf)
  case True
  then show ?thesis
    using assms by (cases "entry_ord True a"; cases "entry_ord True b")
      (auto simp: entry_cmp_def decode_leaf_ord tid_cmp_Less)
next
  case False
  then show ?thesis
    using assms decode_internal_ord(2) [of a] decode_internal_ord(2) [of b]
    by (cases "entry_ord False a"; cases "entry_ord False b")
      (auto simp: entry_cmp_def decode_internal_ord(1))
qed

lemma below_probe:
  fixes x :: "'k::linorder"
  assumes "sorted_wrt (<) (map f xs)"
  shows "sorted_wrt (\<lambda>a b. f b < x \<longrightarrow> f a < x) xs"
  using assms unfolding sorted_wrt_map by (rule sorted_wrt_mono_rel [rotated]) auto

lemma leaf_lower_bound_correct:
  assumes ok: "bt_ok p" and so: "page_sorted True p"
  shows "\<exists>k \<le> slot_count p. leaf_lower_bound p key tid = Ok k \<and>
    (\<forall>e \<in> set (take k (entries p)). entry_ord True e < (key, page_id tid, slot_id tid)) \<and>
    (\<forall>e \<in> set (drop k (entries p)). (key, page_id tid, slot_id tid) \<le> entry_ord True e)"
proof -
  let ?x = "(key, page_id tid, slot_id tid)"
  let ?test = "\<lambda>bytes. obind (decode_leaf_entry bytes) (\<lambda>(k, t). Ok (then_ord (cmp k key) (tid_cmp t tid) = Less))"
  have t: "?test e = Ok (entry_ord True e < ?x)" if "e \<in> set (entries p)" for e
    using so that by (cases "entry_ord True e") (auto simp: page_sorted_def decode_leaf_ord tid_cmp_Less)
  have m: "sorted_wrt (\<lambda>a b. entry_ord True b < ?x \<longrightarrow> entry_ord True a < ?x) (entries p)"
    using so by (intro below_probe) (simp add: page_sorted_def)
  from btpage.search [OF ok t m] show ?thesis by (simp add: leaf_lower_bound_def not_less)
qed

lemma entry_lower_bound_correct:
  assumes ok: "bt_ok p" and so: "page_sorted leaf p" and w: "wf_entry leaf x"
  shows "\<exists>k \<le> slot_count p. entry_lower_bound p x leaf = Ok k \<and>
    (\<forall>e \<in> set (take k (entries p)). entry_ord leaf e < entry_ord leaf x) \<and>
    (\<forall>e \<in> set (drop k (entries p)). entry_ord leaf x \<le> entry_ord leaf e)"
proof -
  let ?test = "\<lambda>bytes. obind (entry_cmp bytes x leaf) (\<lambda>c. Ok (c = Less))"
  have t: "?test e = Ok (entry_ord leaf e < entry_ord leaf x)" if "e \<in> set (entries p)" for e
    using so that entry_cmp_Less [of leaf e x] w by (auto simp: page_sorted_def)
  have m: "sorted_wrt (\<lambda>a b. entry_ord leaf b < entry_ord leaf x \<longrightarrow> entry_ord leaf a < entry_ord leaf x) (entries p)"
    using so by (intro below_probe) (simp add: page_sorted_def)
  from btpage.search [OF ok t m] show ?thesis by (simp add: entry_lower_bound_def not_less)
qed

lemma internal_lower_bound_correct:
  assumes ok: "bt_ok p" and so: "page_sorted False p"
  shows "\<exists>k \<le> slot_count p. internal_lower_bound p key child = Ok k \<and>
    (\<forall>e \<in> set (take k (entries p)). entry_ord False e < (key, child, 0)) \<and>
    (\<forall>e \<in> set (drop k (entries p)). (key, child, 0) \<le> entry_ord False e)"
proof -
  let ?test = "\<lambda>bytes. obind (decode_internal_entry bytes) (\<lambda>(k, c). Ok (then_ord (cmp k key) (cmp c child) = Less))"
  have t: "?test e = Ok (entry_ord False e < (key, child, 0))" if "e \<in> set (entries p)" for e
    using so that decode_internal_ord(2) [of e]
    by (cases "entry_ord False e") (auto simp: page_sorted_def decode_internal_ord(1))
  have m: "sorted_wrt (\<lambda>a b. entry_ord False b < (key, child, 0) \<longrightarrow> entry_ord False a < (key, child, 0)) (entries p)"
    using so by (intro below_probe) (simp add: page_sorted_def)
  from btpage.search [OF ok t m] show ?thesis by (simp add: internal_lower_bound_def not_less)
qed

text \<open>The insertion slot of a leaf: a duplicate is reported, anything else keeps the order.\<close>

lemma leaf_insert_slot_correct:
  fixes key :: "u8 list" and tid :: Tid
  assumes ok: "bt_ok p" and so: "page_sorted True p"
  defines "x \<equiv> (key, page_id tid, slot_id tid)"
  shows "if x \<in> entry_ord True ` set (entries p) then leaf_insert_slot p key tid = Err DuplicateKey
    else \<exists>k \<le> slot_count p. leaf_insert_slot p key tid = Ok (of_nat k) \<and>
      (\<forall>e \<in> set (take k (entries p)). entry_ord True e < x) \<and> (\<forall>e \<in> set (drop k (entries p)). x < entry_ord True e)"
proof -
  obtain k where k: "k \<le> slot_count p" "leaf_lower_bound p key tid = Ok k"
    "\<And>e. e \<in> set (take k (entries p)) \<Longrightarrow> entry_ord True e < x" "\<And>e. e \<in> set (drop k (entries p)) \<Longrightarrow> x \<le> entry_ord True e"
    using leaf_lower_bound_correct [OF ok so, of key tid] unfolding x_def by blast
  have small: "slot_count p < 65536" using btpage.small [OF ok] by simp
  show ?thesis
  proof (cases "k < slot_count p")
    case False
    then have "x \<notin> entry_ord True ` set (entries p)" using k(1,3) by fastforce
    then show ?thesis using k False by (auto simp: leaf_insert_slot_def)
  next
    case True
    let ?e = "entries p ! k"
    have e: "?e \<in> set (entries p)" "wf_entry True ?e" using True so by (auto simp: page_sorted_def)
    have slot: "leaf_insert_slot p key tid = (if entry_ord True ?e = x then Err DuplicateKey else Ok (of_nat k))"
      using True k(2) small decode_leaf_ord [OF e(2)]
      by (cases "entry_ord True ?e") (auto simp: leaf_insert_slot_def entry_bytes_eq [OF ok] x_def)
    have dr: "drop k (entries p) = ?e # drop (Suc k) (entries p)" using True by (simp add: Cons_nth_drop_Suc)
    have "sorted_wrt (<) (map (entry_ord True) (take k (entries p) @ drop k (entries p)))"
      using so by (simp add: page_sorted_def)
    then have after: "entry_ord True ?e < entry_ord True a" if "a \<in> set (drop (Suc k) (entries p))" for a
      unfolding dr map_append sorted_wrt_append using that by simp
    have xe: "x \<le> entry_ord True ?e" using k(4) unfolding dr by simp
    show ?thesis
    proof (cases "entry_ord True ?e = x")
      case True
      then show ?thesis using slot e(1) by (auto intro: rev_image_eqI)
    next
      case False
      with xe have lt: "x < entry_ord True ?e" by simp
      have ab: "x < entry_ord True a" if "a \<in> set (drop k (entries p))" for a
        using that lt after unfolding dr by (auto intro: less_trans)
      have "x \<notin> entry_ord True ` (set (take k (entries p)) \<union> set (drop k (entries p)))" using k(3) ab by fastforce
      then have "x \<notin> entry_ord True ` set (entries p)" by (metis append_take_drop_id set_append)
      then show ?thesis using slot False k(1,3) ab by auto
    qed
  qed
qed

section \<open>The split point\<close>

abbreviation costs_of :: "u8 list list \<Rightarrow> nat list" where
  "costs_of es \<equiv> map (\<lambda>e. length e + 4) es"

lemma upt_entries: "map ((!) (entries p)) [0..<slot_count p] = entries p"
  by (metis length_entries map_nth)

lemma collect_entries_eq:
  assumes ok: "bt_ok p"
  shows "list_all (\<lambda>s. s < slot_count p) xs \<Longrightarrow> collect_entries p xs = Ok (map ((!) (entries p)) xs)"
    and "list_all (\<lambda>s. s < slot_count p) xs \<Longrightarrow> entry_costs p xs = Ok (costs_of (map ((!) (entries p)) xs))"
  using btpage.small [OF ok] by (induction xs) (simp_all add: entry_bytes_eq [OF ok])

lemma bt_ok_entries:
  assumes ok: "bt_ok p"
  shows "e \<in> set (entries p) \<Longrightarrow> e \<noteq> []" and "sum_list (costs_of (entries p)) \<le> 8144"
proof -
  note geo = geometry_bounds [OF bt_okD(1) [OF ok]] and low = lower_slots [OF bt_okD(1) [OF ok]]
  have len: "length (lp_bytes p (lp_at p s)) = unat (lp_len (lp_at p s))" if "s < slot_count p" for s
    using bt_ok_lp [OF ok that] geo by (auto simp: lp_bytes_def lp_ok_def min_def)
  show "e \<noteq> []" if "e \<in> set (entries p)"
    using that len bt_ok_lp [OF ok] by (fastforce simp: entries_def lps_def lp_ok_def)
  have "sum_list (costs_of (entries p)) = sum_list (map length (entries p)) + 4 * slot_count p"
    by (simp add: sum_list_addf sum_list_triv)
  moreover have "map length (entries p) = map (\<lambda>s. unat (lp_len (lp_at p s))) [0..<slot_count p]"
    using len by (simp add: entries_def lps_def)
  moreover have "sum_list (map (\<lambda>s. unat (lp_len (lp_at p s))) [0..<slot_count p]) \<le> special_of p - upper_of p"
    using bt_ok_page_ok [OF ok] by (intro used_len_sum) auto
  ultimately show "sum_list (costs_of (entries p)) \<le> 8144"
    using geo low bt_okD(2) [OF ok] by simp
qed

text \<open>
  With every entry and the pending one below a third of the page, some split point works: the
  first one whose right half fits leaves less than the pending entry's size before it.
\<close>

lemma valid_split_exists:
  assumes n: "2 \<le> length costs" and small: "\<And>c. c \<in> set costs \<Longrightarrow> c \<le> m" and pc: "pc \<le> m"
    and tot: "sum_list costs \<le> BTREE_PAGE_CAPACITY" and third: "3 * m \<le> BTREE_PAGE_CAPACITY"
  shows "\<exists>s. 1 \<le> s \<and> s < length costs \<and> valid_split costs pc p s"
proof -
  let ?C = BTREE_PAGE_CAPACITY and ?L = "\<lambda>s. sum_list (take s costs)"
  let ?R = "\<lambda>s. sum_list costs - ?L s + (if p \<le> s then 0 else pc)"
  have L: "?L (Suc s) = ?L s + costs ! s" "costs ! s \<le> m" if "s < length costs" for s
    using that small by (simp_all add: take_Suc_conv_app_nth)
  have split: "sum_list costs = ?L s + sum_list (drop s costs)" for s
    by (metis append_take_drop_id sum_list_append)
  have "sum_list (drop (length costs - 1) costs) \<le> m"
    using n L(2) [of "length costs - 1"] by (cases costs rule: rev_cases) (simp_all add: small)
  then have last: "?R (length costs - 1) \<le> ?C" using split [of "length costs - 1"] pc third by auto
  define s where "s = (LEAST s. 1 \<le> s \<and> ?R s \<le> ?C)"
  have ex: "1 \<le> length costs - 1 \<and> ?R (length costs - 1) \<le> ?C" using n last by simp
  then have s: "1 \<le> s" "?R s \<le> ?C" unfolding s_def by (rule LeastI2; blast)+
  have "s \<le> length costs - 1" unfolding s_def using ex by (rule Least_le)
  then have lt: "s < length costs" using n by linarith
  have step: "?L s = ?L (s - 1) + costs ! (s - 1)" "costs ! (s - 1) \<le> m" using L [of "s - 1"] s(1) lt by simp_all
  have "?L (s - 1) \<le> m"
  proof (cases "s = 1")
    case False
    then have "\<not> ?R (s - 1) \<le> ?C" using s(1) not_less_Least [of "s - 1" "\<lambda>s. 1 \<le> s \<and> ?R s \<le> ?C"] unfolding s_def by auto
    then show ?thesis using split [of "s - 1"] tot pc by (auto split: if_splits)
  qed simp
  then have "?L s + (if p \<le> s then pc else 0) \<le> ?C" using step pc third by auto
  then show ?thesis using s lt by (intro exI [of _ s]) (simp add: valid_split_def Let_def)
qed

lemma split_candidates_all: "s \<le> n \<Longrightarrow> s \<in> set (split_candidates n)"
proof -
  assume s: "s \<le> n"
  let ?d = "if n div 2 \<le> s then s - n div 2 else n div 2 - s"
  have "n < 2 * (n div 2) + 2" by presburger
  then have "?d < n div 2 + 2" using s by (auto split: if_splits)
  then have "?d \<in> set [0..<n div 2 + 2]" "s \<in> set [n div 2 + ?d, n div 2 - ?d]" using s by auto
  then show ?thesis unfolding split_candidates_def Let_def set_concat set_map by blast
qed

lemma choose_split_slot_correct:
  assumes ok: "bt_ok p" and so: "page_sorted (level = 0) p" and n: "2 \<le> slot_count p" and w: "wf_entry (level = 0) x"
    and bound: "\<And>e. e \<in> set (x # entries p) \<Longrightarrow> length e \<le> MAX_INDEX_KEY_BYTES + LEAF_TRAILER_SIZE"
  shows "\<exists>s k. choose_split_slot p level (Some x) = Ok (of_nat s) \<and> 1 \<le> s \<and> s < slot_count p \<and>
    entry_lower_bound p x (level = 0) = Ok k \<and> valid_split (costs_of (entries p)) (length x + 4) k s"
proof -
  let ?c = "costs_of (entries p)"
  obtain k where k: "entry_lower_bound p x (level = 0) = Ok k" using entry_lower_bound_correct [OF ok so w] by blast
  have "list_all (\<lambda>s. s < slot_count p) [0..<slot_count p]" by (simp add: list_all_iff)
  then have costs: "entry_costs p [0..<slot_count p] = Ok ?c"
    using collect_entries_eq(2) [OF ok] upt_entries by metis
  have C: "BTREE_PAGE_CAPACITY = 8144" "MAX_INDEX_KEY_BYTES + LEAF_TRAILER_SIZE + 4 = 2712"
    by (simp_all add: BTREE_PAGE_CAPACITY_def page_consts BTREE_SPECIAL_SIZE_def HEAP_SPECIAL_SIZE_def
        MAX_INDEX_KEY_BYTES_def LEAF_TRAILER_SIZE_def)
  have "\<exists>s. 1 \<le> s \<and> s < length ?c \<and> valid_split ?c (length x + 4) k s"
    by (rule valid_split_exists [of _ 2712]) (use n bound bt_ok_entries(2) [OF ok] C in force)+
  then obtain s where s: "1 \<le> s" "s < slot_count p" "valid_split ?c (length x + 4) k s" by auto
  let ?P = "\<lambda>s. 1 \<le> s \<and> s < slot_count p \<and> valid_split ?c (length x + 4) k s"
  have "find ?P (split_candidates (slot_count p)) \<noteq> None"
    using s split_candidates_all [of s "slot_count p"] by (auto simp: find_None_iff)
  then obtain s' where s': "find ?P (split_candidates (slot_count p)) = Some s'" by blast
  then have "?P s'" by (auto simp: find_Some_iff)
  moreover have "choose_split_slot p level (Some x) = Ok (of_nat s')"
    unfolding choose_split_slot_def Let_def using n costs k s' by simp
  ultimately show ?thesis using k by blast
qed

section \<open>The copy step\<close>

lemma add_entries_node:
  assumes "bt_ok p" and "\<And>e. e \<in> set es \<Longrightarrow> e \<noteq> []" and "sum_list (costs_of es) \<le> free_space p"
  shows "\<exists>q. add_entries p es = Ok q \<and> bt_ok q \<and> node q = (node p)\<lparr>node_entries := entries p @ es\<rparr> \<and>
    free_space q = free_space p - sum_list (costs_of es)"
  using assms
proof (induction es arbitrary: p)
  case Nil
  then show ?case by (simp add: node_def)
next
  case (Cons e es)
  obtain q where q: "add_tuple p e = Ok (q, of_nat (slot_count p))" "bt_ok q"
    "node q = (node p)\<lparr>node_entries := entries p @ [e]\<rparr>" "free_space q = free_space p - (length e + 4)"
    using add_tuple_node [OF Cons.prems(1), of e] Cons.prems(2,3) by auto
  have eq: "entries q = entries p @ [e]" using q(3) by (simp add: node_def)
  have "sum_list (costs_of es) \<le> free_space q" using Cons.prems(3) q(4) by auto
  from Cons.IH [OF q(2) _ this] Cons.prems(2) obtain r where "add_entries q es = Ok r" "bt_ok r"
    "node r = (node q)\<lparr>node_entries := entries q @ es\<rparr>" "free_space r = free_space q - sum_list (costs_of es)"
    by auto
  then show ?case using q eq by (intro exI [of _ r]) simp
qed

lemma apply_split_copy_correct:
  assumes l: "bt_ok l" and r: "bt_ok r" and cs: "1 \<le> cs" "cs \<le> slot_count l"
    and room: "move \<Longrightarrow> sum_list (costs_of (drop cs (entries l))) \<le> free_space r"
  shows "\<exists>l' r'. apply_split_copy l r (of_nat cs) move = Ok (l', r') \<and> bt_ok l' \<and> bt_ok r' \<and>
    node l' = (node l)\<lparr>node_entries := take cs (entries l)\<rparr> \<and>
    node r' = (node r)\<lparr>node_entries := entries r @ (if move then drop cs (entries l) else [])\<rparr> \<and>
    free_space l' = 8144 - sum_list (costs_of (take cs (entries l))) \<and>
    free_space r' = free_space r - (if move then sum_list (costs_of (drop cs (entries l))) else 0)"
proof -
  have small: "slot_count l < 65536" using btpage.small [OF l] by simp
  then have u: "unat (of_nat cs :: u16) = cs" "unat (of_nat (slot_count l) :: u16) = slot_count l" using cs by simp_all
  have all: "collect_entries l [0..<slot_count l] = Ok (entries l)"
    using collect_entries_eq(1) [OF l, of "[0..<slot_count l]"] by (simp add: list_all_iff upt_entries)
  have guard: "\<not> ((of_nat cs :: u16) = 0 \<or> (of_nat (slot_count l) :: u16) < of_nat cs)"
    using cs u by (auto simp: word_less_nat_alt)
  have ne: "e \<noteq> []" if "e \<in> set (take cs (entries l)) \<or> e \<in> set (drop cs (entries l))" for e
    using that bt_ok_entries(1) [OF l] by (auto dest: in_set_takeD in_set_dropD)
  obtain r' where r': "(if move then add_entries r (drop cs (entries l)) else Ok r) = Ok r'" "bt_ok r'"
    "node r' = (node r)\<lparr>node_entries := entries r @ (if move then drop cs (entries l) else [])\<rparr>"
    "free_space r' = free_space r - (if move then sum_list (costs_of (drop cs (entries l))) else 0)"
    using add_entries_node [OF r, of "drop cs (entries l)"] ne room r by (cases move) (auto simp: node_def)
  obtain i where i: "bt_init (node_level (node l)) (node_flags (node l)) = Ok i" "bt_ok i" "upper_of i = 8176"
    "node i = \<lparr>node_lsn = 0, node_level = node_level (node l), node_flags = node_flags (node l), node_prev = 0,
       node_next = 0, node_entries = []\<rparr>"
    using bt_init_node [OF node_flags_nibble(2) node_flags_nibble(1), of l l] by blast
  obtain p where p: "set_prev i (node_prev (node l)) = Ok p" "bt_ok p"
    "node p = (node i)\<lparr>node_prev := node_prev (node l)\<rparr>" "upper_of p = 8176"
    using set_links_node(1) [OF i(2)] i(3) by metis
  obtain q where q: "set_next p (node_next (node l)) = Ok q" "bt_ok q"
    "node q = (node p)\<lparr>node_next := node_next (node l)\<rparr>" "upper_of q = 8176"
    using set_links_node(2) [OF p(2)] p(4) by metis
  have eq: "entries q = []" using q(3) p(3) i(4) by (simp add: node_def)
  then have "slot_count q = 0" by (metis length_entries list.size(3))
  then have fq: "free_space q = 8144" using bt_free_space(2) [OF q(2)] q(4) by simp
  have "sum_list (costs_of (take cs (entries l))) \<le> sum_list (costs_of (entries l))"
    by (metis append_take_drop_id le_add1 map_append sum_list_append)
  then have "sum_list (costs_of (take cs (entries l))) \<le> free_space q" using bt_ok_entries(2) [OF l] fq by linarith
  from add_entries_node [OF q(2) _ this] ne eq obtain t where t: "add_entries q (take cs (entries l)) = Ok t" "bt_ok t"
    "node t = (node q)\<lparr>node_entries := take cs (entries l)\<rparr>"
    "free_space t = free_space q - sum_list (costs_of (take cs (entries l)))" by auto
  let ?l = "set_page_pd_lsn t (page_pd_lsn l)"
  note sl = set_lsn_node [OF t(2), of "page_pd_lsn l"]
  have "entries ?l = entries t" using sl(2) by (simp add: node_def)
  then have "free_space ?l = free_space t"
    using bt_free_space(2) [OF sl(1)] bt_free_space(2) [OF t(2)] sl(3) by (metis length_entries)
  moreover have "node ?l = (node l)\<lparr>node_entries := take cs (entries l)\<rparr>"
    unfolding sl(2) t(3) q(3) p(3) i(4) by (simp add: node_def)
  moreover have "apply_split_copy l r (of_nat cs) move = Ok (?l, r')"
    unfolding apply_split_copy_def Let_def if_not_P [OF guard] u all obind.simps r'(1) bt_readers [OF l] i(1) p(1) q(1) t(1) ..
  ultimately show ?thesis using sl(1) r' t(4) fq by auto
qed

section \<open>A split makes room\<close>

lemma page_sorted_part:
  assumes "page_sorted leaf p" and "entries p = xs @ entries q @ ys"
  shows "page_sorted leaf q"
  using assms by (auto simp: page_sorted_def sorted_wrt_append)

text \<open>Which half the pending entry sorts into, and that it was reserved there.\<close>

lemma split_lands:
  assumes so: "page_sorted leaf p" and s: "s < slot_count p"
    and k: "k \<le> slot_count p" "\<And>e. e \<in> set (take k (entries p)) \<Longrightarrow> entry_ord leaf e < x"
      "\<And>e. e \<in> set (drop k (entries p)) \<Longrightarrow> x \<le> entry_ord leaf e"
    and new: "x \<notin> entry_ord leaf ` set (entries p)"
  shows "x < entry_ord leaf (entries p ! s) \<longleftrightarrow> k \<le> s"
proof (cases "k \<le> s")
  case True
  then have "entries p ! s \<in> set (drop k (entries p))"
    unfolding in_set_conv_nth by (intro exI [of _ "s - k"]) (use s in simp)
  then have "x \<le> entry_ord leaf (entries p ! s)" by (rule k(3))
  moreover have "x \<noteq> entry_ord leaf (entries p ! s)" using new s by auto
  ultimately show ?thesis using True by simp
next
  case False
  then have "entries p ! s \<in> set (take k (entries p))"
    unfolding in_set_conv_nth by (intro exI [of _ s]) (use s k(1) in simp)
  from k(2) [OF this] False show ?thesis by auto
qed

lemma split_room:
  assumes "valid_split (costs_of es) c k s"
  shows "k \<le> s \<Longrightarrow> c \<le> 8144 - sum_list (costs_of (take s es))"
    and "\<not> k \<le> s \<Longrightarrow> c \<le> 8144 - sum_list (costs_of (drop s es))"
    and "sum_list (costs_of (drop s es)) \<le> 8144"
proof -
  have t: "sum_list (costs_of es) = sum_list (costs_of (take s es)) + sum_list (costs_of (drop s es))"
    by (metis append_take_drop_id map_append sum_list_append)
  have C: "BTREE_PAGE_CAPACITY = 8144"
    by (simp add: BTREE_PAGE_CAPACITY_def page_consts BTREE_SPECIAL_SIZE_def HEAP_SPECIAL_SIZE_def)
  have v: "sum_list (costs_of es) - sum_list (take s (costs_of es)) + (if k \<le> s then 0 else c) \<le> 8144"
    "sum_list (take s (costs_of es)) + (if k \<le> s then c else 0) \<le> 8144"
    using assms by (simp_all add: valid_split_def Let_def C)
  have tk: "take s (costs_of es) = costs_of (take s es)" by (rule take_map)
  show "k \<le> s \<Longrightarrow> c \<le> 8144 - sum_list (costs_of (take s es))"
    "\<not> k \<le> s \<Longrightarrow> c \<le> 8144 - sum_list (costs_of (drop s es))" "sum_list (costs_of (drop s es)) \<le> 8144"
    using v unfolding t tk by (auto split: if_splits)
qed

section \<open>Concrete pages\<close>

definition filled_page :: "u8 \<Rightarrow> u8 list list \<Rightarrow> page btree_result" where
  "filled_page level es = obind (bt_init level (flags_for_level level)) (\<lambda>page. add_entries page es)"

lemma bt_ex_node:
  assumes "level \<le> 15" and "\<And>e. e \<in> set es \<Longrightarrow> e \<noteq> []" and "sum_list (costs_of es) \<le> 8144"
  shows "\<exists>p. filled_page level es = Ok p \<and> bt_ok p \<and>
    node p = \<lparr>node_lsn = 0, node_level = level, node_flags = flags_for_level level, node_prev = 0, node_next = 0,
      node_entries = es\<rparr> \<and> free_space p = 8144 - sum_list (costs_of es)"
proof -
  obtain i where i: "bt_init level (flags_for_level level) = Ok i" "bt_ok i" "upper_of i = 8176" "slot_count i = 0"
    "node i = \<lparr>node_lsn = 0, node_level = level, node_flags = flags_for_level level, node_prev = 0, node_next = 0,
      node_entries = []\<rparr>"
    using bt_init_node [OF assms(1) flags_for_level_nibble] by blast
  have e: "entries i = []" using i(5) by (simp add: node_def)
  have f: "free_space i = 8144" using bt_free_space(2) [OF i(2)] i(3,4) by simp
  then show ?thesis using add_entries_node [OF i(2) assms(2), of es] assms(3) e i(1,5) by (auto simp: filled_page_def)
qed

lemma bt_ex_page:
  assumes "level \<le> 15" and "\<And>e. e \<in> set es \<Longrightarrow> e \<noteq> []" and "sum_list (costs_of es) \<le> 8144"
  shows "\<exists>p. filled_page level es = Ok p \<and> bt_ok p \<and> entries p = es \<and>
    free_space p = 8144 - sum_list (costs_of es) \<and> slot_count p = length es"
proof -
  obtain p where p: "filled_page level es = Ok p" "bt_ok p"
    "node_entries (node p) = es" "free_space p = 8144 - sum_list (costs_of es)"
    using bt_ex_node [OF assms] by auto
  then have "entries p = es" by (simp add: node_def)
  with p show ?thesis by (metis length_entries)
qed

definition tid_ex :: "u16 \<Rightarrow> Tid" where "tid_ex n = \<lparr>page_id = 9, slot_id = n\<rparr>"

section \<open>Properties\<close>

text \<open>
  C26. Inserting \<^verbatim>\<open>(key, tid)\<close> on a sorted leaf.  The search reports \<^verbatim>\<open>DuplicateKey\<close> exactly when the
  pair is already on the leaf, full or not.  Otherwise it returns a slot, and the insertion at that slot
  succeeds exactly when the free space holds the entry and a line pointer; it then keeps the leaf strictly
  sorted and adds exactly that entry.  When it does not fit, the insertion is refused for its size.
\<close>

theorem leaf_insert_keeps_order:
  assumes ok: "bt_ok p" and so: "page_sorted True p"
  shows "if (key, page_id tid, slot_id tid) \<in> entry_ord True ` set (entries p)
    then leaf_insert_slot p key tid = Err DuplicateKey
    else \<exists>slot. leaf_insert_slot p key tid = Ok slot \<and>
      (if length key + 14 \<le> free_space p
       then \<exists>q. insert_entry_at p slot (encode_leaf_entry key tid) = Ok q \<and> bt_ok q \<and> page_sorted True q \<and>
         set (entries q) = insert (encode_leaf_entry key tid) (set (entries p))
       else insert_entry_at p slot (encode_leaf_entry key tid) \<in>
         {Err (KeyTooLarge (length key + 10)), Err (PageFull (length key + 14) (free_space p))})"
proof (cases "(key, page_id tid, slot_id tid) \<in> entry_ord True ` set (entries p)")
  case True
  then show ?thesis using leaf_insert_slot_correct [OF ok so, of key tid] by simp
next
  case False
  let ?e = "encode_leaf_entry key tid"
  obtain k where k: "k \<le> slot_count p" "leaf_insert_slot p key tid = Ok (of_nat k)"
    "\<And>e. e \<in> set (take k (entries p)) \<Longrightarrow> entry_ord True e < entry_ord True ?e"
    "\<And>e. e \<in> set (drop k (entries p)) \<Longrightarrow> entry_ord True ?e < entry_ord True e"
    using leaf_insert_slot_correct [OF ok so, of key tid] False unfolding entry_ord_encode(1) by auto
  have s: "sorted_wrt (<) (map (entry_ord True) (entries p))" using so by (simp add: page_sorted_def)
  have len: "length ?e = length key + 10" by (simp add: encode_leaf_entry_def)
  then have ne: "?e \<noteq> []" by auto
  have kk: "unat (of_nat k :: u16) \<le> slot_count p" using k(1) btpage.small [OF ok] by simp
  have "bt_ok q \<and> page_sorted True q \<and> set (entries q) = insert ?e (set (entries p))"
    if i: "insert_entry_at p (of_nat k) ?e = Ok q" for q
  proof -
    have "bt_ok q \<and> entries q = take k (entries p) @ ?e # drop k (entries p) \<and>
      sorted_wrt (<) (map (entry_ord True) (entries q))"
      by (rule btpage.sorted_insert [OF ok i _ s]) (use k in auto)
    then have q: "bt_ok q" "entries q = take k (entries p) @ ?e # drop k (entries p)"
      "sorted_wrt (<) (map (entry_ord True) (entries q))" by blast+
    have "set (entries q) = insert ?e (set (take k (entries p)) \<union> set (drop k (entries p)))" unfolding q(2) by auto
    also have "set (take k (entries p)) \<union> set (drop k (entries p)) = set (entries p)"
      by (metis append_take_drop_id set_append)
    finally have "set (entries q) = insert ?e (set (entries p))" .
    then show ?thesis using q so entry_ord_encode(3) by (simp add: page_sorted_def)
  qed
  then show ?thesis
    using False k(2) insert_entry_at_eq [OF ok ne kk] bt_free_space(1) [OF ok] by (auto simp: len)
qed

theorem leaf_insert_keeps_order_witness:
  "\<exists>p slot q. filled_page 0 [encode_leaf_entry [5] (tid_ex 1)] = Ok p \<and> leaf_insert_slot p [5] (tid_ex 1) = Err DuplicateKey \<and>
     leaf_insert_slot p [3] (tid_ex 2) = Ok slot \<and> insert_entry_at p slot (encode_leaf_entry [3] (tid_ex 2)) = Ok q \<and>
     page_sorted True q"
proof -
  let ?es = "[encode_leaf_entry [5] (tid_ex 1)]"
  obtain p where p: "filled_page 0 ?es = Ok p" "bt_ok p" "entries p = ?es" "free_space p = 8129"
    using bt_ex_page [of 0 ?es] by (auto simp: encode_leaf_entry_def)
  have so: "page_sorted True p" by (simp add: page_sorted_def p entry_ord_encode)
  note c26 = leaf_insert_keeps_order [OF p(2) so]
  have "leaf_insert_slot p [5] (tid_ex 1) = Err DuplicateKey"
    using c26 [of "[5]" "tid_ex 1"] by (simp add: p(3) entry_ord_encode)
  moreover have "\<exists>slot q. leaf_insert_slot p [3] (tid_ex 2) = Ok slot \<and>
      insert_entry_at p slot (encode_leaf_entry [3] (tid_ex 2)) = Ok q \<and> page_sorted True q"
    using c26 [of "[3]" "tid_ex 2"] p(4) by (auto simp: p(3) entry_ord_encode)
  ultimately show ?thesis using p(1) by blast
qed

text \<open>
  C27. The descent rule returns the child of the last entry whose key is at most the probe, or the
  leftmost child when every key is above it.
\<close>

theorem find_child_descends:
  assumes ok: "bt_ok p" and so: "page_sorted False p" and ne: "0 < slot_count p"
  shows "\<exists>i < slot_count p. find_child p key = Ok (fst (snd (entry_ord False (entries p ! i)))) \<and>
    (\<forall>j < slot_count p. (j \<le> i \<and> 0 < i \<longrightarrow> fst (entry_ord False (entries p ! j)) \<le> key) \<and>
      (i < j \<longrightarrow> key < fst (entry_ord False (entries p ! j))))"
proof -
  let ?P = "\<lambda>e. fst (entry_ord False e) \<le> key"
  let ?test = "\<lambda>bytes. obind (decode_internal_entry bytes) (\<lambda>(k, _). Ok (k \<le> key))"
  have wf: "wf_entry False e" if "e \<in> set (entries p)" for e using so that by (simp add: page_sorted_def)
  have t: "?test e = Ok (?P e)" if "e \<in> set (entries p)" for e by (simp add: decode_internal_ord(1) [OF wf [OF that]])
  have le: "fst a \<le> fst b" if "a < b" for a b :: "u8 list \<times> u64 \<times> u16"
    using that by (auto simp: less_prod_def' le_less)
  have imp: "?P a" if "entry_ord False a < entry_ord False b" "?P b" for a b
    using le [OF that(1)] that(2) by (rule order_trans)
  have "sorted_wrt (\<lambda>a b. entry_ord False a < entry_ord False b) (entries p)"
    using so by (simp add: page_sorted_def sorted_wrt_map)
  then have m: "sorted_wrt (\<lambda>a b. ?P b \<longrightarrow> ?P a) (entries p)"
    by (rule sorted_wrt_mono_rel [rotated]) (use imp in blast)
  obtain k where k: "k \<le> slot_count p" "bsearch (\<lambda>mid. obind (entry_bytes p (of_nat mid)) ?test) 0 (slot_count p) = Ok k"
    "\<And>e. e \<in> set (take k (entries p)) \<Longrightarrow> ?P e" "\<And>e. e \<in> set (drop k (entries p)) \<Longrightarrow> \<not> ?P e"
    using btpage.search [OF ok t m] unfolding length_entries by blast
  have small: "k - 1 < slot_count p" "unat (of_nat (k - 1) :: u16) = k - 1"
    using k(1) ne btpage.small [OF ok] by (auto simp del: of_nat_diff)
  have "find_child p key = obind (entry_bytes p (of_nat (k - 1))) (\<lambda>bytes.
      obind (decode_internal_entry bytes) (\<lambda>(_, child). Ok child))"
    unfolding find_child_def Let_def k(2) obind.simps using ne by (intro if_not_P) simp
  then have "find_child p key = Ok (fst (snd (entry_ord False (entries p ! (k - 1)))))"
    unfolding entry_bytes_eq [OF ok] small(2) using small(1) by (simp add: decode_internal_ord(1) wf)
  moreover have "?P (entries p ! j)" if "j < slot_count p" "j \<le> k - 1" "0 < k - 1" for j
  proof (rule k(3))
    show "entries p ! j \<in> set (take k (entries p))"
      unfolding in_set_conv_nth by (rule exI [of _ j]) (use that k(1) in simp)
  qed
  moreover have "key < fst (entry_ord False (entries p ! j))" if "j < slot_count p" "k - 1 < j" for j
  proof -
    have "entries p ! j \<in> set (drop k (entries p))"
      unfolding in_set_conv_nth by (rule exI [of _ "j - k"]) (use that in simp)
    then show ?thesis using k(4) by (simp add: not_le)
  qed
  ultimately show ?thesis using small(1) by blast
qed

theorem find_child_descends_witness:
  "\<exists>p. filled_page 1 [encode_internal_entry [7] 42] = Ok p \<and> find_child p [3] = Ok 42"
proof -
  let ?es = "[encode_internal_entry [7] 42]"
  obtain p where p: "filled_page 1 ?es = Ok p" "bt_ok p" "entries p = ?es" "slot_count p = 1"
    using bt_ex_page [of 1 ?es] by (auto simp: encode_internal_entry_def)
  have "page_sorted False p" by (simp add: page_sorted_def p entry_ord_encode)
  then show ?thesis using find_child_descends [OF p(2), of "[3]"] p by (auto simp: entry_ord_encode)
qed

text \<open>
  C22. Splitting a sorted page for a pending entry.  A page with fewer than two entries is refused as
  corrupted.  On any other the split succeeds: a split point is found, the copy step gives two well-formed,
  sorted, non-empty pages whose entries together are the old ones in order, and the half the pending entry
  sorts into has room for it.  The bound is the index key limit, on the old entries and on the pending one.
\<close>

theorem split_makes_room:
  assumes ok: "bt_ok l" and so: "page_sorted (level = 0) l"
    and w: "wf_entry (level = 0) x" and new: "entry_ord (level = 0) x \<notin> entry_ord (level = 0) ` set (entries l)"
    and bound: "\<And>e. e \<in> set (x # entries l) \<Longrightarrow> length e \<le> MAX_INDEX_KEY_BYTES + LEAF_TRAILER_SIZE"
    and fresh: "init_right_page left_id left_old_next level = Ok r"
  shows "if slot_count l < 2 then choose_split_slot l level (Some x) = Err Corrupted
    else \<exists>s l' r'. choose_split_slot l level (Some x) = Ok s \<and> apply_split_copy l r s True = Ok (l', r') \<and>
    bt_ok l' \<and> bt_ok r' \<and> page_sorted (level = 0) l' \<and> page_sorted (level = 0) r' \<and>
    entries l = entries l' @ entries r' \<and> entries l' \<noteq> [] \<and> entries r' \<noteq> [] \<and>
    length x + 4 \<le> free_space (if entry_ord (level = 0) x < entry_ord (level = 0) (hd (entries r')) then l' else r')"
proof (cases "slot_count l < 2")
  case True
  then show ?thesis by (simp add: choose_split_slot_def Let_def)
next
  case False
  then have n: "2 \<le> slot_count l" by simp
  obtain s k where s: "choose_split_slot l level (Some x) = Ok (of_nat s)" "1 \<le> s" "s < slot_count l"
    "entry_lower_bound l x (level = 0) = Ok k" "valid_split (costs_of (entries l)) (length x + 4) k s"
    using choose_split_slot_correct [OF ok so n w bound] by blast
  have k: "k \<le> slot_count l" "\<And>e. e \<in> set (take k (entries l)) \<Longrightarrow> entry_ord (level = 0) e < entry_ord (level = 0) x"
    "\<And>e. e \<in> set (drop k (entries l)) \<Longrightarrow> entry_ord (level = 0) x \<le> entry_ord (level = 0) e"
    using entry_lower_bound_correct [OF ok so w] s(4) by auto
  have lands: "entry_ord (level = 0) x < entry_ord (level = 0) (entries l ! s) \<longleftrightarrow> k \<le> s"
    by (rule split_lands [OF so s(3) k(1)]) (use k(2,3) new in blast)+
  have r: "bt_ok r" "entries r = []" "free_space r = 8144"
    using init_right_page_node [OF init_right_page_level [OF fresh], of left_id left_old_next] fresh by (auto simp: node_def)
  have "s \<le> slot_count l" using s(3) by simp
  note cp = apply_split_copy_correct [OF ok r(1) s(2) this, of True]
  obtain l' r' where c: "apply_split_copy l r (of_nat s) True = Ok (l', r')" "bt_ok l'" "bt_ok r'"
    "entries l' = take s (entries l)" "entries r' = drop s (entries l)"
    "free_space l' = 8144 - sum_list (costs_of (take s (entries l)))"
    "free_space r' = 8144 - sum_list (costs_of (drop s (entries l)))"
    using cp split_room(3) [OF s(5)] r by (auto simp: node_def)
  have "page_sorted (level = 0) l'" by (rule page_sorted_part [OF so, of "[]" _ "drop s (entries l)"]) (simp add: c)
  moreover have "page_sorted (level = 0) r'" by (rule page_sorted_part [OF so, of "take s (entries l)" _ "[]"]) (simp add: c)
  moreover have "hd (entries r') = entries l ! s" using s(3) by (simp add: c(5) hd_drop_conv_nth)
  moreover have "length x + 4 \<le> free_space (if entry_ord (level = 0) x < entry_ord (level = 0) (entries l ! s) then l' else r')"
    unfolding lands using split_room(1,2) [OF s(5)] c(6,7) by simp
  moreover have "entries l' \<noteq> []" "entries r' \<noteq> []" "entries l = entries l' @ entries r'"
    using s(2,3) by (auto simp: c(4,5) length_0_conv [symmetric] simp del: length_0_conv)
  ultimately show ?thesis using False s(1) c(1-3) by (simp only: if_False) metis
qed

theorem split_makes_room_witness:
  "\<exists>l r s l' r'. filled_page 0 [encode_leaf_entry [5] (tid_ex 1), encode_leaf_entry [7] (tid_ex 2)] = Ok l \<and>
     init_right_page 11 0 0 = Ok r \<and> choose_split_slot l 0 (Some (encode_leaf_entry [6] (tid_ex 3))) = Ok s \<and>
     apply_split_copy l r s True = Ok (l', r') \<and> entries l = entries l' @ entries r'"
proof -
  let ?es = "[encode_leaf_entry [5] (tid_ex 1), encode_leaf_entry [7] (tid_ex 2)]" and ?x = "encode_leaf_entry [6] (tid_ex 3)"
  have "\<exists>l. filled_page 0 ?es = Ok l \<and> bt_ok l \<and> entries l = ?es \<and>
    free_space l = 8144 - sum_list (costs_of ?es) \<and> slot_count l = length ?es"
    by (rule bt_ex_page) (auto simp: encode_leaf_entry_def)
  then obtain l where l: "filled_page 0 ?es = Ok l" "bt_ok l" "entries l = ?es"
    "slot_count l = 2" by auto
  obtain r where r: "init_right_page 11 0 0 = Ok r" using init_right_page_node [of 0 11 0] by auto
  have so: "page_sorted (0 = (0 :: u8)) l" by (simp add: page_sorted_def l entry_ord_encode)
  have new: "entry_ord (0 = (0 :: u8)) ?x \<notin> entry_ord (0 = (0 :: u8)) ` set (entries l)"
    by (simp add: l entry_ord_encode)
  have b: "length e \<le> MAX_INDEX_KEY_BYTES + LEAF_TRAILER_SIZE" if "e \<in> set (?x # entries l)" for e
    using that by (auto simp: l encode_leaf_entry_def MAX_INDEX_KEY_BYTES_def PAGE_SIZE_def LEAF_TRAILER_SIZE_def)
  have "wf_entry (0 = (0 :: u8)) ?x" by (simp add: entry_ord_encode)
  then have "\<exists>s l' r'. choose_split_slot l 0 (Some ?x) = Ok s \<and> apply_split_copy l r s True = Ok (l', r') \<and>
      entries l = entries l' @ entries r'"
    using split_makes_room [OF l(2) so _ new b r] l(4) by auto
  then show ?thesis using l(1) r by blast
qed

end
