(* ===== verification/Btree_Redo.thy ===== *)
theory Btree_Redo
  imports Btree_Node
begin

unbundle bit_operations_syntax

text \<open>
  The logged page changes of the B+Tree and their replay: the steps of
  \<^verbatim>\<open>pg-am-btree/src/index.rs\<close> that append a WAL record and change pages (entry insert and delete,
  and the three steps of a split), the redo handlers of \<^verbatim>\<open>pg-am-btree/src/redo.rs\<close>, and
  \<^verbatim>\<open>apply_split_clr\<close>.  The lemmas show that replay converges: whichever of the pages a
  step changed had reached the disk, replaying its record gives the page images of the running
  system, byte for byte.

  The buffer pool appears as the images it serves and the images on disk; a page it cannot serve
  is an error.  The LSN the WAL writer returns for a record is an argument of the step.  A step
  that fails leaves the images as they were: every caller of these functions gives up on an error.
\<close>

section \<open>Records\<close>

record BTreeInsertRecord =
  ins_page_id :: PageId
  ins_slot_id :: u16
  ins_level :: u8
  ins_flags :: u8
  ins_tuple_bytes :: "u8 list"

record BTreeDeleteRecord =
  del_page_id :: PageId
  del_slot_id :: u16

record BTreeSplitPrepareRecord =
  prep_left_page :: PageId
  prep_new_right_page :: PageId
  prep_level :: u8
  prep_left_old_next :: PageId
  prep_high_key_bytes :: "u8 list"

record BTreeSplitCopyRecord =
  copy_left_page :: PageId
  copy_right_page :: PageId
  copy_copy_start_slot :: u16
  copy_left_page_pre_lsn :: Lsn

record BTreeSplitCommitRecord =
  commit_left_page :: PageId
  commit_right_page :: PageId
  commit_parent_page :: PageId
  commit_separator_key :: "u8 list"
  commit_parent_insert_slot :: u16

record BTreeSplitCLRRecord =
  clr_left_page :: PageId
  clr_right_page :: PageId
  clr_level :: u8
  clr_copy_start_slot :: u16
  clr_redo_ref_lsn :: Lsn
  clr_parent_page :: PageId
  clr_parent_insert_slot :: u16
  clr_new_root_page :: PageId
  clr_meta_page :: PageId
  clr_separator_key :: "u8 list"

section \<open>The online steps\<close>

definition insert_into_page ::
    "PageId \<Rightarrow> page \<Rightarrow> u16 \<Rightarrow> u8 list \<Rightarrow> Lsn \<Rightarrow> (page \<times> BTreeInsertRecord) btree_result" where
  "insert_into_page pid page slot entry lsn =
     obind (bt_level page) (\<lambda>level. obind (bt_flags page) (\<lambda>flags.
     let rec = \<lparr>ins_page_id = pid, ins_slot_id = slot, ins_level = level, ins_flags = flags,
                ins_tuple_bytes = entry\<rparr>
     in obind (insert_entry_at page slot entry) (\<lambda>page. Ok (stamp_pd_lsn page lsn, rec))))"

text \<open>The part of \<^verbatim>\<open>delete\<close> that runs under the leaf's write latch.\<close>

definition delete_on_leaf :: "PageId \<Rightarrow> page \<Rightarrow> u8 list \<Rightarrow> Tid \<Rightarrow> Lsn \<Rightarrow> (page \<times> BTreeDeleteRecord) btree_result" where
  "delete_on_leaf leaf page key tid lsn =
     obind (leaf_lower_bound page key tid) (\<lambda>pos.
       if slot_count page \<le> pos then Err EntryNotFound
       else obind (entry_bytes page (of_nat pos)) (\<lambda>bytes. obind (decode_leaf_entry bytes) (\<lambda>(k, t).
         if k \<noteq> key \<or> t \<noteq> tid then Err EntryNotFound
         else let slot = of_nat pos; rec = \<lparr>del_page_id = leaf, del_slot_id = slot\<rparr>
              in obind (remove_entry_at page slot) (\<lambda>page. Ok (stamp_pd_lsn page lsn, rec)))))"

record SplitState =
  st_left :: PageId
  st_right :: PageId
  st_level :: u8
  st_copy_start_slot :: u16
  st_prepare_lsn :: Lsn

text \<open>
  \<^verbatim>\<open>split_prepare_on_guards\<close>: \<open>fpi_lsn\<close> is the LSN of the right page's post-image, \<open>lsn\<close> that of
  the Prepare record.  The result carries both new images and the Prepare record.
\<close>

definition split_prepare_on_guards ::
    "PageId \<Rightarrow> page \<Rightarrow> PageId \<Rightarrow> u8 list option \<Rightarrow> Lsn \<Rightarrow> Lsn \<Rightarrow>
     (SplitState \<times> page \<times> page \<times> BTreeSplitPrepareRecord) btree_result" where
  "split_prepare_on_guards left page right pending fpi_lsn lsn =
     obind (bt_level page) (\<lambda>level.
     obind (bt_flags page) (\<lambda>flags.
     if flags AND BTREE_FLAG_SPLIT_INCOMPLETE \<noteq> 0 then Err Unsupported
     else obind (bt_next page) (\<lambda>old_next.
     let count = slot_count page in
     if count < 2 then Err Corrupted
     else obind (entry_bytes page (of_nat (count - 1))) (\<lambda>bytes.
     obind (entry_key bytes level) (\<lambda>high_key.
     obind (choose_split_slot page level pending) (\<lambda>copy_start_slot.
     obind (init_right_page left old_next level) (\<lambda>right_page.
     let right_page = stamp_pd_lsn right_page fpi_lsn;
         rec = \<lparr>prep_left_page = left, prep_new_right_page = right, prep_level = level,
                prep_left_old_next = old_next, prep_high_key_bytes = high_key\<rparr>;
         right_page = stamp_pd_lsn right_page lsn
     in obind (apply_prepare_left page right) (\<lambda>page.
     Ok (\<lparr>st_left = left, st_right = right, st_level = level, st_copy_start_slot = copy_start_slot,
          st_prepare_lsn = lsn\<rparr>, stamp_pd_lsn page lsn, right_page, rec)))))))))"

definition split_copy_on_guards ::
    "page \<Rightarrow> page \<Rightarrow> SplitState \<Rightarrow> Lsn \<Rightarrow> (page \<times> page \<times> BTreeSplitCopyRecord) btree_result" where
  "split_copy_on_guards left_page right_page st lsn =
     (let rec = \<lparr>copy_left_page = st_left st, copy_right_page = st_right st,
                 copy_copy_start_slot = st_copy_start_slot st, copy_left_page_pre_lsn = page_pd_lsn left_page\<rparr>
      in obind (apply_split_copy left_page right_page (st_copy_start_slot st) True) (\<lambda>(left_page, right_page).
         Ok (stamp_pd_lsn left_page lsn, stamp_pd_lsn right_page lsn, rec)))"

text \<open>The record and page changes at the end of \<^verbatim>\<open>split_commit\<close>, with the downlink's place known.\<close>

definition split_commit_apply ::
    "SplitState \<Rightarrow> page \<Rightarrow> PageId \<Rightarrow> page \<Rightarrow> u8 list \<Rightarrow> u16 \<Rightarrow> Lsn \<Rightarrow>
     (page \<times> page \<times> BTreeSplitCommitRecord) btree_result" where
  "split_commit_apply st left_page parent parent_page separator slot lsn =
     (let downlink = encode_internal_entry separator (st_right st);
          rec = \<lparr>commit_left_page = st_left st, commit_right_page = st_right st, commit_parent_page = parent,
                 commit_separator_key = separator, commit_parent_insert_slot = slot\<rparr>
      in obind (insert_entry_at parent_page slot downlink) (\<lambda>parent_page.
         obind (apply_commit_left left_page) (\<lambda>left_page.
         Ok (stamp_pd_lsn left_page lsn, stamp_pd_lsn parent_page lsn, rec))))"

section \<open>The context of a redo handler\<close>

record IncompleteSplit =
  is_left_page :: PageId
  is_right_page :: PageId
  is_level :: u8
  is_left_old_next :: PageId
  is_copy_start_slot :: "u16 option"
  is_prepare_lsn :: Lsn

type_synonym IncompleteSplitTracker = "(PageId, IncompleteSplit) hmap"

definition mark_prepare ::
    "IncompleteSplitTracker \<Rightarrow> PageId \<Rightarrow> PageId \<Rightarrow> u8 \<Rightarrow> PageId \<Rightarrow> Lsn \<Rightarrow> IncompleteSplitTracker" where
  "mark_prepare splits left_page right_page level left_old_next prepare_lsn =
     hm_insert left_page
       \<lparr>is_left_page = left_page, is_right_page = right_page, is_level = level,
        is_left_old_next = left_old_next, is_copy_start_slot = None, is_prepare_lsn = prepare_lsn\<rparr> splits"

definition mark_copy :: "IncompleteSplitTracker \<Rightarrow> PageId \<Rightarrow> u16 \<Rightarrow> IncompleteSplitTracker" where
  "mark_copy splits left_page copy_start_slot =
     (case hm_get splits left_page of
        None \<Rightarrow> splits
      | Some split \<Rightarrow> hm_insert left_page (split\<lparr>is_copy_start_slot := Some copy_start_slot\<rparr>) splits)"

definition clear_split :: "IncompleteSplitTracker \<Rightarrow> PageId \<Rightarrow> IncompleteSplitTracker" where
  "clear_split splits left_page = hm_remove left_page splits"

record redo_ctx =
  ctx_pool :: "(PageId, page) hmap"
  ctx_disk :: "(PageId, page) hmap"
  ctx_splits :: IncompleteSplitTracker

definition pool_pin :: "PageId \<Rightarrow> (redo_ctx, page) io" where
  "pool_pin pid ctx =
     (case hm_get (ctx_pool ctx) pid of None \<Rightarrow> (Err (PageNotFound pid), ctx) | Some p \<Rightarrow> (Ok p, ctx))"

definition pool_put :: "PageId \<Rightarrow> page \<Rightarrow> (redo_ctx, unit) io" where
  "pool_put pid page ctx = (Ok (), ctx\<lparr>ctx_pool := hm_insert pid page (ctx_pool ctx)\<rparr>)"

definition pool_flush :: "PageId \<Rightarrow> (redo_ctx, unit) io" where
  "pool_flush pid ctx =
     (if pid = PageId_INVALID then (Err InvalidConfig, ctx)
      else case hm_get (ctx_pool ctx) pid of
        None \<Rightarrow> (Err (PageNotFound pid), ctx)
      | Some p \<Rightarrow> (Ok (), ctx\<lparr>ctx_disk := hm_insert pid p (ctx_disk ctx)\<rparr>))"

definition force_reload_from_disk :: "PageId \<Rightarrow> (redo_ctx, Lsn) io" where
  "force_reload_from_disk pid ctx =
     (case hm_get (ctx_disk ctx) pid of
        None \<Rightarrow> (Ok Lsn_INVALID, ctx)
      | Some img \<Rightarrow>
          (case hm_get (ctx_pool ctx) pid of
             None \<Rightarrow> (Err (PageNotFound pid), ctx)
           | Some _ \<Rightarrow> (Ok (page_pd_lsn img), ctx\<lparr>ctx_pool := hm_insert pid img (ctx_pool ctx)\<rparr>)))"

definition update_splits :: "(IncompleteSplitTracker \<Rightarrow> IncompleteSplitTracker) \<Rightarrow> (redo_ctx, unit) io" where
  "update_splits f ctx = (Ok (), ctx\<lparr>ctx_splits := f (ctx_splits ctx)\<rparr>)"

fun btree_to_storage :: "BTreeError \<Rightarrow> StorageError" where
  "btree_to_storage (Storage s) = s"
| "btree_to_storage _ = MetadataCorrupted"

fun map_err :: "('e \<Rightarrow> 'f) \<Rightarrow> ('a, 'e) outcome \<Rightarrow> ('a, 'f) outcome" where
  "map_err f (Ok x) = Ok x"
| "map_err f (Err e) = Err (f e)"
| "map_err f Panic = Panic"

text \<open>A page computation inside a handler, and a handler step inside a B+Tree function.\<close>

definition lift_bt :: "'a btree_result \<Rightarrow> (redo_ctx, 'a) io" where
  "lift_bt r ctx = (map_err btree_to_storage r, ctx)"

definition bt_ok_or :: "'a btree_result \<Rightarrow> (redo_ctx, 'a, BTreeError) sio" where
  "bt_ok_or r ctx = (r, ctx)"

definition from_storage :: "(redo_ctx, 'a) io \<Rightarrow> (redo_ctx, 'a, BTreeError) sio" where
  "from_storage m ctx = (case m ctx of (r, ctx') \<Rightarrow> (map_err Storage r, ctx'))"

definition to_storage :: "(redo_ctx, 'a, BTreeError) sio \<Rightarrow> (redo_ctx, 'a) io" where
  "to_storage m ctx = (case m ctx of (r, ctx') \<Rightarrow> (map_err btree_to_storage r, ctx'))"

definition fail :: "'e \<Rightarrow> ('s, 'a, 'e) sio" where
  "fail e s = (Err e, s)"

section \<open>Copy with its flush\<close>

text \<open>
  The end of \<^verbatim>\<open>split_copy_on_guards\<close> writes the right page to disk before the left page's latch is
  released; a right page the pool has already evicted is durable, so \<^verbatim>\<open>PageNotFound\<close> is not an error.
\<close>

definition flush_right :: "PageId \<Rightarrow> (redo_ctx, unit, BTreeError) sio" where
  "flush_right right ctx =
     (case pool_flush right ctx of
        (Err (PageNotFound _), ctx') \<Rightarrow> (Ok (), ctx')
      | (r, ctx') \<Rightarrow> (map_err Storage r, ctx'))"

definition split_copy :: "SplitState \<Rightarrow> Lsn \<Rightarrow> (redo_ctx, Lsn \<times> BTreeSplitCopyRecord, BTreeError) sio" where
  "split_copy st lsn =
     sbind (from_storage (pool_pin (st_left st))) (\<lambda>left_page.
     sbind (from_storage (pool_pin (st_right st))) (\<lambda>right_page.
     sbind (bt_ok_or (split_copy_on_guards left_page right_page st lsn)) (\<lambda>(left_page, right_page, rec).
     sbind (from_storage (pool_put (st_left st) left_page)) (\<lambda>_.
     sbind (from_storage (pool_put (st_right st) right_page)) (\<lambda>_.
     sbind (flush_right (st_right st)) (\<lambda>_.
     sret (lsn, rec)))))))"

section \<open>The redo handlers\<close>

definition redo_btree_insert :: "BTreeInsertRecord \<Rightarrow> Lsn \<Rightarrow> (redo_ctx, unit) io" where
  "redo_btree_insert rec lsn =
     sbind (pool_pin (ins_page_id rec)) (\<lambda>page.
       if lsn \<le> page_pd_lsn page then sret ()
       else sbind (lift_bt (bt_init_if_fresh page (ins_level rec) (ins_flags rec))) (\<lambda>(page, _).
            sbind (lift_bt (insert_entry_at page (ins_slot_id rec) (ins_tuple_bytes rec))) (\<lambda>page.
            pool_put (ins_page_id rec) (stamp_pd_lsn page lsn))))"

definition redo_btree_delete :: "BTreeDeleteRecord \<Rightarrow> Lsn \<Rightarrow> (redo_ctx, unit) io" where
  "redo_btree_delete rec lsn =
     sbind (pool_pin (del_page_id rec)) (\<lambda>page.
       if lsn \<le> page_pd_lsn page then sret ()
       else sbind (lift_bt (remove_entry_at page (del_slot_id rec))) (\<lambda>page.
            pool_put (del_page_id rec) (stamp_pd_lsn page lsn)))"

text \<open>The high-key check of the left page: the last entry's key must be the record's.\<close>

definition check_high_key :: "page \<Rightarrow> BTreeSplitPrepareRecord \<Rightarrow> (redo_ctx, unit) io" where
  "check_high_key page rec =
     (let count = of_nat (slot_count page) :: u16 in
      if 0 < count
      then sbind (lift_bt (from_heap (tuple_at page (count - 1)))) (\<lambda>t.
             case t of
               None \<Rightarrow> fail MetadataCorrupted
             | Some bytes \<Rightarrow>
                 sbind (if prep_level rec = 0 then lift_bt (obind (decode_leaf_entry bytes) (\<lambda>(k, _). Ok k))
                        else lift_bt (obind (decode_internal_entry bytes) (\<lambda>(k, _). Ok k))) (\<lambda>key.
                 if key \<noteq> prep_high_key_bytes rec then fail MetadataCorrupted else sret ()))
      else sret ())"

definition redo_split_prepare :: "BTreeSplitPrepareRecord \<Rightarrow> Lsn \<Rightarrow> (redo_ctx, unit) io" where
  "redo_split_prepare rec lsn =
     sbind (update_splits (\<lambda>splits. mark_prepare splits (prep_left_page rec) (prep_new_right_page rec)
              (prep_level rec) (prep_left_old_next rec) lsn)) (\<lambda>_.
     sbind (pool_pin (prep_new_right_page rec)) (\<lambda>page.
     sbind (if page_pd_lsn page < lsn
            then sbind (lift_bt (init_right_page (prep_left_page rec) (prep_left_old_next rec) (prep_level rec))) (\<lambda>page.
                 pool_put (prep_new_right_page rec) (stamp_pd_lsn page lsn))
            else sret ()) (\<lambda>_.
     sbind (pool_pin (prep_left_page rec)) (\<lambda>page.
     if page_pd_lsn page < lsn
     then sbind (lift_bt (bt_init_if_fresh page (prep_level rec) (flags_for_level (prep_level rec)))) (\<lambda>(page, _).
          sbind (check_high_key page rec) (\<lambda>_.
          sbind (lift_bt (apply_prepare_left page (prep_new_right_page rec))) (\<lambda>page.
          pool_put (prep_left_page rec) (stamp_pd_lsn page lsn))))
     else sret ()))))"

definition redo_split_copy :: "BTreeSplitCopyRecord \<Rightarrow> Lsn \<Rightarrow> (redo_ctx, unit) io" where
  "redo_split_copy rec lsn =
     sbind (update_splits (\<lambda>splits. mark_copy splits (copy_left_page rec) (copy_copy_start_slot rec))) (\<lambda>_.
     sbind (pool_pin (copy_left_page rec)) (\<lambda>left_page.
     let left_lsn = page_pd_lsn left_page in
     sbind (pool_pin (copy_right_page rec)) (\<lambda>right_page.
     let right_lsn = page_pd_lsn right_page in
     if left_lsn \<noteq> copy_left_page_pre_lsn rec
     then if lsn \<le> left_lsn
          then if lsn \<le> right_lsn then sret ()
               else sbind (force_reload_from_disk (copy_right_page rec)) (\<lambda>disk_lsn.
                    if lsn \<le> disk_lsn then sret () else fail MetadataCorrupted)
          else if lsn \<le> right_lsn
          then sbind (lift_bt (apply_split_copy left_page right_page (copy_copy_start_slot rec) False)) (\<lambda>(left_page, right_page).
               pool_put (copy_left_page rec) (stamp_pd_lsn left_page lsn))
          else fail MetadataCorrupted
     else let move_to_right = right_lsn < lsn
          in sbind (lift_bt (apply_split_copy left_page right_page (copy_copy_start_slot rec) move_to_right)) (\<lambda>(left_page, right_page).
             sbind (if move_to_right then pool_put (copy_right_page rec) (stamp_pd_lsn right_page lsn) else sret ()) (\<lambda>_.
             sbind (pool_put (copy_left_page rec) (stamp_pd_lsn left_page lsn)) (\<lambda>_.
             pool_flush (copy_right_page rec)))))))"

definition redo_split_commit :: "BTreeSplitCommitRecord \<Rightarrow> Lsn \<Rightarrow> (redo_ctx, unit) io" where
  "redo_split_commit rec lsn =
     sbind (update_splits (\<lambda>splits. clear_split splits (commit_left_page rec))) (\<lambda>_.
     sbind (pool_pin (commit_parent_page rec)) (\<lambda>page.
     sbind (if page_pd_lsn page < lsn
            then if pd_upper (page_header page) = 0 then fail MetadataCorrupted
                 else let entry = encode_internal_entry (commit_separator_key rec) (commit_right_page rec)
                      in sbind (lift_bt (insert_entry_at page (commit_parent_insert_slot rec) entry)) (\<lambda>page.
                         pool_put (commit_parent_page rec) (stamp_pd_lsn page lsn))
            else sret ()) (\<lambda>_.
     sbind (pool_pin (commit_left_page rec)) (\<lambda>page.
     if page_pd_lsn page < lsn
     then if pd_upper (page_header page) = 0 then fail MetadataCorrupted
          else sbind (lift_bt (apply_commit_left page)) (\<lambda>page.
               pool_put (commit_left_page rec) (stamp_pd_lsn page lsn))
     else sret ()))))"

section \<open>Compensation records\<close>

definition clr_is_unlink :: "BTreeSplitCLRRecord \<Rightarrow> bool" where
  "clr_is_unlink rec \<longleftrightarrow> clr_parent_page rec = PageId_INVALID \<and> clr_new_root_page rec = PageId_INVALID \<and>
     clr_meta_page rec = PageId_INVALID"

text \<open>The left and right page of a CLR whose left page is behind the record.\<close>

definition clr_pages :: "BTreeSplitCLRRecord \<Rightarrow> Lsn \<Rightarrow> page \<Rightarrow> page \<Rightarrow> (page \<times> page) btree_result" where
  "clr_pages rec lsn left right =
     (if clr_is_unlink rec
      then obind (bt_next right) (\<lambda>right_next.
           obind (set_next left right_next) (\<lambda>left.
           obind (set_flag left BTREE_FLAG_SPLIT_INCOMPLETE False) (\<lambda>left.
           Ok (stamp_pd_lsn left lsn, stamp_pd_lsn right lsn))))
      else if 0 < slot_count right
      then obind (entry_bytes right 0) (\<lambda>right_first.
           obind (if 0 < slot_count left
                  then obind (entry_lower_bound left right_first (clr_level rec = 0)) (\<lambda>truncate_at.
                       if truncate_at = 0 then Err Corrupted
                       else apply_split_copy left right (of_nat truncate_at) False)
                  else Ok (left, right)) (\<lambda>(left, right).
           obind (set_next left (clr_right_page rec)) (\<lambda>left.
           obind (apply_commit_left left) (\<lambda>left.
           Ok (stamp_pd_lsn left lsn, stamp_pd_lsn right lsn)))))
      else if \<not> page_never_had_entries right then Err Corrupted
      else obind (apply_split_copy left right (clr_copy_start_slot rec) True) (\<lambda>(left, right).
           let right = stamp_pd_lsn right lsn in
           obind (set_next left (clr_right_page rec)) (\<lambda>left.
           obind (apply_commit_left left) (\<lambda>left.
           Ok (stamp_pd_lsn left lsn, right)))))"

text \<open>\<^verbatim>\<open>level + 1\<close> on a byte panics on overflow in a debug build.\<close>

definition level_succ :: "u8 \<Rightarrow> u8 btree_result" where
  "level_succ level = (if level = 255 then Panic else Ok (level + 1))"

definition clr_new_root :: "BTreeSplitCLRRecord \<Rightarrow> Lsn \<Rightarrow> page btree_result" where
  "clr_new_root rec lsn =
     obind (level_succ (clr_level rec)) (\<lambda>level.
     obind (bt_init level BTREE_FLAG_ROOT) (\<lambda>page.
     obind (from_heap (add_tuple page (encode_internal_entry [] (clr_left_page rec)))) (\<lambda>(page, _).
     obind (from_heap (add_tuple page (encode_internal_entry (clr_separator_key rec) (clr_right_page rec)))) (\<lambda>(page, _).
     Ok (stamp_pd_lsn page lsn)))))"

definition apply_split_clr :: "BTreeSplitCLRRecord \<Rightarrow> Lsn \<Rightarrow> (redo_ctx, unit, BTreeError) sio" where
  "apply_split_clr rec lsn =
     sbind (from_storage (pool_pin (clr_left_page rec))) (\<lambda>left.
     sbind (from_storage (pool_pin (clr_right_page rec))) (\<lambda>right.
     sbind (if page_pd_lsn left < lsn
            then sbind (bt_ok_or (clr_pages rec lsn left right)) (\<lambda>(left, right).
                 sbind (from_storage (pool_put (clr_left_page rec) left)) (\<lambda>_.
                 from_storage (pool_put (clr_right_page rec) right)))
            else if \<not> clr_is_unlink rec \<and> slot_count right = 0 \<and> page_never_had_entries right
            then fail Corrupted else sret ()) (\<lambda>_.
     sbind (from_storage (pool_flush (clr_right_page rec))) (\<lambda>_.
     sbind (if clr_new_root_page rec \<noteq> PageId_INVALID
            then sbind (from_storage (pool_pin (clr_new_root_page rec))) (\<lambda>page.
                 if page_pd_lsn page < lsn
                 then sbind (bt_ok_or (clr_new_root rec lsn)) (\<lambda>page. from_storage (pool_put (clr_new_root_page rec) page))
                 else sret ())
            else if clr_parent_page rec \<noteq> PageId_INVALID
            then sbind (from_storage (pool_pin (clr_parent_page rec))) (\<lambda>page.
                 if page_pd_lsn page < lsn
                 then let entry = encode_internal_entry (clr_separator_key rec) (clr_right_page rec)
                      in sbind (bt_ok_or (insert_entry_at page (clr_parent_insert_slot rec) entry)) (\<lambda>page.
                         from_storage (pool_put (clr_parent_page rec) (stamp_pd_lsn page lsn)))
                 else sret ())
            else sret ()) (\<lambda>_.
     if clr_meta_page rec \<noteq> PageId_INVALID
     then sbind (from_storage (pool_pin (clr_meta_page rec))) (\<lambda>page.
          if page_pd_lsn page < lsn
          then sbind (bt_ok_or (level_succ (clr_level rec))) (\<lambda>level.
               let slot = of_nat (slot_count page);
                   meta_bytes = encode_meta_record (clr_new_root_page rec) (ucast level)
               in sbind (bt_ok_or (insert_entry_at page slot meta_bytes)) (\<lambda>page.
                  from_storage (pool_put (clr_meta_page rec) (stamp_pd_lsn page lsn))))
          else sret ())
     else sret ())))))"

definition redo_split_clr :: "BTreeSplitCLRRecord \<Rightarrow> Lsn \<Rightarrow> (redo_ctx, unit) io" where
  "redo_split_clr rec lsn =
     sbind (update_splits (\<lambda>splits. clear_split splits (clr_left_page rec))) (\<lambda>_.
     to_storage (apply_split_clr rec lsn))"

section \<open>Stamps and images\<close>

lemma stamp_facts:
  assumes "8 \<le> length p"
  shows "page_pd_lsn (stamp_pd_lsn p lsn) = max lsn (page_pd_lsn p)" and "length (stamp_pd_lsn p lsn) = length p"
    and "page_pd_lsn p \<le> a \<Longrightarrow> a \<le> b \<Longrightarrow> stamp_pd_lsn (stamp_pd_lsn p a) b = stamp_pd_lsn p b"
proof -
  show l: "page_pd_lsn (stamp_pd_lsn p lsn) = max lsn (page_pd_lsn p)" for lsn
    using assms by (simp add: stamp_pd_lsn_def set_page_pd_lsn_def page_pd_lsn_def slice_of_write_same)
  show "length (stamp_pd_lsn p lsn) = length p" using assms by (simp add: stamp_pd_lsn_def set_page_pd_lsn_def)
  show "stamp_pd_lsn (stamp_pd_lsn p a) b = stamp_pd_lsn p b" if "page_pd_lsn p \<le> a" "a \<le> b"
  proof -
    have "max b (max a (page_pd_lsn p)) = max b (page_pd_lsn p)" using that by (metis max.absorb1 order_trans)
    then have "stamp_pd_lsn (stamp_pd_lsn p a) b = set_page_pd_lsn (stamp_pd_lsn p a) (max b (page_pd_lsn p))"
      unfolding stamp_pd_lsn_def [of "stamp_pd_lsn p a"] l by (rule arg_cong)
    also have "\<dots> = stamp_pd_lsn p b"
      using assms by (simp add: stamp_pd_lsn_def set_page_pd_lsn_def write_at_def)
    finally show ?thesis .
  qed
qed

lemma bt_ok_stamp:
  assumes "bt_ok p"
  shows "bt_ok (stamp_pd_lsn p lsn)" and "node (stamp_pd_lsn p lsn) = (node p)\<lparr>node_lsn := max lsn (page_pd_lsn p)\<rparr>"
    and "page_pd_lsn (stamp_pd_lsn p lsn) = max lsn (page_pd_lsn p)"
  using set_lsn_node [OF assms, of "max lsn (page_pd_lsn p)"] bt_okD(3) [OF assms]
  by (simp_all add: stamp_pd_lsn_def stamp_facts(1) [unfolded stamp_pd_lsn_def])

lemma page_pd_lsn_node: "page_pd_lsn p = node_lsn (node p)"
  by (simp add: node_def)

text \<open>The image the pool serves for a page.\<close>

abbreviation pooled :: "redo_ctx \<Rightarrow> PageId \<Rightarrow> page option" where
  "pooled ctx pid \<equiv> hm_get (ctx_pool ctx) pid"

named_theorems redo_simps \<open>evaluating a redo handler on known images\<close>

lemma redo_eval [redo_simps]:
  "pooled ctx pid = Some p \<Longrightarrow> sbind (pool_pin pid) f ctx = f p ctx"
  "sbind (pool_put pid p) g ctx = g () (ctx\<lparr>ctx_pool := hm_insert pid p (ctx_pool ctx)\<rparr>)"
  "sbind (update_splits h) g ctx = g () (ctx\<lparr>ctx_splits := h (ctx_splits ctx)\<rparr>)"
  "sbind (sret x) k ctx = k x ctx"
  "sbind (lift_bt (Ok y)) m ctx = m y ctx"
  "pool_put pid p ctx = (Ok (), ctx\<lparr>ctx_pool := hm_insert pid p (ctx_pool ctx)\<rparr>)"
  by (simp_all add: sbind_def pool_pin_def pool_put_def update_splits_def sret_def lift_bt_def)

lemma pooled_insert [redo_simps]:
  "pooled (ctx\<lparr>ctx_pool := hm_insert pid p (ctx_pool ctx)\<rparr>) q = (if q = pid then Some p else pooled ctx q)"
  "pooled (ctx\<lparr>ctx_splits := x\<rparr>) q = pooled ctx q"
  "pooled (ctx\<lparr>ctx_disk := y\<rparr>) q = pooled ctx q"
  by (simp_all add: hmap_simps)

lemma initialised_not_fresh:
  assumes "bt_ok p"
  shows "pd_upper (page_header p) \<noteq> 0" and "bt_init_if_fresh p l f = Ok (p, False)"
  using geometry_bounds [OF bt_okD(1) [OF assms]] by (auto simp: bt_init_if_fresh_def)

lemmas [redo_simps] = hm_get_insert

section \<open>Replay of an entry insert and delete\<close>

text \<open>What a run leaves of the other pages.\<close>

definition only_pages :: "PageId set \<Rightarrow> redo_ctx \<Rightarrow> redo_ctx \<Rightarrow> bool" where
  "only_pages A ctx ctx' \<longleftrightarrow> (\<forall>q. q \<notin> A \<longrightarrow> pooled ctx' q = pooled ctx q)"

lemma redo_insert_converges:
  assumes on: "insert_into_page pid page slot entry lsn = Ok (page', rec)" and ok: "bt_ok page"
    and lt: "page_pd_lsn page < lsn" and img: "pooled ctx pid = Some p" "p \<in> {page, page'}"
  shows "\<exists>ctx'. redo_btree_insert rec lsn ctx = (Ok (), ctx') \<and> pooled ctx' pid = Some page' \<and> only_pages {pid} ctx ctx'"
proof -
  obtain q where q: "insert_entry_at page slot entry = Ok q" "page' = stamp_pd_lsn q lsn"
    and rec: "ins_page_id rec = pid" "ins_slot_id rec = slot" "ins_tuple_bytes rec = entry"
    using on by (auto simp: insert_into_page_def bt_readers [OF ok] Let_def)
  have "page_pd_lsn page' = lsn"
    using bt_ok_stamp(3) [OF insert_entry_at_node(1) [OF ok q(1)]] insert_entry_at_node(4) [OF ok q(1)] lt
    by (simp add: q(2) page_pd_lsn_node max.absorb1 less_imp_le)
  then show ?thesis
    using img lt q rec initialised_not_fresh(2) [OF ok]
    by (auto simp: redo_btree_insert_def redo_simps only_pages_def not_le sret_def)
qed

lemma delete_on_leaf_Ok:
  assumes on: "delete_on_leaf pid page key tid lsn = Ok (page', rec)" and ok: "bt_ok page"
  shows "\<exists>slot q. remove_entry_at page slot = Ok q \<and> page' = stamp_pd_lsn q lsn \<and> unat slot < slot_count page \<and>
    rec = \<lparr>del_page_id = pid, del_slot_id = slot\<rparr> \<and> decode_leaf_entry (entries page ! unat slot) = Ok (key, tid)"
proof -
  obtain pos bytes q where p: "pos < slot_count page" "entry_bytes page (of_nat pos) = Ok bytes"
    "decode_leaf_entry bytes = Ok (key, tid)" "remove_entry_at page (of_nat pos) = Ok q"
    "page' = stamp_pd_lsn q lsn" "rec = \<lparr>del_page_id = pid, del_slot_id = of_nat pos\<rparr>"
    using on by (auto simp: delete_on_leaf_def Let_def not_le split: if_splits)
  moreover have "unat (of_nat pos :: u16) = pos" using p(1) btpage.small [OF ok] by simp
  ultimately show ?thesis by (intro exI [of _ "of_nat pos"] exI [of _ q]) (auto simp: entry_bytes_eq [OF ok])
qed

lemma redo_delete_converges:
  assumes on: "delete_on_leaf pid page key tid lsn = Ok (page', rec)" and ok: "bt_ok page"
    and lt: "page_pd_lsn page < lsn" and img: "pooled ctx pid = Some p" "p \<in> {page, page'}"
  shows "\<exists>ctx'. redo_btree_delete rec lsn ctx = (Ok (), ctx') \<and> pooled ctx' pid = Some page' \<and> only_pages {pid} ctx ctx'"
proof -
  obtain slot q where q: "remove_entry_at page slot = Ok q" "page' = stamp_pd_lsn q lsn" "unat slot < slot_count page"
    "rec = \<lparr>del_page_id = pid, del_slot_id = slot\<rparr>" using delete_on_leaf_Ok [OF on ok] by blast
  have "bt_ok q" "page_pd_lsn q = page_pd_lsn page"
    using remove_entry_at_node(1) [OF ok q(3)] q(1) by (auto simp: page_pd_lsn_node)
  then have "page_pd_lsn page' = lsn" using bt_ok_stamp(3) [of q] lt by (simp add: q(2) max.absorb1 less_imp_le)
  then show ?thesis
    using img lt q by (auto simp: redo_btree_delete_def redo_simps only_pages_def not_le sret_def)
qed

section \<open>Replay of the split steps\<close>

lemma check_high_key_ok:
  assumes ok: "bt_ok page" and n: "2 \<le> slot_count page"
    and e: "entry_bytes page (of_nat (slot_count page - 1)) = Ok bytes" "entry_key bytes (prep_level rec) = Ok (prep_high_key_bytes rec)"
  shows "check_high_key page rec ctx = (Ok (), ctx)"
proof -
  have small: "slot_count page < 65536" using btpage.small [OF ok] by simp
  have z: "0 < (of_nat (slot_count page) :: u16)" using n small by (simp add: word_less_nat_alt)
  have m: "(of_nat (slot_count page) :: u16) - 1 = of_nat (slot_count page - 1)" using n by simp
  have t: "tuple_at page (of_nat (slot_count page - 1)) = Ok (Some bytes)"
    using e(1) by (cases "tuple_at page (of_nat (slot_count page - 1))") (auto simp: entry_bytes_def split: option.splits)
  show ?thesis
    unfolding check_high_key_def Let_def if_P [OF z] m t from_heap.simps redo_eval(5) option.case
    using e(2) by (auto simp: entry_key_def redo_simps sret_def split: if_splits)
qed

lemma stamp_new:
  assumes "bt_ok p" and "page_pd_lsn p < lsn"
  shows "page_pd_lsn (stamp_pd_lsn p lsn) = lsn"
  using bt_ok_stamp(3) [OF assms(1)] assms(2) by (simp add: max.absorb1 less_imp_le)

lemma bind_unit:
  fixes m :: "(redo_ctx, unit) io" and f :: "unit \<Rightarrow> (redo_ctx, unit) io"
  shows "m c = (Ok (), c') \<Longrightarrow> sbind m f c = f () c'"
  by (simp add: sbind_def)

lemma prepare_parts:
  assumes on: "split_prepare_on_guards lid l rid pending fpi lsn = Ok (st, l', r', rec)" and ok: "bt_ok l"
  shows "\<exists>q r bytes. apply_prepare_left l rid = Ok q \<and> l' = stamp_pd_lsn q lsn \<and>
    init_right_page lid (node_next (node l)) (node_level (node l)) = Ok r \<and> r' = stamp_pd_lsn (stamp_pd_lsn r fpi) lsn \<and>
    2 \<le> slot_count l \<and> entry_bytes l (of_nat (slot_count l - 1)) = Ok bytes \<and>
    entry_key bytes (node_level (node l)) = Ok (prep_high_key_bytes rec) \<and>
    prep_left_page rec = lid \<and> prep_new_right_page rec = rid \<and> prep_level rec = node_level (node l) \<and>
    prep_left_old_next rec = node_next (node l)"
  using on unfolding split_prepare_on_guards_def bt_readers [OF ok] obind.simps Let_def
  by (auto simp: not_less split: if_splits simp del: of_nat_diff)

text \<open>
  C24. Replaying a split's Prepare record converges: whichever of the two page images the
  running system produced had reached the disk (the right page may even still hold a previous
  tenant's bytes with an older LSN), redo ends with exactly the running system's images of both
  pages and touches no other page.
\<close>

theorem redo_prepare_converges:
  assumes on: "split_prepare_on_guards lid l rid pending fpi lsn = Ok (st, l', r', rec)" and ok: "bt_ok l"
    and lt: "page_pd_lsn l < lsn" "fpi \<le> lsn" and ne: "lid \<noteq> rid"
    and img: "pooled ctx lid = Some pl" "pl \<in> {l, l'}" "pooled ctx rid = Some pr" "pr = r' \<or> page_pd_lsn pr < lsn"
  shows "\<exists>ctx'. redo_split_prepare rec lsn ctx = (Ok (), ctx') \<and> pooled ctx' lid = Some l' \<and> pooled ctx' rid = Some r' \<and>
    only_pages {lid, rid} ctx ctx'"
proof -
  obtain q r bytes where p: "apply_prepare_left l rid = Ok q" "l' = stamp_pd_lsn q lsn"
    "init_right_page lid (node_next (node l)) (node_level (node l)) = Ok r" "r' = stamp_pd_lsn (stamp_pd_lsn r fpi) lsn"
    "2 \<le> slot_count l" "entry_bytes l (of_nat (slot_count l - 1)) = Ok bytes"
    "entry_key bytes (node_level (node l)) = Ok (prep_high_key_bytes rec)"
    and rec: "prep_left_page rec = lid" "prep_new_right_page rec = rid" "prep_level rec = node_level (node l)"
      "prep_left_old_next rec = node_next (node l)"
    using prepare_parts [OF on ok] by blast
  have q: "bt_ok q" "page_pd_lsn q = page_pd_lsn l"
    using apply_prepare_left_node [OF ok, of rid] p(1) by (auto simp: page_pd_lsn_node)
  have r: "bt_ok r" "page_pd_lsn r = 0"
    using init_right_page_node [OF node_flags_nibble(2), of lid "node_next (node l)" l] p(3) by (auto simp: page_pd_lsn_node)
  have pos: "0 < lsn" using lt(1) by (auto simp: word_gt_0)
  have r': "r' = stamp_pd_lsn r lsn" "page_pd_lsn r' = lsn"
    using stamp_facts(3) [of r fpi lsn] bt_okD(3) [OF r(1)] r(2) lt(2) stamp_new [OF r(1)] pos by (simp_all add: p(4))
  have l': "page_pd_lsn l' = lsn" using stamp_new [OF q(1)] q(2) lt(1) by (simp add: p(2))
  have hk: "check_high_key l rec c = (Ok (), c)" for c
    by (rule check_high_key_ok [OF ok p(5,6)]) (simp add: rec p(7))
  have hk': "sbind (check_high_key l rec) f c = f () c" for f c by (simp add: sbind_def hk)
  have right: "(if page_pd_lsn pr < lsn
      then sbind (lift_bt (init_right_page lid (node_next (node l)) (node_level (node l))))
             (\<lambda>page. pool_put rid (stamp_pd_lsn page lsn))
      else sret ()) c = (Ok (), if page_pd_lsn pr < lsn then c\<lparr>ctx_pool := hm_insert rid r' (ctx_pool c)\<rparr> else c)" for c
    using p(3) r'(1) by (simp add: redo_simps sret_def)
  define c1 where "c1 = ctx\<lparr>ctx_splits := mark_prepare (ctx_splits ctx) lid rid (node_level (node l)) (node_next (node l)) lsn\<rparr>"
  define c2 where "c2 = (if page_pd_lsn pr < lsn then c1\<lparr>ctx_pool := hm_insert rid r' (ctx_pool c1)\<rparr> else c1)"
  have c2: "pooled c2 rid = Some r'" "pooled c2 x = (if x = rid then Some r' else pooled ctx x)" for x
    using img(3,4) r'(2) by (auto simp: c2_def c1_def redo_simps)
  have pr1: "pooled c1 rid = Some pr" and pl2: "pooled c2 lid = Some pl" using img c2(2) ne by (simp_all add: c1_def)
  have "redo_split_prepare rec lsn ctx = (if page_pd_lsn pl < lsn
    then sbind (lift_bt (bt_init_if_fresh pl (node_level (node l)) (flags_for_level (node_level (node l))))) (\<lambda>(page, _).
         sbind (check_high_key page rec) (\<lambda>_. sbind (lift_bt (apply_prepare_left page rid)) (\<lambda>page.
         pool_put lid (stamp_pd_lsn page lsn)))) else sret ()) c2"
    unfolding redo_split_prepare_def rec redo_eval(3) c1_def [symmetric] redo_eval(1) [OF pr1] bind_unit [OF right]
      c2_def [symmetric] redo_eval(1) [OF pl2] ..
  also have "\<dots> = (Ok (), if page_pd_lsn pl < lsn then c2\<lparr>ctx_pool := hm_insert lid l' (ctx_pool c2)\<rparr> else c2)"
    using img(2) l' lt(1) p(1,2) initialised_not_fresh(2) [OF ok] by (auto simp: hk' redo_simps sret_def)
  finally show ?thesis
    using img(1,2) ne l' lt(1) c2 by (auto simp: redo_simps only_pages_def)
qed

text \<open>A successful append proves there was room.\<close>

lemma add_entries_room:
  assumes "bt_ok p" and "add_entries p es = Ok q"
  shows "sum_list (costs_of es) \<le> free_space p"
  using assms
proof (induction es arbitrary: p)
  case (Cons e es)
  note ok = Cons.prems(1)
  note g = bt_okD(1) [OF ok]
  obtain r s where r: "add_tuple p e = Ok (r, s)" "add_entries r es = Ok q"
    using Cons.prems(2) by (cases "add_tuple p e") auto
  define slot where "slot = (case first_fit_slot p of Some s \<Rightarrow> s | None \<Rightarrow> of_nat (slot_count p))"
  have "add_tuple_at p slot e = Ok r" using r(1) by (auto simp: add_tuple_def slot_def Let_def)
  then have a: "add_guard p slot e" by (simp add: add_tuple_at_Ok_iff [OF g])
  have "unat slot = slot_count p"
    using a first_fit_unused [OF g, folded slot_def] bt_ok_page_ok(2) [OF ok] by (auto simp: le_less)
  then have room: "e \<noteq> []" "length e + 4 \<le> free_space p" using a by (simp_all add: add_guard_def LINE_POINTER_SIZE_def)
  then have "bt_ok r" "free_space r = free_space p - (length e + 4)"
    using add_tuple_node [OF ok] r(1) by force+
  then show ?case using Cons.IH [OF _ r(2)] room by simp
qed simp

lemma split_copy_parts:
  assumes l: "bt_ok l" and r: "bt_ok r" and cp: "apply_split_copy l r cs True = Ok (l1, r1)"
  shows "bt_ok l1" and "bt_ok r1" and "page_pd_lsn l1 = page_pd_lsn l" and "page_pd_lsn r1 = page_pd_lsn r"
    and "apply_split_copy l x cs False = Ok (l1, x)"
proof -
  have small: "slot_count l < 65536" using btpage.small [OF l] by simp
  then have u: "unat (of_nat (slot_count l) :: u16) = slot_count l" by simp
  have all: "collect_entries l [0..<slot_count l] = Ok (entries l)"
    using collect_entries_eq(1) [OF l, of "[0..<slot_count l]"] by (simp add: list_all_iff upt_entries)
  have c: "cs \<noteq> 0" "cs \<le> of_nat (slot_count l)" and add: "add_entries r (drop (unat cs) (entries l)) = Ok r1"
    using cp by (auto simp: apply_split_copy_def Let_def u all not_less split: if_splits)
  have cs: "1 \<le> unat cs" "unat cs \<le> slot_count l"
    using c u by (simp_all add: word_le_nat_alt word_gt_0 Suc_le_eq unat_gt_0)
  have "of_nat (unat cs) = cs" by simp
  then have "\<exists>l' r'. apply_split_copy l r cs True = Ok (l', r') \<and> bt_ok l' \<and> bt_ok r' \<and>
    node l' = (node l)\<lparr>node_entries := take (unat cs) (entries l)\<rparr> \<and> page_pd_lsn r' = page_pd_lsn r"
    using apply_split_copy_correct [OF l r cs, of True] add_entries_room [OF r add] by (auto simp: page_pd_lsn_node)
  then show "bt_ok l1" "bt_ok r1" "page_pd_lsn l1 = page_pd_lsn l" "page_pd_lsn r1 = page_pd_lsn r"
    using cp by (auto simp: page_pd_lsn_node)
  show "apply_split_copy l x cs False = Ok (l1, x)"
    using cp by (auto simp: apply_split_copy_def Let_def split: if_splits)
qed

lemma redo_copy_images:
  assumes on: "split_copy_on_guards l r st lsn = Ok (l', r', rec)" and l: "bt_ok l" and r: "bt_ok r"
    and lt: "page_pd_lsn l < lsn" "page_pd_lsn r < lsn" and ne: "st_left st \<noteq> st_right st" "st_right st \<noteq> PageId_INVALID"
    and img: "pooled ctx (st_left st) = Some pl" "pooled ctx (st_right st) = Some pr"
      "(pl, pr) \<in> {(l, r), (l, r'), (l', r')} \<or> (pl, pr) = (l', r) \<and> hm_get (ctx_disk ctx) (st_right st) = Some r'"
  shows "\<exists>ctx'. redo_split_copy rec lsn ctx = (Ok (), ctx') \<and> pooled ctx' (st_left st) = Some l' \<and>
    pooled ctx' (st_right st) = Some r' \<and> only_pages {st_left st, st_right st} ctx ctx'"
proof -
  let ?L = "st_left st" and ?R = "st_right st" and ?cs = "st_copy_start_slot st"
  obtain l1 r1 where cp: "apply_split_copy l r ?cs True = Ok (l1, r1)" "l' = stamp_pd_lsn l1 lsn" "r' = stamp_pd_lsn r1 lsn"
    and rec: "copy_left_page rec = ?L" "copy_right_page rec = ?R" "copy_copy_start_slot rec = ?cs"
      "copy_left_page_pre_lsn rec = page_pd_lsn l"
    using on by (auto simp: split_copy_on_guards_def Let_def)
  note part = split_copy_parts [OF l r cp(1)]
  have new: "page_pd_lsn l' = lsn" "page_pd_lsn r' = lsn"
    using stamp_new [OF part(1)] stamp_new [OF part(2)] part(3,4) lt by (simp_all add: cp)
  have neq: "lsn \<noteq> page_pd_lsn l" "\<not> lsn \<le> page_pd_lsn r" "\<not> lsn < lsn" using lt by auto
  let ?c = "ctx\<lparr>ctx_splits := mark_copy (ctx_splits ctx) ?L ?cs\<rparr>"
  have pin: "pooled ?c ?L = Some pl" "pooled ?c ?R = Some pr" using img by simp_all
  note start = redo_split_copy_def [of rec lsn] Let_def rec redo_eval(3) redo_eval(1) [OF pin(1)] redo_eval(1) [OF pin(2)]
  consider "pl = l" "pr = r" | "pl = l" "pr = r'" | "pl = l'" "pr = r'"
    | "pl = l'" "pr = r" "hm_get (ctx_disk ctx) ?R = Some r'" using img(3) by auto
  then show ?thesis
  proof cases
    case 1
    then show ?thesis
      unfolding start using cp lt ne by (simp add: redo_simps pool_flush_def only_pages_def)
  next
    case 2
    then show ?thesis
      unfolding start using part(5) [of r'] cp(2) lt ne new img by (simp add: redo_simps pool_flush_def only_pages_def)
  next
    case 3
    then show ?thesis unfolding start using new neq img by (simp add: sret_def only_pages_def)
  next
    case 4
    then show ?thesis
      unfolding start using new neq img ne
      by (simp add: sret_def only_pages_def force_reload_from_disk_def sbind_def redo_simps)
  qed
qed

lemma split_copy_run:
  assumes run: "split_copy st lsn ctx = (Ok (n, rec), ctx1)" and ne: "st_left st \<noteq> st_right st"
    and img: "pooled ctx (st_left st) = Some l" "pooled ctx (st_right st) = Some r"
  shows "\<exists>l' r'. split_copy_on_guards l r st lsn = Ok (l', r', rec) \<and> n = lsn \<and> st_right st \<noteq> PageId_INVALID \<and>
    pooled ctx1 (st_left st) = Some l' \<and> pooled ctx1 (st_right st) = Some r' \<and>
    ctx_disk ctx1 = hm_insert (st_right st) r' (ctx_disk ctx)"
  using run ne img
  by (cases "split_copy_on_guards l r st lsn")
    (auto simp: split_copy_def sbind_def from_storage_def pool_pin_def pool_put_def bt_ok_or_def flush_right_def
      pool_flush_def sret_def hm_get_insert split: if_splits)

text \<open>
  C23. Replaying a split's Copy record converges to the running system's images of both pages
  from every combination the flush order allows: neither page written, only the right page
  written, both written, and the left page written while the pool serves a stale right page whose
  new image is on disk.
\<close>

theorem redo_copy_converges:
  assumes on: "split_copy_on_guards l r st lsn = Ok (l', r', rec)" and l: "bt_ok l" and r: "bt_ok r"
    and lt: "page_pd_lsn l < lsn" "page_pd_lsn r < lsn" and ne: "st_left st \<noteq> st_right st" "st_right st \<noteq> PageId_INVALID"
    and img: "pooled ctx (st_left st) = Some pl" "pooled ctx (st_right st) = Some pr"
      "(pl, pr) \<in> {(l, r), (l, r'), (l', r')} \<or> (pl, pr) = (l', r) \<and> hm_get (ctx_disk ctx) (st_right st) = Some r'"
  shows "\<exists>ctx'. redo_split_copy rec lsn ctx = (Ok (), ctx') \<and> pooled ctx' (st_left st) = Some l' \<and>
    pooled ctx' (st_right st) = Some r' \<and> only_pages {st_left st, st_right st} ctx ctx'"
  by (rule redo_copy_images [OF assms])

text \<open>
  C39. The Copy step makes its own replay safe.  When it returns, both pages hold their new images in
  the pool, the right page's new image is on disk, and no other page's disk image has changed.  From
  then on a replay of its record gives those images back, whichever of the old and new images of the
  two pages it starts from: the left page may reach the disk at any later time.
\<close>

theorem split_copy_flushes_right:
  assumes run: "split_copy st lsn ctx = (Ok (n, rec), ctx1)" and ne: "st_left st \<noteq> st_right st"
    and img: "pooled ctx (st_left st) = Some l" "pooled ctx (st_right st) = Some r"
    and ok: "bt_ok l" "bt_ok r" and lt: "page_pd_lsn l < lsn" "page_pd_lsn r < lsn"
  shows "\<exists>l' r'. pooled ctx1 (st_left st) = Some l' \<and> pooled ctx1 (st_right st) = Some r' \<and>
    hm_get (ctx_disk ctx1) (st_right st) = Some r' \<and>
    (\<forall>q. q \<noteq> st_right st \<longrightarrow> hm_get (ctx_disk ctx1) q = hm_get (ctx_disk ctx) q) \<and>
    (\<forall>ctx2 pl pr. hm_get (ctx_disk ctx2) (st_right st) = Some r' \<and> pooled ctx2 (st_left st) = Some pl \<and>
       pooled ctx2 (st_right st) = Some pr \<and> pl \<in> {l, l'} \<and> pr \<in> {r, r'} \<longrightarrow>
       (\<exists>ctx3. redo_split_copy rec lsn ctx2 = (Ok (), ctx3) \<and> pooled ctx3 (st_left st) = Some l' \<and>
          pooled ctx3 (st_right st) = Some r'))"
proof -
  obtain l' r' where c: "split_copy_on_guards l r st lsn = Ok (l', r', rec)" "st_right st \<noteq> PageId_INVALID"
    "pooled ctx1 (st_left st) = Some l'" "pooled ctx1 (st_right st) = Some r'"
    "ctx_disk ctx1 = hm_insert (st_right st) r' (ctx_disk ctx)"
    using split_copy_run [OF run ne img] by blast
  have "\<exists>ctx3. redo_split_copy rec lsn ctx2 = (Ok (), ctx3) \<and> pooled ctx3 (st_left st) = Some l' \<and> pooled ctx3 (st_right st) = Some r'"
    if "hm_get (ctx_disk ctx2) (st_right st) = Some r'" "pooled ctx2 (st_left st) = Some pl"
      "pooled ctx2 (st_right st) = Some pr" "pl \<in> {l, l'}" "pr \<in> {r, r'}" for ctx2 pl pr
    using redo_copy_images [OF c(1) ok lt ne c(2) that(2,3)] that(1,4,5) by blast
  then show ?thesis using c by (intro exI [of _ l'] exI [of _ r']) (auto simp: hm_get_insert)
qed

text \<open>
  C25. Replaying a split's Commit record converges: from every combination of old and new
  images of the parent and the left page, redo ends with the running system's images of both and
  touches no other page.
\<close>

theorem redo_commit_converges:
  assumes on: "split_commit_apply st l pid p sep slot lsn = Ok (l', p', rec)" and l: "bt_ok l" and p: "bt_ok p"
    and lt: "page_pd_lsn l < lsn" "page_pd_lsn p < lsn" and ne: "st_left st \<noteq> pid"
    and img: "pooled ctx (st_left st) = Some pl" "pl \<in> {l, l'}" "pooled ctx pid = Some pp" "pp \<in> {p, p'}"
  shows "\<exists>ctx'. redo_split_commit rec lsn ctx = (Ok (), ctx') \<and> pooled ctx' (st_left st) = Some l' \<and>
    pooled ctx' pid = Some p' \<and> only_pages {st_left st, pid} ctx ctx'"
proof -
  obtain l1 p1 where a: "insert_entry_at p slot (encode_internal_entry sep (st_right st)) = Ok p1" "apply_commit_left l = Ok l1"
    "l' = stamp_pd_lsn l1 lsn" "p' = stamp_pd_lsn p1 lsn"
    and rec: "commit_left_page rec = st_left st" "commit_right_page rec = st_right st" "commit_parent_page rec = pid"
      "commit_separator_key rec = sep" "commit_parent_insert_slot rec = slot"
    using on by (auto simp: split_commit_apply_def Let_def)
  have l1: "bt_ok l1" "page_pd_lsn l1 = page_pd_lsn l"
    using apply_commit_left_node [OF l] a(2) by (auto simp: page_pd_lsn_node)
  have p1: "bt_ok p1" "page_pd_lsn p1 = page_pd_lsn p"
    using insert_entry_at_node(1,4) [OF p a(1)] by (simp_all add: page_pd_lsn_node)
  have new: "page_pd_lsn l' = lsn" "page_pd_lsn p' = lsn"
    using stamp_new [OF l1(1)] stamp_new [OF p1(1)] l1(2) p1(2) lt by (simp_all add: a)
  define c1 where "c1 = ctx\<lparr>ctx_splits := clear_split (ctx_splits ctx) (st_left st)\<rparr>"
  define c2 where "c2 = (if page_pd_lsn pp < lsn then c1\<lparr>ctx_pool := hm_insert pid p' (ctx_pool c1)\<rparr> else c1)"
  have c2: "pooled c2 x = (if x = pid then Some p' else pooled ctx x)" for x
    using img(3,4) new lt by (auto simp: redo_simps c1_def c2_def)
  let ?m = "if page_pd_lsn pp < lsn
     then if pd_upper (page_header pp) = 0 then fail MetadataCorrupted
          else sbind (lift_bt (insert_entry_at pp slot (encode_internal_entry sep (st_right st)))) (\<lambda>page.
               pool_put pid (stamp_pd_lsn page lsn))
     else sret () :: (redo_ctx, unit) io"
  have "?m c1 = (Ok (), c2)"
    using img(4) new lt a(1,4) initialised_not_fresh(1) [OF p] by (auto simp: redo_simps sret_def c2_def)
  then have parent: "sbind ?m f c1 = f () c2" for f :: "unit \<Rightarrow> (redo_ctx, unit) io" by (rule bind_unit)
  have pin: "pooled c1 pid = Some pp" "pooled c2 (st_left st) = Some pl" using img c2 ne by (simp_all add: c1_def)
  have "redo_split_commit rec lsn ctx =
    (if page_pd_lsn pl < lsn
     then if pd_upper (page_header pl) = 0 then fail MetadataCorrupted
          else sbind (lift_bt (apply_commit_left pl)) (\<lambda>page. pool_put (st_left st) (stamp_pd_lsn page lsn))
     else sret ()) c2"
    unfolding redo_split_commit_def Let_def rec redo_eval(3) c1_def [symmetric] redo_eval(1) [OF pin(1)] parent
      redo_eval(1) [OF pin(2)] ..
  also have "\<dots> = (Ok (), if page_pd_lsn pl < lsn then c2\<lparr>ctx_pool := hm_insert (st_left st) l' (ctx_pool c2)\<rparr> else c2)"
    using img(2) new lt a(2,3) initialised_not_fresh(1) [OF l] by (auto simp: redo_simps sret_def)
  finally have run: "redo_split_commit rec lsn ctx =
    (Ok (), if page_pd_lsn pl < lsn then c2\<lparr>ctx_pool := hm_insert (st_left st) l' (ctx_pool c2)\<rparr> else c2)" .
  show ?thesis
    unfolding run using img(1,2) ne new lt(1) c2 by (auto simp: hm_get_insert only_pages_def)
qed

section \<open>A concrete split\<close>

definition leaf_ex :: "u8 list list" where
  "leaf_ex = [encode_leaf_entry [5] (tid_ex 1), encode_leaf_entry [7] (tid_ex 2)]"

definition st_ex :: SplitState where
  "st_ex = \<lparr>st_left = 3, st_right = 4, st_level = 0, st_copy_start_slot = 1, st_prepare_lsn = 6\<rparr>"

definition ctx_ex :: "(PageId \<times> page) list \<Rightarrow> redo_ctx" where
  "ctx_ex pages = \<lparr>ctx_pool = pages, ctx_disk = [], ctx_splits = []\<rparr>"

lemma leaf_ex_page:
  "\<exists>l. filled_page 0 leaf_ex = Ok l \<and> bt_ok l \<and>
    node l = \<lparr>node_lsn = 0, node_level = 0, node_flags = 1, node_prev = 0, node_next = 0, node_entries = leaf_ex\<rparr> \<and>
    slot_count l = 2 \<and> entries l = leaf_ex \<and> page_pd_lsn l = 0"
proof -
  have "\<exists>l. filled_page 0 leaf_ex = Ok l \<and> bt_ok l \<and>
    node l = \<lparr>node_lsn = 0, node_level = 0, node_flags = flags_for_level 0, node_prev = 0, node_next = 0,
      node_entries = leaf_ex\<rparr> \<and> free_space l = 8144 - sum_list (costs_of leaf_ex)"
    by (rule bt_ex_node) (auto simp: leaf_ex_def encode_leaf_entry_def)
  then obtain l where l: "filled_page 0 leaf_ex = Ok l" "bt_ok l"
    "node l = \<lparr>node_lsn = 0, node_level = 0, node_flags = 1, node_prev = 0, node_next = 0, node_entries = leaf_ex\<rparr>"
    by (auto simp: flags_for_level_def BTREE_FLAG_LEAF_def)
  then have "entries l = leaf_ex" by (simp add: node_def)
  moreover from this have "slot_count l = 2" using length_entries [of l] by (simp add: leaf_ex_def)
  ultimately show ?thesis using l by (auto simp: page_pd_lsn_node)
qed

theorem redo_prepare_converges_witness:
  "\<exists>l st l' r' rec ctx'. filled_page 0 leaf_ex = Ok l \<and>
     split_prepare_on_guards 3 l 4 None 5 6 = Ok (st, l', r', rec) \<and>
     redo_split_prepare rec 6 (ctx_ex [(3, l), (4, l)]) = (Ok (), ctx') \<and>
     pooled ctx' 3 = Some l' \<and> pooled ctx' 4 = Some r'"
proof -
  obtain l where l: "filled_page 0 leaf_ex = Ok l" "bt_ok l" "slot_count l = 2"
    "node l = \<lparr>node_lsn = 0, node_level = 0, node_flags = 1, node_prev = 0, node_next = 0, node_entries = leaf_ex\<rparr>"
    "entries l = leaf_ex" "page_pd_lsn l = 0" using leaf_ex_page by blast
  obtain q where q: "apply_prepare_left l 4 = Ok q" using apply_prepare_left_node [OF l(2)] by blast
  obtain r where r: "init_right_page 3 0 0 = Ok r" using init_right_page_node [of 0 3 0] by auto
  have e: "entry_bytes l 1 = Ok (encode_leaf_entry [7] (tid_ex 2))"
    using l(3) by (simp add: entry_bytes_eq [OF l(2)] l(5) leaf_ex_def)
  have "\<exists>st l' r' rec. split_prepare_on_guards 3 l 4 None 5 6 = Ok (st, l', r', rec)"
    unfolding split_prepare_on_guards_def bt_readers [OF l(2)] l(4) Let_def using l(3) q r e
    by (simp add: BTREE_FLAG_SPLIT_INCOMPLETE_def entry_key_def decode_encode_leaf choose_split_slot_def)
  then obtain st l' r' rec where on: "split_prepare_on_guards 3 l 4 None 5 6 = Ok (st, l', r', rec)" by blast
  have "\<exists>ctx'. redo_split_prepare rec 6 (ctx_ex [(3, l), (4, l)]) = (Ok (), ctx') \<and> pooled ctx' 3 = Some l' \<and>
      pooled ctx' 4 = Some r' \<and> only_pages {3, 4} (ctx_ex [(3, l), (4, l)]) ctx'"
    by (rule redo_prepare_converges [OF on l(2), of _ l l]) (simp_all add: l(6) ctx_ex_def)
  then show ?thesis using l(1) on by blast
qed

lemma copy_ex:
  "\<exists>l r l' r' rec. filled_page 0 leaf_ex = Ok l \<and> init_right_page 3 0 0 = Ok r \<and> bt_ok l \<and> bt_ok r \<and>
     page_pd_lsn l = 0 \<and> page_pd_lsn r = 0 \<and> split_copy_on_guards l r st_ex 7 = Ok (l', r', rec)"
proof -
  obtain l where l: "filled_page 0 leaf_ex = Ok l" "bt_ok l" "slot_count l = 2"
    "entries l = leaf_ex" "page_pd_lsn l = 0" using leaf_ex_page by blast
  obtain r where r: "init_right_page 3 0 0 = Ok r" "bt_ok r" "page_pd_lsn r = 0" "free_space r = 8144"
    using init_right_page_node [of 0 3 0] by (auto simp: page_pd_lsn_node)
  have "\<exists>l' r'. apply_split_copy l r (of_nat 1) True = Ok (l', r')"
    using apply_split_copy_correct [OF l(2) r(2), of 1 True] l(3,4) r(4) by (auto simp: leaf_ex_def encode_leaf_entry_def)
  then have "\<exists>l' r' rec. split_copy_on_guards l r st_ex 7 = Ok (l', r', rec)"
    by (auto simp: split_copy_on_guards_def st_ex_def)
  then show ?thesis using l r by blast
qed

theorem split_copy_flushes_right_witness:
  "\<exists>l r rec ctx1 l'. filled_page 0 leaf_ex = Ok l \<and> init_right_page 3 0 0 = Ok r \<and>
     split_copy st_ex 7 (ctx_ex [(3, l), (4, r)]) = (Ok (7, rec), ctx1) \<and> pooled ctx1 3 = Some l' \<and>
     (\<exists>ctx3. redo_split_copy rec 7 (ctx1\<lparr>ctx_pool := [(3, l'), (4, r)]\<rparr>) = (Ok (), ctx3) \<and> pooled ctx3 3 = Some l' \<and>
        pooled ctx3 4 = hm_get (ctx_disk ctx1) 4)"
proof -
  obtain l r l' r' rec where c: "filled_page 0 leaf_ex = Ok l" "init_right_page 3 0 0 = Ok r" "bt_ok l" "bt_ok r"
    "page_pd_lsn l = 0" "page_pd_lsn r = 0" "split_copy_on_guards l r st_ex 7 = Ok (l', r', rec)" using copy_ex by blast
  let ?ctx = "ctx_ex [(3, l), (4, r)]"
  have st: "st_left st_ex = 3" "st_right st_ex = 4" by (simp_all add: st_ex_def)
  have "\<exists>ctx1. split_copy st_ex 7 ?ctx = (Ok (7, rec), ctx1)"
    using c(7) by (simp add: split_copy_def sbind_def from_storage_def pool_pin_def pool_put_def bt_ok_or_def flush_right_def
      pool_flush_def sret_def hm_get_insert st ctx_ex_def PageId_INVALID_def)
  then obtain ctx1 where run: "split_copy st_ex 7 ?ctx = (Ok (7, rec), ctx1)" by blast
  have img: "pooled ?ctx (st_left st_ex) = Some l" "pooled ?ctx (st_right st_ex) = Some r" by (simp_all add: st ctx_ex_def)
  have "st_left st_ex \<noteq> st_right st_ex" "page_pd_lsn l < 7" "page_pd_lsn r < 7" using c(5,6) by (simp_all add: st)
  from split_copy_flushes_right [OF run this(1) img c(3,4) this(2,3)] obtain m q where
    m: "pooled ctx1 3 = Some m" "hm_get (ctx_disk ctx1) 4 = Some q"
    and redo: "\<And>ctx2 pl pr. hm_get (ctx_disk ctx2) 4 = Some q \<and> pooled ctx2 3 = Some pl \<and> pooled ctx2 4 = Some pr \<and>
      pl \<in> {l, m} \<and> pr \<in> {r, q} \<Longrightarrow> \<exists>ctx3. redo_split_copy rec 7 ctx2 = (Ok (), ctx3) \<and> pooled ctx3 3 = Some m \<and> pooled ctx3 4 = Some q"
    unfolding st by metis
  have "\<exists>ctx3. redo_split_copy rec 7 (ctx1\<lparr>ctx_pool := [(3, m), (4, r)]\<rparr>) = (Ok (), ctx3) \<and> pooled ctx3 3 = Some m \<and>
      pooled ctx3 4 = Some q"
    by (rule redo [of _ m r]) (use m in simp)
  then show ?thesis using c(1,2) run m by metis
qed

theorem redo_copy_converges_witness:
  "\<exists>l r l' r' rec ctx'. filled_page 0 leaf_ex = Ok l \<and> init_right_page 3 0 0 = Ok r \<and>
     split_copy_on_guards l r st_ex 7 = Ok (l', r', rec) \<and>
     redo_split_copy rec 7 (ctx_ex [(3, l), (4, r')]) = (Ok (), ctx') \<and> pooled ctx' 3 = Some l' \<and> pooled ctx' 4 = Some r'"
proof -
  obtain l r l' r' rec where c: "filled_page 0 leaf_ex = Ok l" "init_right_page 3 0 0 = Ok r" "bt_ok l" "bt_ok r"
    "page_pd_lsn l = 0" "page_pd_lsn r = 0" "split_copy_on_guards l r st_ex 7 = Ok (l', r', rec)" using copy_ex by blast
  have "\<exists>ctx'. redo_split_copy rec 7 (ctx_ex [(3, l), (4, r')]) = (Ok (), ctx') \<and> pooled ctx' (st_left st_ex) = Some l' \<and>
      pooled ctx' (st_right st_ex) = Some r' \<and> only_pages {st_left st_ex, st_right st_ex} (ctx_ex [(3, l), (4, r')]) ctx'"
    by (rule redo_copy_converges [OF c(7,3,4), of _ l r'])
      (simp_all add: c(5,6) ctx_ex_def st_ex_def PageId_INVALID_def)
  then show ?thesis using c(1,2,7) by (auto simp: st_ex_def)
qed

theorem redo_commit_converges_witness:
  "\<exists>l p l' p' rec ctx'. filled_page 0 leaf_ex = Ok l \<and>
     filled_page 1 [encode_internal_entry [] 3] = Ok p \<and>
     split_commit_apply st_ex l 8 p [7] 1 7 = Ok (l', p', rec) \<and>
     redo_split_commit rec 7 (ctx_ex [(3, l'), (8, p)]) = (Ok (), ctx') \<and> pooled ctx' 3 = Some l' \<and> pooled ctx' 8 = Some p'"
proof -
  let ?es = "[encode_internal_entry [] 3]"
  obtain l where l: "filled_page 0 leaf_ex = Ok l" "bt_ok l" "page_pd_lsn l = 0"
    using leaf_ex_page by blast
  have "\<exists>p. filled_page 1 ?es = Ok p \<and> bt_ok p \<and>
    node p = \<lparr>node_lsn = 0, node_level = 1, node_flags = flags_for_level 1, node_prev = 0, node_next = 0,
      node_entries = ?es\<rparr> \<and> free_space p = 8144 - sum_list (costs_of ?es)"
    by (rule bt_ex_node) (auto simp: encode_internal_entry_def length_0_conv [symmetric] simp del: length_0_conv)
  then obtain p where p: "filled_page 1 ?es = Ok p" "bt_ok p"
    "node_entries (node p) = ?es" "node_lsn (node p) = 0" "free_space p = 8132"
    by (auto simp: encode_internal_entry_def)
  then have "slot_count p = 1" using length_entries [of p] by (simp add: node_def)
  then obtain p1 where p1: "insert_entry_at p 1 (encode_internal_entry [7] 4) = Ok p1"
    using p(5) by (auto simp: insert_entry_at_Ok_iff [OF p(2)] encode_internal_entry_def)
  obtain q where q: "apply_commit_left l = Ok q" using apply_commit_left_node [OF l(2)] by blast
  obtain l' p' rec where on: "split_commit_apply st_ex l 8 p [7] 1 7 = Ok (l', p', rec)"
    using p1 q by (simp add: split_commit_apply_def st_ex_def Let_def)
  have "\<exists>ctx'. redo_split_commit rec 7 (ctx_ex [(3, l'), (8, p)]) = (Ok (), ctx') \<and> pooled ctx' (st_left st_ex) = Some l' \<and>
      pooled ctx' 8 = Some p' \<and> only_pages {st_left st_ex, 8} (ctx_ex [(3, l'), (8, p)]) ctx'"
    by (rule redo_commit_converges [OF on l(2) p(2), of _ l' p])
      (simp_all add: l(3) p(4) page_pd_lsn_node [of p] ctx_ex_def st_ex_def)
  then show ?thesis using l(1) p(1) on by (auto simp: st_ex_def)
qed

section \<open>A leaf that deletes have drained\<close>

text \<open>
  Three entries of the largest size fill a leaf; deleting them returns their line pointers, not their
  bytes.
\<close>

definition big_key :: "u8 list" where
  "big_key = replicate MAX_INDEX_KEY_BYTES 0"

definition insert_big :: "u16 \<Rightarrow> page \<Rightarrow> page btree_result" where
  "insert_big n page =
     obind (leaf_insert_slot page big_key (tid_ex n)) (\<lambda>slot.
     obind (insert_into_page 3 page slot (encode_leaf_entry big_key (tid_ex n)) 1) (\<lambda>(page, _). Ok page))"

definition delete_big :: "u16 \<Rightarrow> page \<Rightarrow> page btree_result" where
  "delete_big n page = obind (delete_on_leaf 3 page big_key (tid_ex n) 2) (\<lambda>(page, _). Ok page)"

definition drained_leaf :: "page btree_result" where
  "drained_leaf =
     obind (bt_init 0 (BTREE_FLAG_LEAF OR BTREE_FLAG_ROOT)) (\<lambda>page.
     obind (insert_big 3 page) (\<lambda>page. obind (insert_big 2 page) (\<lambda>page. obind (insert_big 1 page) (\<lambda>page.
     obind (delete_big 1 page) (\<lambda>page. obind (delete_big 2 page) (\<lambda>page. delete_big 3 page))))))"

abbreviation big_entries :: "u16 list \<Rightarrow> u8 list list" where
  "big_entries ns \<equiv> map (\<lambda>n. encode_leaf_entry big_key (tid_ex n)) ns"

lemma stamp_space:
  assumes "bt_ok p"
  shows "entries (stamp_pd_lsn p lsn) = entries p" and "free_space (stamp_pd_lsn p lsn) = free_space p"
    and "slot_count (stamp_pd_lsn p lsn) = slot_count p"
    and "node_flags (node (stamp_pd_lsn p lsn)) = node_flags (node p)"
    and "node_level (node (stamp_pd_lsn p lsn)) = node_level (node p)"
proof -
  note s = bt_ok_stamp [OF assms, of lsn]
  show e: "entries (stamp_pd_lsn p lsn) = entries p" using s(2) by (simp add: node_def)
  then show c: "slot_count (stamp_pd_lsn p lsn) = slot_count p" by (metis length_entries)
  have "upper_of (stamp_pd_lsn p lsn) = upper_of p" using set_lsn_node(3) [OF assms] by (simp add: stamp_pd_lsn_def)
  then show "free_space (stamp_pd_lsn p lsn) = free_space p" using c by (simp add: bt_free_space(2) assms s(1))
  show "node_flags (node (stamp_pd_lsn p lsn)) = node_flags (node p)"
    "node_level (node (stamp_pd_lsn p lsn)) = node_level (node p)" using s(2) by simp_all
qed

lemma length_big_key: "length big_key = 2698"
  unfolding big_key_def length_replicate by (simp add: MAX_INDEX_KEY_BYTES_def PAGE_SIZE_def)

lemma big_lower_bound:
  assumes ok: "bt_ok p" and e: "entries p = big_entries ns" and le: "list_all (\<lambda>m. n \<le> m) ns"
  shows "leaf_lower_bound p big_key (tid_ex n) = Ok 0"
proof -
  let ?f = "\<lambda>mid. obind (entry_bytes p (of_nat mid)) (\<lambda>bytes. obind (decode_leaf_entry bytes) (\<lambda>(k, t).
     Ok (then_ord (cmp k big_key) (tid_cmp t (tid_ex n)) = Less)))"
  have f: "?f i = Ok False" if "i < slot_count p" for i
  proof -
    have i: "i < length ns" "unat (of_nat i :: u16) = i"
      using that e length_entries [of p] btpage.small [OF ok] by simp_all
    have "n \<le> ns ! i" using le i(1) by (simp add: list_all_length)
    then show ?thesis using i that
      by (auto simp: entry_bytes_eq [OF ok] e decode_encode_leaf cmp_def tid_cmp_def tid_ex_def)
  qed
  have "\<exists>k. bsearch ?f 0 (slot_count p) = Ok k \<and> 0 \<le> k \<and> k \<le> slot_count p \<and> (\<forall>i. 0 \<le> i \<longrightarrow> i < k \<longrightarrow> False) \<and>
      (\<forall>i. k \<le> i \<longrightarrow> i < slot_count p \<longrightarrow> \<not> False)"
    by (rule bsearch_correct) (use f in simp_all)
  then show ?thesis unfolding leaf_lower_bound_def by auto
qed

lemma insert_big_effect:
  assumes ok: "bt_ok p" and e: "entries p = big_entries ns" and lt: "list_all (\<lambda>m. n < m) ns" and room: "2712 \<le> free_space p"
  shows "\<exists>q. insert_big n p = Ok q \<and> bt_ok q \<and> entries q = big_entries (n # ns) \<and> free_space q = free_space p - 2712 \<and>
    node_flags (node q) = node_flags (node p) \<and> node_level (node q) = node_level (node p)"
proof -
  let ?e = "encode_leaf_entry big_key (tid_ex n)"
  have len: "length ?e = 2708" by (simp add: encode_leaf_entry_def length_big_key)
  then have ne: "?e \<noteq> []" by auto
  have "list_all (\<lambda>m. n \<le> m) ns" using lt by (auto simp: list_all_iff less_imp_le)
  note lb = big_lower_bound [OF ok e this]
  have c: "slot_count p = length ns" using length_entries [of p] unfolding e by simp
  have slot: "leaf_insert_slot p big_key (tid_ex n) = Ok 0"
  proof (cases ns)
    case Nil
    then show ?thesis using c by (simp add: leaf_insert_slot_def lb)
  next
    case (Cons m ms)
    then have "tid_ex m \<noteq> tid_ex n" using lt by (auto simp: tid_ex_def)
    then show ?thesis using c Cons by (simp add: leaf_insert_slot_def lb entry_bytes_eq [OF ok] e decode_encode_leaf)
  qed
  obtain q where q: "insert_entry_at p 0 ?e = Ok q"
    using len ne room by (auto simp: insert_entry_at_Ok_iff [OF ok])
  note n = insert_entry_at_node [OF ok q]
  have "insert_big n p = Ok (stamp_pd_lsn q 1)"
    unfolding insert_big_def slot obind.simps insert_into_page_def bt_readers [OF ok] Let_def q by simp
  moreover have "entries q = big_entries (n # ns)" using n(4) e by (simp add: node_def)
  moreover have "node_flags (node q) = node_flags (node p)" "node_level (node q) = node_level (node p)" using n(4) by simp_all
  moreover have "free_space q = free_space p - 2712" using n(5) len by simp
  ultimately show ?thesis using bt_ok_stamp(1) [OF n(1), of 1] stamp_space [OF n(1), of 1] by metis
qed

lemma delete_big_effect:
  assumes ok: "bt_ok p" and e: "entries p = big_entries (n # ns)" and lt: "list_all (\<lambda>m. n < m) ns"
  shows "\<exists>q. delete_big n p = Ok q \<and> bt_ok q \<and> entries q = big_entries ns \<and> free_space q = free_space p + 4 \<and>
    node_flags (node q) = node_flags (node p) \<and> node_level (node q) = node_level (node p)"
proof -
  have c: "slot_count p = Suc (length ns)" using length_entries [of p] e by simp
  have "list_all (\<lambda>m. n \<le> m) (n # ns)" using lt by (auto simp: list_all_iff less_imp_le)
  note lb = big_lower_bound [OF ok e this]
  obtain q where q: "remove_entry_at p 0 = Ok q" "bt_ok q" "upper_of q = upper_of p"
    "node q = (node p)\<lparr>node_entries := drop (Suc 0) (entries p)\<rparr>"
    using remove_entry_at_node(1) [OF ok, of 0] c by auto
  have eq: "entries q = big_entries ns" using q(4) e by (simp add: node_def)
  then have cq: "slot_count q = length ns" using length_entries [of q] by simp
  have "free_space q = free_space p + 4"
    using bt_free_space(2) [OF ok] bt_free_space(2) [OF q(2)] q(3) c cq geometry_bounds [OF bt_okD(1) [OF ok]]
      lower_slots [OF bt_okD(1) [OF ok]] by simp
  moreover have "delete_big n p = Ok (stamp_pd_lsn q 2)"
    using c e by (simp add: delete_big_def delete_on_leaf_def lb entry_bytes_eq [OF ok] decode_encode_leaf Let_def q(1))
  ultimately show ?thesis using q eq bt_ok_stamp(1) [OF q(2)] stamp_space [OF q(2)] by simp
qed

lemma drained_leaf_page:
  "\<exists>q. drained_leaf = Ok q \<and> bt_ok q \<and> entries q = [] \<and> slot_count q = 0 \<and> free_space q = 20 \<and>
     node_flags (node q) = 3 \<and> node_level (node q) = 0"
proof -
  let ?fl = "\<lambda>p. node_flags (node p) = 3 \<and> node_level (node p) = 0"
  have "BTREE_FLAG_LEAF OR BTREE_FLAG_ROOT = 3" by (simp add: BTREE_FLAG_LEAF_def BTREE_FLAG_ROOT_def)
  then obtain p where p: "bt_init 0 (BTREE_FLAG_LEAF OR BTREE_FLAG_ROOT) = Ok p" "bt_ok p" "entries p = big_entries []"
    "free_space p = 8144" "?fl p"
    using bt_init_node [of 0 3] bt_free_space(2) by (fastforce simp: node_def)
  obtain a where a: "insert_big 3 p = Ok a" "bt_ok a" "entries a = big_entries [3]" "free_space a = 5432" "?fl a"
    using insert_big_effect [OF p(2,3), of 3] p(4,5) by auto
  obtain b where b: "insert_big 2 a = Ok b" "bt_ok b" "entries b = big_entries [2, 3]" "free_space b = 2720" "?fl b"
    using insert_big_effect [OF a(2,3), of 2] a(4,5) by auto
  obtain c where c: "insert_big 1 b = Ok c" "bt_ok c" "entries c = big_entries [1, 2, 3]" "free_space c = 8" "?fl c"
    using insert_big_effect [OF b(2,3), of 1] b(4,5) by auto
  obtain d where d: "delete_big 1 c = Ok d" "bt_ok d" "entries d = big_entries [2, 3]" "free_space d = 12" "?fl d"
    using delete_big_effect [OF c(2,3)] c(4,5) by auto
  obtain e where e: "delete_big 2 d = Ok e" "bt_ok e" "entries e = big_entries [3]" "free_space e = 16" "?fl e"
    using delete_big_effect [OF d(2,3)] d(4,5) by auto
  obtain q where q: "delete_big 3 e = Ok q" "bt_ok q" "entries q = big_entries []" "free_space q = 20" "?fl q"
    using delete_big_effect [OF e(2,3)] e(4,5) by auto
  have "slot_count q = 0" using q(3) by (metis length_entries list.size(3) list.simps(8))
  then show ?thesis using p(1) a(1) b(1) c(1) d(1) e(1) q by (simp add: drained_leaf_def)
qed

text \<open>
  C40. Deletes can wedge a leaf.  Fill a root leaf with three entries of the largest size and delete them
  again: the leaf is well formed and empty, but any key of seven bytes or more (within the key limit) is
  refused with \<^verbatim>\<open>PageFull\<close>, because removal does not return the bytes of an entry, and the split that
  a full leaf escalates to is refused with \<^verbatim>\<open>Corrupted\<close>, because the leaf has fewer than two entries.
\<close>

theorem drained_leaf_wedges:
  "\<exists>q. drained_leaf = Ok q \<and> bt_ok q \<and> entries q = [] \<and>
     (\<forall>key tid right fpi lsn. 7 \<le> length key \<and> length key \<le> MAX_INDEX_KEY_BYTES \<longrightarrow>
        leaf_insert_slot q key tid = Ok 0 \<and>
        insert_into_page 3 q 0 (encode_leaf_entry key tid) lsn = Err (PageFull (length key + 14) 20) \<and>
        split_prepare_on_guards 3 q right (Some (encode_leaf_entry key tid)) fpi lsn = Err Corrupted \<and>
        split_prepare_on_guards 3 q right None fpi lsn = Err Corrupted)"
proof -
  obtain q where q: "drained_leaf = Ok q" "bt_ok q" "entries q = []" "slot_count q = 0" "free_space q = 20"
    "node_flags (node q) = 3" "node_level (node q) = 0" using drained_leaf_page by blast
  have ins: "insert_entry_at q 0 (encode_leaf_entry key tid) = Err (PageFull (length key + 14) 20)"
    if "7 \<le> length key" "length key \<le> MAX_INDEX_KEY_BYTES" for key tid
  proof -
    have len: "length (encode_leaf_entry key tid) = length key + 10" by (simp add: encode_leaf_entry_def)
    then have "encode_leaf_entry key tid \<noteq> []" by auto
    then show ?thesis using insert_entry_at_eq [OF q(2), of "encode_leaf_entry key tid" 0] len that q(5)
      by (simp add: MAX_INDEX_KEY_BYTES_def PAGE_SIZE_def)
  qed
  have slot: "leaf_insert_slot q key tid = Ok 0" for key tid
    using q(4) by (simp add: leaf_insert_slot_def leaf_lower_bound_def bsearch.simps)
  have split: "split_prepare_on_guards 3 q right pending fpi lsn = Err Corrupted" for right pending fpi lsn
    using q(4,6) by (simp add: split_prepare_on_guards_def bt_readers [OF q(2)] BTREE_FLAG_SPLIT_INCOMPLETE_def Let_def)
  show ?thesis using q(1-3) ins slot split by (auto simp: insert_into_page_def bt_readers [OF q(2)] Let_def)
qed

theorem drained_leaf_wedges_witness:
  "\<exists>q. drained_leaf = Ok q \<and> insert_into_page 3 q 0 (encode_leaf_entry [1, 2, 3, 4, 5, 6, 7, 8] (tid_ex 4)) 9 = Err (PageFull 22 20)"
proof -
  obtain q where "drained_leaf = Ok q" and q: "\<And>key tid right fpi lsn. 7 \<le> length key \<and> length key \<le> MAX_INDEX_KEY_BYTES \<Longrightarrow>
      insert_into_page 3 q 0 (encode_leaf_entry key tid) lsn = Err (PageFull (length key + 14) 20)"
    using drained_leaf_wedges by blast
  then show ?thesis using q [of "[1, 2, 3, 4, 5, 6, 7, 8]" "tid_ex 4" 9] by (auto simp: MAX_INDEX_KEY_BYTES_def PAGE_SIZE_def)
qed

end
