(* ===== verification/Clog_File.thy ===== *)
theory Clog_File
  imports Txn_Visibility Storage_File
begin

unbundle bit_operations_syntax

text \<open>
  The segment files of the commit log, \<^verbatim>\<open>pg-txn/src/clog_file.rs\<close>: where an XID's four bits
  live, and the store that opens, reads, writes and syncs segments.  The pages tile the segment
  files, reading a page returns what is on disk, a write changes its page only, completely or by a
  prefix when it fails, and a sync makes a segment durable.
\<close>

section \<open>Address arithmetic and nibbles\<close>

definition CLOG_PAGE_BYTES :: u64 where "CLOG_PAGE_BYTES = 8192"
definition XIDS_PER_CLOG_PAGE :: u64 where "XIDS_PER_CLOG_PAGE = CLOG_PAGE_BYTES * 2"
definition XIDS_PER_SEGMENT :: u64 where "XIDS_PER_SEGMENT = 268435456"
definition CLOG_SEGMENT_BYTES :: u64 where "CLOG_SEGMENT_BYTES = XIDS_PER_SEGMENT div 2"
definition CLOG_PAGES_PER_SEGMENT :: u64 where "CLOG_PAGES_PER_SEGMENT = CLOG_SEGMENT_BYTES div CLOG_PAGE_BYTES"

definition segment_id_of_xid :: "TxnId \<Rightarrow> u64" where
  "segment_id_of_xid xid = xid div XIDS_PER_SEGMENT"

definition byte_offset_of_xid :: "TxnId \<Rightarrow> u64" where
  "byte_offset_of_xid xid = (xid mod XIDS_PER_SEGMENT) div 2"

definition page_no_of_xid :: "TxnId \<Rightarrow> u64" where
  "page_no_of_xid xid = xid div XIDS_PER_CLOG_PAGE"

definition byte_in_page_of_xid :: "TxnId \<Rightarrow> nat" where
  "byte_in_page_of_xid xid = unat ((xid mod XIDS_PER_CLOG_PAGE) div 2)"

definition segment_id_of_page :: "u64 \<Rightarrow> u64" where
  "segment_id_of_page page_no = page_no div CLOG_PAGES_PER_SEGMENT"

definition page_offset_in_segment :: "u64 \<Rightarrow> u64" where
  "page_offset_in_segment page_no = (page_no mod CLOG_PAGES_PER_SEGMENT) * CLOG_PAGE_BYTES"

text \<open>The decimal digits of \<^verbatim>\<open>format!\<close>, zero-padded to eight.\<close>

fun decimal :: "nat \<Rightarrow> string" where
  "decimal n = (if n < 10 then [char_of (48 + n)] else decimal (n div 10) @ [char_of (48 + n mod 10)])"

declare decimal.simps [simp del]

definition pad8 :: "string \<Rightarrow> string" where
  "pad8 s = replicate (8 - length s) (char_of (48 :: nat)) @ s"

definition segment_path :: "string \<Rightarrow> u64 \<Rightarrow> string" where
  "segment_path dir segment_id = dir @ ''/clog-'' @ pad8 (decimal (unat segment_id)) @ ''.log''"

definition get_nibble :: "u8 \<Rightarrow> TxnId \<Rightarrow> u8" where
  "get_nibble byte xid = (if xid AND 1 = 0 then drop_bit 4 byte else byte AND 0x0F)"

definition set_nibble :: "u8 \<Rightarrow> TxnId \<Rightarrow> u8 \<Rightarrow> u8" where
  "set_nibble byte xid state =
     (if xid AND 1 = 0 then (byte AND 0x0F) OR push_bit 4 (state AND 0x0F)
      else (byte AND 0xF0) OR (state AND 0x0F))"

text \<open>\<^verbatim>\<open>TxnState as u8\<close> and its inverse.\<close>

fun state_as_u8 :: "TxnState \<Rightarrow> u8" where
  "state_as_u8 InProgress = 0"
| "state_as_u8 Committed = 1"
| "state_as_u8 Aborted = 2"
| "state_as_u8 SubCommitted = 3"

definition txn_state_from_nibble :: "u8 \<Rightarrow> (TxnState, StorageError) outcome" where
  "txn_state_from_nibble nibble =
     (if nibble = 0 then Ok InProgress
      else if nibble = 1 then Ok Committed
      else if nibble = 2 then Ok Aborted
      else if nibble = 3 then Ok SubCommitted
      else Panic)"

section \<open>Segment store\<close>

text \<open>
  \<^verbatim>\<open>ClogSegmentStore\<close>: the directory, the open segment handles, the segments with
  written but unsynced pages, and the files below them.
\<close>

record ClogSegmentStore =
  clog_fs :: file_system
  clog_dir :: string
  segments :: "(u64, string) hmap"
  unsynced_segments :: "u64 list"

definition with_fs :: "(file_system, 'a) io \<Rightarrow> (ClogSegmentStore, 'a) io" where
  "with_fs m st = (case m (clog_fs st) of (r, fs) \<Rightarrow> (r, st\<lparr>clog_fs := fs\<rparr>))"

definition store_open :: "(io_call \<Rightarrow> io_reply) \<Rightarrow> file_system \<Rightarrow> string \<Rightarrow> (ClogSegmentStore, StorageError) outcome" where
  "store_open io fs data_dir =
     (let dir = data_dir @ ''/clog'' in
      if io (CCreateDir dir) \<noteq> Done then Err Io
      else Ok \<lparr>clog_fs = fs, clog_dir = dir, segments = [], unsynced_segments = []\<rparr>)"

definition segment_handle :: "(io_call \<Rightarrow> io_reply) \<Rightarrow> u64 \<Rightarrow> (ClogSegmentStore, string) io" where
  "segment_handle io segment_id st =
     (case hm_get (segments st) segment_id of
        Some path \<Rightarrow> (Ok path, st)
      | None \<Rightarrow>
          sbind (with_fs (pf_open io (segment_path (clog_dir st) segment_id))) (\<lambda>path.
            sbind (with_fs (pf_len io path)) (\<lambda>len.
              sbind (if len < unat CLOG_SEGMENT_BYTES then with_fs (pf_set_len io path (unat CLOG_SEGMENT_BYTES)) else sret ())
                (\<lambda>_ st. (Ok path, st\<lparr>segments := hm_insert segment_id path (segments st)\<rparr>)))) st)"

definition read_page :: "(io_call \<Rightarrow> io_reply) \<Rightarrow> u64 \<Rightarrow> (ClogSegmentStore, u8 list) io" where
  "read_page io page_no =
     sbind (segment_handle io (segment_id_of_page page_no)) (\<lambda>path.
       with_fs (pf_read_exact_at io path (unat CLOG_PAGE_BYTES) (unat (page_offset_in_segment page_no))))"

definition write_page :: "(io_call \<Rightarrow> io_reply) \<Rightarrow> u64 \<Rightarrow> u8 list \<Rightarrow> (ClogSegmentStore, unit) io" where
  "write_page io page_no buf =
     sbind (segment_handle io (segment_id_of_page page_no)) (\<lambda>path.
       sbind (with_fs (pf_write_all_at io path buf (unat (page_offset_in_segment page_no)))) (\<lambda>_ st.
         (Ok (), st\<lparr>unsynced_segments := List.insert (segment_id_of_page page_no) (unsynced_segments st)\<rparr>)))"

definition sync_segment :: "(io_call \<Rightarrow> io_reply) \<Rightarrow> u64 \<Rightarrow> (ClogSegmentStore, unit) io" where
  "sync_segment io segment_id st =
     (case hm_get (segments st) segment_id of
        Some path \<Rightarrow> with_fs (pf_sync_all io path) st
      | None \<Rightarrow> (Ok (), st))"

fun sync_pending :: "(io_call \<Rightarrow> io_reply) \<Rightarrow> u64 list \<Rightarrow> (ClogSegmentStore, unit) io" where
  "sync_pending io [] st = (Ok (), st)"
| "sync_pending io (segment_id # pending) st =
     sbind (sync_segment io segment_id) (\<lambda>_ st.
       sync_pending io pending (st\<lparr>unsynced_segments := removeAll segment_id (unsynced_segments st)\<rparr>)) st"

definition sync_unsynced :: "(io_call \<Rightarrow> io_reply) \<Rightarrow> (ClogSegmentStore, unit) io" where
  "sync_unsynced io st = sync_pending io (unsynced_segments st) st"

definition unsynced_segment_count :: "ClogSegmentStore \<Rightarrow> nat" where
  "unsynced_segment_count st = length (unsynced_segments st)"

section \<open>Addresses as naturals\<close>

lemma clog_constants:
  "unat CLOG_PAGE_BYTES = 8192" "unat CLOG_SEGMENT_BYTES = 134217728" "unat CLOG_PAGES_PER_SEGMENT = 16384"
  "XIDS_PER_CLOG_PAGE = 16384" "CLOG_PAGES_PER_SEGMENT = 16384"
  by (simp_all add: CLOG_PAGE_BYTES_def CLOG_SEGMENT_BYTES_def CLOG_PAGES_PER_SEGMENT_def XIDS_PER_CLOG_PAGE_def
      XIDS_PER_SEGMENT_def)

lemma unat_segment_id: "unat (segment_id_of_page pn) = unat pn div 16384"
  by (simp add: segment_id_of_page_def unat_div_distrib clog_constants)

lemma unat_page_offset: "unat (page_offset_in_segment pn) = unat pn mod 16384 * 8192"
proof -
  have "unat (pn mod CLOG_PAGES_PER_SEGMENT) = unat pn mod 16384" by (simp add: unat_mod_distrib clog_constants)
  moreover have "unat pn mod 16384 * 8192 < 2 ^ 64"
  proof -
    have "unat pn mod 16384 < 16384" by simp
    then have "unat pn mod 16384 * 8192 < 16384 * 8192" by linarith
    then show ?thesis by simp
  qed
  ultimately show ?thesis
    unfolding page_offset_in_segment_def by (simp add: unat_word_ariths(2) clog_constants)
qed

lemma unat_page_no: "unat (page_no_of_xid xid) = unat xid div 16384"
  by (simp add: page_no_of_xid_def unat_div_distrib clog_constants)

lemma byte_in_page: "byte_in_page_of_xid xid = unat xid mod 16384 div 2" "byte_in_page_of_xid xid < 8192"
  by (auto simp: byte_in_page_of_xid_def unat_div_distrib unat_mod_distrib clog_constants)

text \<open>The pages tile the segments: a page and a byte of it determine the place in the files.\<close>

lemma page_place_inj:
  assumes "segment_id_of_page p = segment_id_of_page q" and "i < 8192" and "j < 8192"
    and "unat (page_offset_in_segment p) + i = unat (page_offset_in_segment q) + j"
  shows "p = q"
proof -
  have "unat p mod 16384 * 8192 + i = unat q mod 16384 * 8192 + j" using assms(4) by (simp add: unat_page_offset)
  then have "(unat p mod 16384 * 8192 + i) div 8192 = (unat q mod 16384 * 8192 + j) div 8192" by simp
  then have "unat p mod 16384 = unat q mod 16384" using assms(2,3) by simp
  moreover have "unat p div 16384 = unat q div 16384" using assms(1) unat_segment_id by metis
  ultimately have "unat p div 16384 * 16384 + unat p mod 16384 = unat q div 16384 * 16384 + unat q mod 16384" by simp
  then have "unat p = unat q" by (simp only: div_mult_mod_eq)
  then show ?thesis by (simp add: word_unat_eq_iff)
qed

text \<open>A page, a byte of it and the parity determine the XID.\<close>

lemma xid_place_inj:
  assumes "page_no_of_xid x = page_no_of_xid y" and "byte_in_page_of_xid x = byte_in_page_of_xid y"
    and "x AND 1 = y AND 1"
  shows "x = y"
proof -
  have "unat x div 16384 = unat y div 16384" using assms(1) unat_page_no by metis
  moreover have "unat x mod 16384 div 2 = unat y mod 16384 div 2" using assms(2) by (simp add: byte_in_page)
  moreover have "unat x mod 2 = unat y mod 2"
  proof -
    have "x mod 2 = y mod 2" using assms(3) by (simp add: and_one_eq)
    then show ?thesis using unat_mod_distrib [of x 2] unat_mod_distrib [of y 2] by simp
  qed
  moreover have "n = n div 16384 * 16384 + (n mod 16384 div 2 * 2 + n mod 2)" for n :: nat
    using mod_mod_cancel [of 2 16384 n] div_mult_mod_eq [of n 16384] div_mult_mod_eq [of "n mod 16384" 2] by simp
  ultimately have "unat x = unat y" by metis
  then show ?thesis by (simp add: word_unat_eq_iff)
qed

section \<open>Segment paths are distinct\<close>

definition digits_value :: "string \<Rightarrow> nat" where
  "digits_value s = foldl (\<lambda>acc c. acc * 10 + (of_char c - 48)) 0 s"

lemma digits_value_snoc [simp]: "digits_value (s @ [c]) = digits_value s * 10 + (of_char c - 48)"
  by (simp add: digits_value_def)

lemma digits_value_decimal: "digits_value (decimal n) = n"
proof (induction n rule: decimal.induct)
  case (1 n)
  have "of_char (char_of (48 + n mod 10) :: char) = (48 + n mod 10 :: nat)" by simp
  then show ?case
    using 1 by (subst decimal.simps) (simp add: digits_value_def [of "[_]"])
qed

lemma digits_value_pad: "digits_value (replicate k (char_of (48 :: nat)) @ s) = digits_value s"
proof -
  have "foldl (\<lambda>acc c. acc * 10 + (of_char c - 48)) 0 (replicate k (char_of (48 :: nat))) = (0 :: nat)"
    by (induction k) simp_all
  then show ?thesis by (simp add: digits_value_def)
qed

lemma segment_path_inj [simp]: "segment_path dir a = segment_path dir b \<longleftrightarrow> a = b"
proof
  assume "segment_path dir a = segment_path dir b"
  then have "pad8 (decimal (unat a)) = pad8 (decimal (unat b))" by (simp add: segment_path_def)
  then have "digits_value (pad8 (decimal (unat a))) = digits_value (pad8 (decimal (unat b)))" by simp
  then show "a = b" by (simp add: pad8_def digits_value_pad digits_value_decimal word_unat_eq_iff)
qed simp

section \<open>Nibbles\<close>

definition nibbles_ok :: "u8 \<Rightarrow> bool" where
  "nibbles_ok byte \<longleftrightarrow> drop_bit 4 byte \<le> 3 \<and> byte AND 0x0F \<le> 3"

lemma nibble_mask: "(0x0F :: u8) = mask 4" "(0xF0 :: u8) = NOT (mask 4)"
  by (simp_all add: mask_eq_exp_minus_1)

lemma low_high_nibble:
  fixes a s :: u8
  shows "drop_bit 4 ((a AND mask 4) OR push_bit 4 (s AND mask 4)) = s AND mask 4"
    and "((a AND mask 4) OR push_bit 4 (s AND mask 4)) AND mask 4 = a AND mask 4"
    and "drop_bit 4 ((a AND NOT (mask 4)) OR (s AND mask 4)) = drop_bit 4 a"
    and "((a AND NOT (mask 4)) OR (s AND mask 4)) AND mask 4 = s AND mask 4"
  by (rule bit_word_eqI; auto simp: bit_simps dest: bit_imp_le_length)+

lemma state_nibble: "state_as_u8 st AND mask 4 = state_as_u8 st" "state_as_u8 st \<le> 3"
  by (cases st; simp add: mask_eq_exp_minus_1)+

lemma nibbles_ok_0 [simp]: "nibbles_ok 0"
  by (simp add: nibbles_ok_def)

lemma set_nibble_parts:
  "drop_bit 4 (set_nibble byte xid s) = (if xid AND 1 = 0 then s AND mask 4 else drop_bit 4 byte)"
  "set_nibble byte xid s AND mask 4 = (if xid AND 1 = 0 then byte AND mask 4 else s AND mask 4)"
  unfolding set_nibble_def nibble_mask by (simp_all only: low_high_nibble split: if_split) simp_all

lemma nibbles_ok_set: "nibbles_ok byte \<Longrightarrow> nibbles_ok (set_nibble byte xid (state_as_u8 st))"
  unfolding nibbles_ok_def nibble_mask set_nibble_parts by (simp add: state_nibble)

lemma get_set_nibble_same: "get_nibble (set_nibble byte xid (state_as_u8 st)) xid = state_as_u8 st"
  unfolding get_nibble_def nibble_mask set_nibble_parts by (simp add: state_nibble)

lemma get_set_nibble_other:
  assumes "x AND 1 \<noteq> y AND 1"
  shows "get_nibble (set_nibble byte x s) y = get_nibble byte y"
proof -
  have "x AND 1 = 0 \<longleftrightarrow> y AND 1 \<noteq> 0" using assms by (auto simp: and_one_eq mod_2_eq_odd)
  then show ?thesis unfolding get_nibble_def nibble_mask set_nibble_parts by simp
qed

lemma get_nibble_ok: "nibbles_ok byte \<Longrightarrow> get_nibble byte xid \<le> 3"
  by (simp add: nibbles_ok_def get_nibble_def)

lemma small_nibble: "(n :: u8) \<le> 3 \<Longrightarrow> n = 0 \<or> n = 1 \<or> n = 2 \<or> n = 3"
proof -
  assume "n \<le> 3"
  then have "unat n \<le> 3" by (simp add: word_le_nat_alt)
  then have "unat n = 0 \<or> unat n = 1 \<or> unat n = 2 \<or> unat n = 3" by linarith
  then show ?thesis unfolding word_unat_eq_iff by simp
qed

lemma state_of_nibble: "n \<le> 3 \<Longrightarrow> \<exists>st. txn_state_from_nibble n = Ok st"
  using small_nibble [of n] by (auto simp: txn_state_from_nibble_def)

lemma state_roundtrip [simp]: "txn_state_from_nibble (state_as_u8 st) = Ok st"
  by (cases st) (simp_all add: txn_state_from_nibble_def)

section \<open>Segment store: contents and invariant\<close>

definition disk_byte :: "ClogSegmentStore \<Rightarrow> u64 \<Rightarrow> nat \<Rightarrow> u8" where
  "disk_byte st page_no i =
     file_byte (clog_fs st) (segment_path (clog_dir st) (segment_id_of_page page_no)) (unat (page_offset_in_segment page_no) + i)"

definition durable_byte :: "ClogSegmentStore \<Rightarrow> u64 \<Rightarrow> nat \<Rightarrow> u8" where
  "durable_byte st page_no i =
     synced_byte (clog_fs st) (segment_path (clog_dir st) (segment_id_of_page page_no)) (unat (page_offset_in_segment page_no) + i)"

definition store_inv :: "ClogSegmentStore \<Rightarrow> bool" where
  "store_inv st \<longleftrightarrow>
     fs_ok (clog_fs st) \<and>
     (\<forall>sid path. hm_get (segments st) sid = Some path \<longrightarrow>
        path = segment_path (clog_dir st) sid \<and> (\<exists>f. clog_fs st path = Some f \<and> unat CLOG_SEGMENT_BYTES \<le> f_len f)) \<and>
     (\<forall>sid \<in> set (unsynced_segments st). hm_get (segments st) sid \<noteq> None)"

lemma store_inv_open_segment:
  assumes "store_inv st" and "hm_get (segments st) sid = Some path"
  obtains f where "path = segment_path (clog_dir st) sid" and "clog_fs st path = Some f" and "134217728 \<le> f_len f"
  using assms by (auto simp: store_inv_def clog_constants)

text \<open>What opening a segment keeps: every byte, the directory and the set of unsynced segments.\<close>

definition same_pages :: "ClogSegmentStore \<Rightarrow> ClogSegmentStore \<Rightarrow> bool" where
  "same_pages st st' \<longleftrightarrow>
     clog_dir st' = clog_dir st \<and> unsynced_segments st' = unsynced_segments st \<and>
     (\<forall>path i. file_byte (clog_fs st') path i = file_byte (clog_fs st) path i) \<and>
     (\<forall>path i. synced_byte (clog_fs st') path i = synced_byte (clog_fs st) path i)"

lemma same_pages_refl [simp]: "same_pages st st"
  by (simp add: same_pages_def)

lemma same_pages_bytes:
  assumes "same_pages st st'"
  shows "disk_byte st' = disk_byte st" and "durable_byte st' = durable_byte st"
  using assms by (auto simp: same_pages_def disk_byte_def durable_byte_def fun_eq_iff)

definition open_fs :: "string \<Rightarrow> file_system \<Rightarrow> file_system" where
  "open_fs path fs = (if fs path = None then fs(path \<mapsto> empty_file) else fs)"

definition grow_fs :: "string \<Rightarrow> os_file \<Rightarrow> file_system \<Rightarrow> file_system" where
  "grow_fs path f fs = fs(path \<mapsto> f\<lparr>f_len := 134217728, f_data := (\<lambda>i. if i < min (f_len f) 134217728 then f_data f i else 0)\<rparr>)"

lemma open_fs_bytes:
  "file_byte (open_fs path fs) q i = file_byte fs q i" "synced_byte (open_fs path fs) q i = synced_byte fs q i"
  "fs_ok fs \<Longrightarrow> fs_ok (open_fs path fs)"
  by (auto simp: open_fs_def file_byte_def synced_byte_def empty_file_def fs_ok_def)

lemma grow_fs_bytes:
  assumes "fs_ok fs" and "fs path = Some f" and "f_len f < 134217728"
  shows "file_byte (grow_fs path f fs) q i = file_byte fs q i" "synced_byte (grow_fs path f fs) q i = synced_byte fs q i"
    "fs_ok (grow_fs path f fs)"
  using assms by (auto simp: grow_fs_def file_byte_def synced_byte_def fs_ok_def)

lemma open_fs_keep: "fs q = Some f \<Longrightarrow> open_fs p fs q = Some f"
  by (auto simp: open_fs_def)

lemma grow_fs_keep:
  "fs q = Some f \<Longrightarrow> 134217728 \<le> f_len f \<Longrightarrow> fs p = Some g \<Longrightarrow> f_len g < 134217728 \<Longrightarrow> grow_fs p g fs q = Some f"
  by (auto simp: grow_fs_def)

text \<open>The first touch of a segment.\<close>

lemma segment_handle_first:
  assumes "hm_get (segments st) sid = None" and "path = segment_path (clog_dir st) sid"
    and f: "open_fs path (clog_fs st) path = Some f"
  shows "segment_handle io sid st =
      (if io (COpen path) \<noteq> Done then (Err Io, st)
       else if io (CLen path) \<noteq> Done then (Err Io, st\<lparr>clog_fs := open_fs path (clog_fs st)\<rparr>)
       else if 134217728 \<le> f_len f then
         (Ok path, st\<lparr>clog_fs := open_fs path (clog_fs st), segments := hm_insert sid path (segments st)\<rparr>)
       else if io (CSetLen path 134217728) \<noteq> Done then (Err Io, st\<lparr>clog_fs := open_fs path (clog_fs st)\<rparr>)
       else (Ok path, st\<lparr>clog_fs := grow_fs path f (open_fs path (clog_fs st)), segments := hm_insert sid path (segments st)\<rparr>))"
  using assms
  by (simp add: segment_handle_def sbind_def with_fs_def pf_open_def pf_len_def pf_set_len_def sret_def
      clog_constants open_fs_def [symmetric] grow_fs_def)

definition handle_post :: "(io_call \<Rightarrow> io_reply) \<Rightarrow> u64 \<Rightarrow> ClogSegmentStore \<Rightarrow> (string, StorageError) outcome \<times> ClogSegmentStore \<Rightarrow> bool" where
  "handle_post io sid st = (\<lambda>(r, st').
     store_inv st' \<and> same_pages st st' \<and> r \<noteq> Panic \<and> (io = (\<lambda>_. Done) \<longrightarrow> (\<exists>p. r = Ok p)) \<and>
     (\<forall>p. r = Ok p \<longrightarrow> hm_get (segments st') sid = Some p))"

lemma store_inv_fs:
  assumes inv: "store_inv st" and "fs_ok fs"
    and keep: "\<And>q f. clog_fs st q = Some f \<Longrightarrow> 134217728 \<le> f_len f \<Longrightarrow> \<exists>g. fs q = Some g \<and> f_len f \<le> f_len g"
  shows "store_inv (st\<lparr>clog_fs := fs\<rparr>)"
proof -
  have "path = segment_path (clog_dir st) sid \<and> (\<exists>g. fs path = Some g \<and> 134217728 \<le> f_len g)"
    if seg: "hm_get (segments st) sid = Some path" for sid path
  proof -
    obtain f where "path = segment_path (clog_dir st) sid" and f: "clog_fs st path = Some f" "134217728 \<le> f_len f"
      by (rule store_inv_open_segment [OF inv seg])
    then show ?thesis using keep [OF f] by (auto intro: order_trans)
  qed
  then show ?thesis using assms(1,2) by (simp add: store_inv_def clog_constants)
qed

lemma store_inv_opened:
  assumes "store_inv st"
  shows "store_inv (st\<lparr>clog_fs := open_fs path (clog_fs st)\<rparr>)" and "same_pages st (st\<lparr>clog_fs := open_fs path (clog_fs st)\<rparr>)"
proof -
  have "fs_ok (clog_fs st)" using assms by (simp add: store_inv_def)
  then show "store_inv (st\<lparr>clog_fs := open_fs path (clog_fs st)\<rparr>)"
    by (intro store_inv_fs [OF assms]) (auto intro: open_fs_bytes dest: open_fs_keep)
qed (simp add: same_pages_def open_fs_bytes)

lemma store_inv_grown:
  assumes inv: "store_inv st" and f: "clog_fs st path = Some f" "f_len f < 134217728"
  shows "store_inv (st\<lparr>clog_fs := grow_fs path f (clog_fs st)\<rparr>)" and "same_pages st (st\<lparr>clog_fs := grow_fs path f (clog_fs st)\<rparr>)"
proof -
  have ok: "fs_ok (clog_fs st)" using inv by (simp add: store_inv_def)
  show "same_pages st (st\<lparr>clog_fs := grow_fs path f (clog_fs st)\<rparr>)"
    by (simp add: same_pages_def grow_fs_bytes [OF ok f])
  show "store_inv (st\<lparr>clog_fs := grow_fs path f (clog_fs st)\<rparr>)"
    using f by (intro store_inv_fs [OF inv grow_fs_bytes(3) [OF ok f]]) (auto dest: grow_fs_keep)
qed

lemma store_inv_insert:
  assumes "store_inv st" and "clog_fs st (segment_path (clog_dir st) sid) = Some f" and "134217728 \<le> f_len f"
  shows "store_inv (st\<lparr>segments := hm_insert sid (segment_path (clog_dir st) sid) (segments st)\<rparr>)"
    and "same_pages st (st\<lparr>segments := hm_insert sid (segment_path (clog_dir st) sid) (segments st)\<rparr>)"
  using assms by (auto simp: store_inv_def same_pages_def hmap_simps clog_constants)

lemma same_pages_trans: "same_pages a b \<Longrightarrow> same_pages b c \<Longrightarrow> same_pages a c"
  by (simp add: same_pages_def)

lemma segment_handle_post:
  assumes inv: "store_inv st"
  shows "handle_post io sid st (segment_handle io sid st)"
proof (cases "hm_get (segments st) sid")
  case (Some p)
  then show ?thesis using inv by (simp add: handle_post_def segment_handle_def)
next
  case None
  let ?path = "segment_path (clog_dir st) sid"
  let ?st1 = "st\<lparr>clog_fs := open_fs ?path (clog_fs st)\<rparr>"
  obtain f where f: "open_fs ?path (clog_fs st) ?path = Some f" by (cases "clog_fs st ?path") (auto simp: open_fs_def)
  note o = store_inv_opened [OF inv, of ?path]
  let ?full = "?st1\<lparr>segments := hm_insert sid ?path (segments st)\<rparr>"
  have full: "store_inv ?full \<and> same_pages st ?full" if "134217728 \<le> f_len f"
    using store_inv_insert [of ?st1 sid f] o f that by (auto intro: same_pages_trans)
  let ?st2 = "?st1\<lparr>clog_fs := grow_fs ?path f (open_fs ?path (clog_fs st))\<rparr>"
  let ?grown = "?st2\<lparr>segments := hm_insert sid ?path (segments st)\<rparr>"
  have grown: "store_inv ?grown \<and> same_pages st ?grown" if "f_len f < 134217728"
  proof -
    have g: "store_inv ?st2" "same_pages ?st1 ?st2" using store_inv_grown [of ?st1 ?path f] o f that by auto
    have "clog_fs ?st2 ?path = Some (f\<lparr>f_len := 134217728, f_data := (\<lambda>i. if i < min (f_len f) 134217728 then f_data f i else 0)\<rparr>)"
      by (simp add: grow_fs_def)
    then have "store_inv ?grown" "same_pages ?st2 ?grown" using store_inv_insert [of ?st2 sid] g by auto
    then show ?thesis using o g by (blast intro: same_pages_trans)
  qed
  show ?thesis
    unfolding segment_handle_first [OF None refl f] handle_post_def
    using inv o full grown by (auto simp: hmap_simps not_le)
qed

lemma segment_handle_inv:
  assumes "segment_handle io sid st = (r, st')" and "store_inv st"
  shows "store_inv st'" and "same_pages st st'" and "r \<noteq> Panic" and "io = (\<lambda>_. Done) \<Longrightarrow> \<exists>p. r = Ok p"
    and "r = Ok p \<Longrightarrow> hm_get (segments st') sid = Some p"
  using segment_handle_post [OF assms(2), of io sid] assms(1) by (auto simp: handle_post_def)

text \<open>Reading a page returns its bytes on disk and changes none.\<close>

lemma page_in_segment: "unat (page_offset_in_segment pn) + 8192 \<le> 134217728"
proof -
  have "unat pn mod 16384 < 16384" by simp
  then show ?thesis unfolding unat_page_offset by linarith
qed

lemma read_page_inv:
  assumes rd: "read_page io pn st = (r, st')" and inv: "store_inv st"
  shows "store_inv st'" and "same_pages st st'" and "r \<noteq> Panic" and "io = (\<lambda>_. Done) \<Longrightarrow> \<exists>bs. r = Ok bs"
    and "r = Ok bs \<Longrightarrow> bs = map (disk_byte st pn) [0..<8192]"
proof -
  obtain r1 st1 where h: "segment_handle io (segment_id_of_page pn) st = (r1, st1)" by fastforce
  note hi = segment_handle_inv [OF h inv]
  have "store_inv st' \<and> same_pages st st' \<and> r \<noteq> Panic \<and> (io = (\<lambda>_. Done) \<longrightarrow> (\<exists>bs. r = Ok bs)) \<and>
      (\<forall>bs. r = Ok bs \<longrightarrow> bs = map (disk_byte st pn) [0..<8192])"
  proof (cases r1)
    case (Ok path)
    obtain f where path: "path = segment_path (clog_dir st1) (segment_id_of_page pn)" and f: "clog_fs st1 path = Some f"
      and len: "134217728 \<le> f_len f"
      using store_inv_open_segment [OF hi(1) hi(5) [OF Ok]] by blast
    have "f_data f (unat (page_offset_in_segment pn) + i) = disk_byte st pn i" for i
      unfolding same_pages_bytes(1) [OF hi(2), symmetric] using f by (simp add: disk_byte_def file_byte_def path [symmetric])
    then have "map (f_data f) [unat (page_offset_in_segment pn)..<unat (page_offset_in_segment pn) + 8192] =
        map (disk_byte st pn) [0..<8192]"
      by (intro nth_equalityI) simp_all
    moreover have "\<not> f_len f < unat (page_offset_in_segment pn) + 8192" using len page_in_segment [of pn] by linarith
    ultimately have "(r, st') = (if io (CRead path (unat (page_offset_in_segment pn))) \<noteq> Done then (Err Io, st1)
        else (Ok (map (disk_byte st pn) [0..<8192]), st1))"
      using rd h Ok f by (cases "io (CRead path (unat (page_offset_in_segment pn)))")
        (simp_all add: read_page_def sbind_def with_fs_def pf_read_exact_at_def clog_constants)
    then show ?thesis using hi by (auto split: if_splits)
  qed (use rd h hi in \<open>auto simp: read_page_def sbind_def\<close>)
  then show "store_inv st'" "same_pages st st'" "r \<noteq> Panic" "io = (\<lambda>_. Done) \<Longrightarrow> \<exists>bs. r = Ok bs"
    "r = Ok bs \<Longrightarrow> bs = map (disk_byte st pn) [0..<8192]" by auto
qed

text \<open>Storing bytes inside a page changes that page only, and nothing durable.\<close>

definition wrote :: "u64 \<Rightarrow> u8 list \<Rightarrow> ClogSegmentStore \<Rightarrow> ClogSegmentStore \<Rightarrow> bool" where
  "wrote pn buf st st' \<longleftrightarrow>
     clog_dir st' = clog_dir st \<and> durable_byte st' = durable_byte st \<and>
     (\<forall>q i. i < 8192 \<longrightarrow> disk_byte st' q i = (if q = pn \<and> i < length buf then buf ! i else disk_byte st q i))"

lemma store_inv_store:
  assumes inv: "store_inv st" and seg: "hm_get (segments st) (segment_id_of_page pn) = Some path"
    and f: "clog_fs st path = Some f" and len: "length buf \<le> 8192"
  defines "st' \<equiv> st\<lparr>clog_fs := (clog_fs st)(path \<mapsto> store_bytes buf (unat (page_offset_in_segment pn)) f)\<rparr>"
  shows "store_inv st'" and "wrote pn buf st st'" and "unsynced_segments st' = unsynced_segments st"
proof -
  have path: "path = segment_path (clog_dir st) (segment_id_of_page pn)" using inv seg by (auto simp: store_inv_def)
  have "fs_ok (clog_fs st)" using inv by (simp add: store_inv_def)
  note ok = fs_ok_store [OF this f, of buf "unat (page_offset_in_segment pn)"]
  have "f_len f \<le> f_len (store_bytes buf (unat (page_offset_in_segment pn)) f)" by (simp add: store_bytes_def)
  then show "store_inv st'"
    using f unfolding st'_def by (intro store_inv_fs [OF inv ok]) auto
  have place: "segment_path (clog_dir st) (segment_id_of_page q) = path \<and> unat (page_offset_in_segment pn) \<le> unat (page_offset_in_segment q) + i \<and>
      unat (page_offset_in_segment q) + i < unat (page_offset_in_segment pn) + length buf \<longleftrightarrow> q = pn \<and> i < length buf" if "i < 8192" for q i
  proof
    assume a: "segment_path (clog_dir st) (segment_id_of_page q) = path \<and> unat (page_offset_in_segment pn) \<le> unat (page_offset_in_segment q) + i \<and>
      unat (page_offset_in_segment q) + i < unat (page_offset_in_segment pn) + length buf"
    then obtain j where j: "unat (page_offset_in_segment q) + i = unat (page_offset_in_segment pn) + j" "j < length buf"
      by (metis add_less_cancel_left le_Suc_ex)
    then have "q = pn" using page_place_inj [OF _ that _ j(1)] a len by (simp add: path)
    then show "q = pn \<and> i < length buf" using j by simp
  qed (use path in simp)
  show "wrote pn buf st st'"
    unfolding wrote_def
  proof (intro conjI allI impI)
    show "durable_byte st' = durable_byte st"
      by (simp add: fun_eq_iff durable_byte_def st'_def synced_byte_store [of "clog_fs st", OF f])
    show "disk_byte st' q i = (if q = pn \<and> i < length buf then buf ! i else disk_byte st q i)" if "i < 8192" for q i
      using place [OF that, of q] by (auto simp: disk_byte_def st'_def file_byte_store [of "clog_fs st", OF f])
  qed (simp add: st'_def)
  show "unsynced_segments st' = unsynced_segments st" by (simp add: st'_def)
qed

lemma same_pages_wrote: "same_pages st st' \<Longrightarrow> wrote pn [] st st'"
  using same_pages_bytes [of st st'] by (simp add: wrote_def same_pages_def)

lemma wrote_trans: "same_pages st st1 \<Longrightarrow> wrote pn buf st1 st2 \<Longrightarrow> wrote pn buf st st2"
  using same_pages_bytes [of st st1] by (simp add: wrote_def same_pages_def)

lemma wrote_unsynced [simp]: "wrote pn buf st (st'\<lparr>unsynced_segments := u\<rparr>) = wrote pn buf st st'"
  by (simp add: wrote_def durable_byte_def disk_byte_def fun_eq_iff)

text \<open>Writing a page: the page changes, completely on success and by a prefix on failure.\<close>

lemma write_page_inv:
  assumes w: "write_page io pn buf st = (r, st')" and inv: "store_inv st" and len: "length buf = 8192"
  shows "store_inv st'" and "\<exists>n. wrote pn (take n buf) st st'" and "r \<noteq> Panic" and "io = (\<lambda>_. Done) \<Longrightarrow> r = Ok ()"
    and "r = Ok () \<Longrightarrow> wrote pn buf st st' \<and> set (unsynced_segments st') = insert (segment_id_of_page pn) (set (unsynced_segments st))"
    and "r \<noteq> Ok () \<Longrightarrow> unsynced_segments st' = unsynced_segments st"
proof -
  obtain r1 st1 where h: "segment_handle io (segment_id_of_page pn) st = (r1, st1)" by fastforce
  note hi = segment_handle_inv [OF h inv]
  have un: "unsynced_segments st1 = unsynced_segments st" using hi(2) by (simp add: same_pages_def)
  have "store_inv st' \<and> (\<exists>n. wrote pn (take n buf) st st') \<and> r \<noteq> Panic \<and> (io = (\<lambda>_. Done) \<longrightarrow> r = Ok ()) \<and>
      (r = Ok () \<longrightarrow> wrote pn buf st st' \<and> set (unsynced_segments st') = insert (segment_id_of_page pn) (set (unsynced_segments st))) \<and>
      (r \<noteq> Ok () \<longrightarrow> unsynced_segments st' = unsynced_segments st)"
  proof (cases r1)
    case (Ok path)
    note seg = hi(5) [OF Ok]
    obtain f where f: "clog_fs st1 path = Some f" by (rule store_inv_open_segment [OF hi(1) seg])
    let ?off = "unat (page_offset_in_segment pn)"
    let ?st = "\<lambda>bs. st1\<lparr>clog_fs := (clog_fs st1)(path \<mapsto> store_bytes bs ?off f)\<rparr>"
    have s: "store_inv (?st bs) \<and> wrote pn bs st (?st bs)" if "length bs \<le> 8192" for bs
      using store_inv_store [OF hi(1) seg f that] wrote_trans [OF hi(2)] by blast
    show ?thesis
    proof (cases "io (CWrite path ?off)")
      case Done
      let ?new = "(?st buf)\<lparr>unsynced_segments := List.insert (segment_id_of_page pn) (unsynced_segments st)\<rparr>"
      have eq: "(r, st') = (Ok (), ?new)"
        using w h Ok f Done un by (simp add: write_page_def sbind_def with_fs_def pf_write_all_at_def)
      have "store_inv ?new"
        using s [of buf] len seg unfolding store_inv_def by (auto simp: un)
      then show ?thesis using eq s [of buf] len by (auto intro!: exI [of _ 8192])
    next
      case (Fails n)
      have eq: "(r, st') = (Err Io, if n = 0 then st1 else ?st (take n buf))"
        using w h Ok f Fails by (auto simp: write_page_def sbind_def with_fs_def pf_write_all_at_def)
      have "wrote pn (take 0 buf) st st1" using same_pages_wrote [OF hi(2)] by simp
      moreover have "store_inv (?st (take n buf)) \<and> wrote pn (take n buf) st (?st (take n buf))" using s [of "take n buf"] len by simp
      ultimately have "store_inv st' \<and> (\<exists>n. wrote pn (take n buf) st st') \<and> unsynced_segments st' = unsynced_segments st"
        using eq hi(1) un by (cases "n = 0") (auto intro!: exI [of _ n])
      moreover have "io \<noteq> (\<lambda>_. Done)" using Fails by auto
      ultimately show ?thesis using eq by simp
    qed
  next
    case (Err e)
    have "wrote pn (take 0 buf) st st1" using same_pages_wrote [OF hi(2)] by simp
    then show ?thesis using w h hi Err un by (auto simp: write_page_def sbind_def intro!: exI [of _ 0])
  qed (use hi in simp)
  then show "store_inv st'" "\<exists>n. wrote pn (take n buf) st st'" "r \<noteq> Panic" "io = (\<lambda>_. Done) \<Longrightarrow> r = Ok ()"
    "r = Ok () \<Longrightarrow> wrote pn buf st st' \<and> set (unsynced_segments st') = insert (segment_id_of_page pn) (set (unsynced_segments st))"
    "r \<noteq> Ok () \<Longrightarrow> unsynced_segments st' = unsynced_segments st" by auto
qed

text \<open>Pages outside \<open>X\<close> and outside the unsynced segments are durable as they stand.\<close>

definition durable_except :: "u64 set \<Rightarrow> ClogSegmentStore \<Rightarrow> bool" where
  "durable_except X st \<longleftrightarrow>
     (\<forall>pn i. i < 8192 \<longrightarrow> pn \<notin> X \<longrightarrow> segment_id_of_page pn \<notin> set (unsynced_segments st) \<longrightarrow> disk_byte st pn i = durable_byte st pn i)"

lemma sync_segment_inv:
  assumes s: "sync_segment io sid st = (r, st1)" and inv: "store_inv st" and d: "durable_except X st"
    and mem: "hm_get (segments st) sid \<noteq> None"
  defines "st' \<equiv> st1\<lparr>unsynced_segments := removeAll sid (unsynced_segments st1)\<rparr>"
  shows "r \<noteq> Panic" and "io = (\<lambda>_. Done) \<Longrightarrow> r = Ok ()" and "r \<noteq> Ok () \<Longrightarrow> st1 = st"
    and "r = Ok () \<Longrightarrow> store_inv st' \<and> durable_except X st' \<and> disk_byte st' = disk_byte st \<and> clog_dir st' = clog_dir st \<and>
      segments st' = segments st \<and> unsynced_segments st' = removeAll sid (unsynced_segments st)"
    and "r = Ok () \<Longrightarrow> durable_byte st' pn i \<in> {durable_byte st pn i, disk_byte st pn i}"
proof -
  obtain path where seg: "hm_get (segments st) sid = Some path" using mem by blast
  obtain f where path: "path = segment_path (clog_dir st) sid" and f: "clog_fs st path = Some f"
    by (rule store_inv_open_segment [OF inv seg])
  let ?fs = "(clog_fs st)(path \<mapsto> f\<lparr>f_synced_len := f_len f, f_synced := f_data f\<rparr>)"
  have eq: "(r, st1) = (if io (CSync path) \<noteq> Done then (Err Io, st) else (Ok (), st\<lparr>clog_fs := ?fs\<rparr>))"
    using s seg f by (cases "io (CSync path)") (simp_all add: sync_segment_def with_fs_def pf_sync_all_def)
  then show "r \<noteq> Panic" "io = (\<lambda>_. Done) \<Longrightarrow> r = Ok ()" "r \<noteq> Ok () \<Longrightarrow> st1 = st" by (auto split: if_splits)
  assume r: "r = Ok ()"
  then have st1: "st1 = st\<lparr>clog_fs := ?fs\<rparr>" using eq by (auto split: if_splits)
  have ok: "fs_ok ?fs" using inv f by (auto simp: store_inv_def fs_ok_def)
  have "store_inv st1" unfolding st1 using f by (intro store_inv_fs [OF inv ok]) auto
  then have "store_inv st'" unfolding st'_def store_inv_def by auto
  moreover have disk: "disk_byte st' = disk_byte st"
    using f by (auto simp: fun_eq_iff disk_byte_def st'_def st1 file_byte_def)
  moreover have dur: "durable_byte st' pn i = (if segment_id_of_page pn = sid then disk_byte st pn i else durable_byte st pn i)" for pn i
    using f by (auto simp: disk_byte_def durable_byte_def st'_def st1 file_byte_def synced_byte_def path)
  then have "durable_except X st'" using d disk by (auto simp: durable_except_def st'_def st1)
  ultimately show "store_inv st' \<and> durable_except X st' \<and> disk_byte st' = disk_byte st \<and> clog_dir st' = clog_dir st \<and>
      segments st' = segments st \<and> unsynced_segments st' = removeAll sid (unsynced_segments st)"
    by (simp add: st'_def st1)
  show "durable_byte st' pn i \<in> {durable_byte st pn i, disk_byte st pn i}" using dur by simp
qed

lemma sync_pending_inv:
  assumes "sync_pending io pending st = (r, st')" and "store_inv st" and "durable_except X st"
    and "set pending \<subseteq> dom (hm_get (segments st))"
  shows "store_inv st' \<and> durable_except X st' \<and> disk_byte st' = disk_byte st \<and> clog_dir st' = clog_dir st \<and> r \<noteq> Panic \<and>
    (\<forall>pn i. durable_byte st' pn i \<in> {durable_byte st pn i, disk_byte st pn i}) \<and>
    (io = (\<lambda>_. Done) \<longrightarrow> r = Ok ()) \<and> (r = Ok () \<longrightarrow> set (unsynced_segments st') = set (unsynced_segments st) - set pending)"
  using assms
proof (induction io pending st rule: sync_pending.induct)
  case (2 io sid pending st)
  obtain r1 st1 where s: "sync_segment io sid st = (r1, st1)" by fastforce
  have "hm_get (segments st) sid \<noteq> None" using "2.prems"(4) by auto
  note si = sync_segment_inv [OF s "2.prems"(2,3) this]
  show ?case
  proof (cases "r1 = Ok ()")
    case True
    let ?st2 = "st1\<lparr>unsynced_segments := removeAll sid (unsynced_segments st1)\<rparr>"
    note s4 = si(4) [OF True]
    have rest: "sync_pending io pending ?st2 = (r, st')" using "2.prems"(1) s True by (simp add: sbind_def)
    have "set pending \<subseteq> dom (hm_get (segments ?st2))" using "2.prems"(4) s4 by auto
    note IH = "2.IH" [of st1, OF rest _ _ this]
    have d: "durable_byte st' pn i \<in> {durable_byte st pn i, disk_byte st pn i}"
      if "durable_byte st' pn i \<in> {durable_byte ?st2 pn i, disk_byte ?st2 pn i}" for pn i
      using that si(5) [OF True, of pn i] s4 by auto
    then show ?thesis using IH s4 by auto
  next
    case False
    then show ?thesis using "2.prems" s si by (cases r1) (auto simp: sbind_def)
  qed
qed auto

end
