(* ===== verification/Clog_Buffer.thy ===== *)
theory Clog_Buffer
  imports Clog_File
begin

unbundle bit_operations_syntax

text \<open>
  The clock-sweep cache of commit-log pages, \<^verbatim>\<open>pg-txn/src/clog_buffer.rs\<close>, and the commit-log
  redo handlers of \<^verbatim>\<open>pg-txn/src/redo.rs\<close>.  The cache refines a map from XIDs to states whatever
  pages it evicts and whichever calls fail; without I/O errors no call panics; and after a successful
  checkpoint flush a crash loses no state, even when earlier flushes failed half way.  A read or write that
  meets an I/O error panics, and the runs considered go on from there with a crash and a restart: the frame
  such a call was loading stays marked with its old page, so a process that went on could load that page
  a second time.
\<close>

section \<open>Clock-sweep cache\<close>

definition INVALID_PAGE_NO :: u64 where "INVALID_PAGE_NO = - 1"
definition MIN_FRAMES :: nat where "MIN_FRAMES = 4"
definition MAX_FRAMES :: nat where "MAX_FRAMES = 1024"

record ClogFrame =
  fr_page_no :: u64
  fr_data :: "u8 list"
  fr_dirty :: bool
  fr_referenced :: bool

record Inner =
  cl_frames :: "ClogFrame list"
  page_table :: "(u64, nat) hmap"
  clock_hand :: nat

record ClogBuffer =
  cl_store :: ClogSegmentStore
  cl_inner :: Inner
  cl_hits :: u64
  cl_misses :: u64

definition fresh_frame :: ClogFrame where
  "fresh_frame = \<lparr>fr_page_no = INVALID_PAGE_NO, fr_data = replicate (unat CLOG_PAGE_BYTES) 0,
     fr_dirty = False, fr_referenced = False\<rparr>"

definition clog_buffer_open ::
    "(io_call \<Rightarrow> io_reply) \<Rightarrow> file_system \<Rightarrow> string \<Rightarrow> nat \<Rightarrow> (ClogBuffer, StorageError) outcome" where
  "clog_buffer_open io fs data_dir clog_buffer_frames =
     (if \<not> (MIN_FRAMES \<le> clog_buffer_frames \<and> clog_buffer_frames \<le> MAX_FRAMES) then Panic
      else obind (store_open io fs data_dir) (\<lambda>store. Ok
        \<lparr>cl_store = store,
         cl_inner = \<lparr>cl_frames = replicate clog_buffer_frames fresh_frame, page_table = [], clock_hand = 0\<rparr>,
         cl_hits = 0, cl_misses = 0\<rparr>))"

definition frame_count :: "ClogBuffer \<Rightarrow> nat" where
  "frame_count b = length (cl_frames (cl_inner b))"

definition with_store :: "(ClogSegmentStore, 'a) io \<Rightarrow> (ClogBuffer, 'a) io" where
  "with_store m b = (case m (cl_store b) of (r, st) \<Rightarrow> (r, b\<lparr>cl_store := st\<rparr>))"

definition set_frame :: "nat \<Rightarrow> ClogFrame \<Rightarrow> ClogBuffer \<Rightarrow> ClogBuffer" where
  "set_frame i fr b = b\<lparr>cl_inner := (cl_inner b)\<lparr>cl_frames := (cl_frames (cl_inner b))[i := fr]\<rparr>\<rparr>"

fun flush_frames :: "(io_call \<Rightarrow> io_reply) \<Rightarrow> nat list \<Rightarrow> (ClogBuffer, unit) io" where
  "flush_frames io [] b = (Ok (), b)"
| "flush_frames io (i # is) b =
     (let frame = cl_frames (cl_inner b) ! i in
      if fr_page_no frame \<noteq> INVALID_PAGE_NO \<and> fr_dirty frame then
        sbind (with_store (write_page io (fr_page_no frame) (fr_data frame))) (\<lambda>_ b.
          flush_frames io is (set_frame i (frame\<lparr>fr_dirty := False\<rparr>) b)) b
      else flush_frames io is b)"

definition flush_dirty :: "(io_call \<Rightarrow> io_reply) \<Rightarrow> (ClogBuffer, unit) io" where
  "flush_dirty io b =
     sbind (flush_frames io [0..<frame_count b]) (\<lambda>_. with_store (sync_unsynced io)) b"

text \<open>One revolution of the hand, of at most \<open>k\<close> frames.\<close>

fun sweep :: "bool \<Rightarrow> nat \<Rightarrow> Inner \<Rightarrow> nat option \<times> Inner" where
  "sweep allow_dirty 0 inner = (None, inner)"
| "sweep allow_dirty (Suc k) inner =
     (let idx = clock_hand inner;
          inner = inner\<lparr>clock_hand := (clock_hand inner + 1) mod length (cl_frames inner)\<rparr>;
          frame = cl_frames inner ! idx
      in if fr_page_no frame = INVALID_PAGE_NO then (Some idx, inner)
         else if fr_referenced frame then
           sweep allow_dirty k (inner\<lparr>cl_frames := (cl_frames inner)[idx := frame\<lparr>fr_referenced := False\<rparr>]\<rparr>)
         else if fr_dirty frame \<and> \<not> allow_dirty then sweep allow_dirty k inner
         else (Some idx, inner))"

text \<open>The loop of revolutions; a loop that does not end has no value.\<close>

partial_function (option) find_victim_loop :: "bool \<Rightarrow> Inner \<Rightarrow> (nat \<times> Inner) option" where
  "find_victim_loop allow_dirty inner =
     (case sweep allow_dirty (length (cl_frames inner)) inner of
        (Some idx, inner') \<Rightarrow> Some (idx, inner')
      | (None, inner') \<Rightarrow> find_victim_loop True inner')"

definition find_victim :: "Inner \<Rightarrow> (nat \<times> Inner) option" where
  "find_victim inner = find_victim_loop False inner"

text \<open>The victim's page leaves the cache, written back first when dirty.\<close>

definition evict :: "(io_call \<Rightarrow> io_reply) \<Rightarrow> nat \<Rightarrow> (ClogBuffer, unit) io" where
  "evict io victim b =
     (let frame = cl_frames (cl_inner b) ! victim in
      if fr_page_no frame \<noteq> INVALID_PAGE_NO then
        sbind (if fr_dirty frame then with_store (write_page io (fr_page_no frame) (fr_data frame)) else sret ())
          (\<lambda>_ b. (Ok (), b\<lparr>cl_inner := (cl_inner b)\<lparr>page_table := hm_remove (fr_page_no frame) (page_table (cl_inner b))\<rparr>\<rparr>)) b
      else (Ok (), b))"

definition install :: "nat \<Rightarrow> u64 \<Rightarrow> u8 list \<Rightarrow> (ClogBuffer, nat) io" where
  "install victim page_no data b =
     (let b = set_frame victim \<lparr>fr_page_no = page_no, fr_data = data, fr_dirty = False, fr_referenced = True\<rparr> b
      in (Ok victim, b\<lparr>cl_inner := (cl_inner b)\<lparr>page_table := hm_insert page_no victim (page_table (cl_inner b))\<rparr>\<rparr>))"

text \<open>A victim search that does not return is a panic of the model.\<close>

definition locate_frame :: "(io_call \<Rightarrow> io_reply) \<Rightarrow> u64 \<Rightarrow> (ClogBuffer, nat) io" where
  "locate_frame io page_no b =
     (case hm_get (page_table (cl_inner b)) page_no of
        Some idx \<Rightarrow>
          (Ok idx, set_frame idx ((cl_frames (cl_inner b) ! idx)\<lparr>fr_referenced := True\<rparr>) (b\<lparr>cl_hits := cl_hits b + 1\<rparr>))
      | None \<Rightarrow>
          let b = b\<lparr>cl_misses := cl_misses b + 1\<rparr>
          in case find_victim (cl_inner b) of
               None \<Rightarrow> (Panic, b)
             | Some (victim, inner) \<Rightarrow>
                 sbind (evict io victim) (\<lambda>_.
                   sbind (with_store (read_page io page_no)) (install victim page_no)) (b\<lparr>cl_inner := inner\<rparr>))"

definition clog_buffer_get_state :: "(io_call \<Rightarrow> io_reply) \<Rightarrow> TxnId \<Rightarrow> (ClogBuffer, TxnState) io" where
  "clog_buffer_get_state io xid b =
     (if xid = TxnId_INVALID then (Ok InProgress, b)
      else case locate_frame io (page_no_of_xid xid) b of
             (Ok idx, b) \<Rightarrow>
               (txn_state_from_nibble (get_nibble (fr_data (cl_frames (cl_inner b) ! idx) ! byte_in_page_of_xid xid) xid), b)
           | (_, b) \<Rightarrow> (Panic, b))"

definition clog_buffer_set_state :: "(io_call \<Rightarrow> io_reply) \<Rightarrow> TxnId \<Rightarrow> TxnState \<Rightarrow> (ClogBuffer, unit) io" where
  "clog_buffer_set_state io xid state b =
     (if xid = TxnId_INVALID then (Ok (), b)
      else case locate_frame io (page_no_of_xid xid) b of
             (Ok idx, b) \<Rightarrow>
               (let i = byte_in_page_of_xid xid;
                    frame = cl_frames (cl_inner b) ! idx
                in (Ok (), set_frame idx
                     (frame\<lparr>fr_data := (fr_data frame)[i := set_nibble (fr_data frame ! i) xid (state_as_u8 state)],
                            fr_dirty := True\<rparr>) b))
           | (_, b) \<Rightarrow> (Panic, b))"

section \<open>Victim search\<close>

lemma page_no_valid: "page_no_of_xid xid \<noteq> INVALID_PAGE_NO"
proof
  assume "page_no_of_xid xid = INVALID_PAGE_NO"
  then have "unat xid div 16384 = 2 ^ 64 - 1"
    using unat_page_no [of xid] by (simp add: INVALID_PAGE_NO_def unsigned_minus_1_eq_mask mask_eq_exp_minus_1)
  moreover have "unat xid div 16384 \<le> 2 ^ 64 div 16384" using unsigned_less [of xid, where 'a = nat] by (intro div_le_mono) simp
  ultimately show False by simp
qed

definition unref :: "ClogFrame \<Rightarrow> ClogFrame" where
  "unref fr = fr\<lparr>fr_referenced := False\<rparr>"

lemma unref_simps [simp]:
  "fr_page_no (unref fr) = fr_page_no fr" "fr_data (unref fr) = fr_data fr" "fr_dirty (unref fr) = fr_dirty fr"
  "\<not> fr_referenced (unref fr)" "unref (fr\<lparr>fr_referenced := r\<rparr>) = unref fr" "unref (unref fr) = unref fr"
  by (simp_all add: unref_def)

text \<open>The search moves the hand and clears reference bits, nothing else.\<close>

definition swept :: "Inner \<Rightarrow> Inner \<Rightarrow> bool" where
  "swept inner inner' \<longleftrightarrow>
     page_table inner' = page_table inner \<and> map unref (cl_frames inner') = map unref (cl_frames inner) \<and>
     clock_hand inner' < length (cl_frames inner') \<and>
     (\<forall>i < length (cl_frames inner). fr_referenced (cl_frames inner' ! i) \<longrightarrow> fr_referenced (cl_frames inner ! i))"

lemma swept_length: "swept inner inner' \<Longrightarrow> length (cl_frames inner') = length (cl_frames inner)"
  unfolding swept_def by (metis length_map)

lemma swept_trans: "swept a b \<Longrightarrow> swept b c \<Longrightarrow> swept a c"
  using swept_length [of a b] unfolding swept_def by auto

lemma swept_hand: "clock_hand inner < length (cl_frames inner) \<Longrightarrow>
    swept inner (inner\<lparr>clock_hand := (clock_hand inner + 1) mod length (cl_frames inner)\<rparr>)"
  unfolding swept_def by (auto intro: mod_less_divisor)

lemma swept_unref:
  assumes "idx < length (cl_frames inner)" and "clock_hand inner < length (cl_frames inner)"
  shows "swept inner (inner\<lparr>cl_frames := (cl_frames inner)[idx := (cl_frames inner ! idx)\<lparr>fr_referenced := False\<rparr>]\<rparr>)"
proof -
  have "map unref ((cl_frames inner)[idx := (cl_frames inner ! idx)\<lparr>fr_referenced := False\<rparr>]) = map unref (cl_frames inner)"
    using assms(1) by (metis list_update_id list_update_same_conv map_update nth_map unref_simps(5))
  then show ?thesis using assms by (auto simp: swept_def nth_list_update)
qed

lemma sweep_swept:
  assumes "sweep ad k inner = (r, inner')" and "clock_hand inner < length (cl_frames inner)"
  shows "swept inner inner' \<and> (\<forall>idx. r = Some idx \<longrightarrow> idx < length (cl_frames inner))"
  using assms
proof (induction k arbitrary: inner)
  case 0
  then show ?case by (simp add: swept_def)
next
  case (Suc k)
  let ?idx = "clock_hand inner"
  let ?in1 = "inner\<lparr>clock_hand := (clock_hand inner + 1) mod length (cl_frames inner)\<rparr>"
  let ?in2 = "?in1\<lparr>cl_frames := (cl_frames inner)[?idx := (cl_frames inner ! ?idx)\<lparr>fr_referenced := False\<rparr>]\<rparr>"
  note s1 = swept_hand [OF Suc.prems(2)]
  then have h1: "clock_hand ?in1 < length (cl_frames ?in1)" by (simp add: swept_def)
  have s2: "swept ?in1 ?in2" using swept_unref [of ?idx ?in1] Suc.prems(2) h1 by simp
  have h2: "clock_hand ?in2 < length (cl_frames ?in2)" using s2 by (simp add: swept_def)
  have IH1: "swept ?in2 inner' \<and> (\<forall>idx. r = Some idx \<longrightarrow> idx < length (cl_frames inner))"
    if "fr_page_no (cl_frames inner ! ?idx) \<noteq> INVALID_PAGE_NO" "fr_referenced (cl_frames inner ! ?idx)" "sweep ad k ?in2 = (r, inner')"
    using Suc.IH [OF that(3) h2] by simp
  have IH2: "swept ?in1 inner' \<and> (\<forall>idx. r = Some idx \<longrightarrow> idx < length (cl_frames inner))"
    if "fr_page_no (cl_frames inner ! ?idx) \<noteq> INVALID_PAGE_NO" "\<not> fr_referenced (cl_frames inner ! ?idx)"
      "fr_dirty (cl_frames inner ! ?idx) \<and> \<not> ad" "sweep ad k ?in1 = (r, inner')"
    using Suc.IH [OF that(4) h1] by simp
  show ?case
    using Suc.prems IH1 IH2 s1 swept_trans [OF s1 s2] by (auto simp: Let_def split: if_splits intro: swept_trans)
qed

text \<open>A revolution that finds no victim has seen and cleared every frame.\<close>

lemma sweep_None:
  assumes "sweep ad k inner = (None, inner')" and "clock_hand inner < length (cl_frames inner)" and "j < k"
  shows "\<not> fr_referenced (cl_frames inner' ! ((clock_hand inner + j) mod length (cl_frames inner)))"
  using assms
proof (induction k arbitrary: inner j)
  case (Suc k)
  let ?n = "length (cl_frames inner)" and ?idx = "clock_hand inner"
  let ?in1 = "inner\<lparr>clock_hand := (clock_hand inner + 1) mod ?n\<rparr>"
  let ?in2 = "?in1\<lparr>cl_frames := (cl_frames inner)[?idx := (cl_frames inner ! ?idx)\<lparr>fr_referenced := False\<rparr>]\<rparr>"
  have h: "(clock_hand inner + 1) mod ?n < ?n" using Suc.prems(2) by (intro mod_less_divisor) auto
  have step: "((clock_hand inner + 1) mod ?n + (j - 1)) mod ?n = (clock_hand inner + j) mod ?n" if "0 < j"
  proof -
    have "((clock_hand inner + 1) mod ?n + (j - 1)) mod ?n = (clock_hand inner + 1 + (j - 1)) mod ?n" by (rule mod_add_left_eq)
    then show ?thesis using that by simp
  qed
  have fin: "\<not> fr_referenced (cl_frames inner' ! ?idx)"
    if "sweep ad k mid = (None, inner')" "length (cl_frames mid) = ?n" "clock_hand mid < ?n" "\<not> fr_referenced (cl_frames mid ! ?idx)" for mid
    using sweep_swept [OF that(1)] that Suc.prems(2) by (auto simp: swept_def)
  consider "fr_referenced (cl_frames inner ! ?idx)" "fr_page_no (cl_frames inner ! ?idx) \<noteq> INVALID_PAGE_NO" "sweep ad k ?in2 = (None, inner')"
    | "\<not> fr_referenced (cl_frames inner ! ?idx)" "fr_page_no (cl_frames inner ! ?idx) \<noteq> INVALID_PAGE_NO"
      "fr_dirty (cl_frames inner ! ?idx) \<and> \<not> ad" "sweep ad k ?in1 = (None, inner')"
    using Suc.prems(1) by (auto simp: Let_def split: if_splits)
  then show ?case
  proof cases
    case 1
    have "\<not> fr_referenced (cl_frames inner' ! ((clock_hand inner + j) mod ?n))" if "0 < j"
      using Suc.IH [OF 1(3), of "j - 1"] h Suc.prems(3) that step by (simp del: One_nat_def)
    moreover have "\<not> fr_referenced (cl_frames inner' ! ?idx)" using fin [OF 1(3)] h Suc.prems(2) by simp
    ultimately show ?thesis using Suc.prems(2) by (cases "j = 0") auto
  next
    case 2
    have "\<not> fr_referenced (cl_frames inner' ! ((clock_hand inner + j) mod ?n))" if "0 < j"
      using Suc.IH [OF 2(4), of "j - 1"] h Suc.prems(3) that step by (simp del: One_nat_def)
    moreover have "\<not> fr_referenced (cl_frames inner' ! ?idx)" using fin [OF 2(4)] h 2 by simp
    ultimately show ?thesis using Suc.prems(2) by (cases "j = 0") auto
  qed
qed simp

text \<open>The search returns a frame after at most two revolutions.\<close>

lemma find_victim_returns:
  assumes hand: "clock_hand inner < length (cl_frames inner)"
  obtains idx inner' where "find_victim inner = Some (idx, inner')" and "idx < length (cl_frames inner)" and "swept inner inner'"
proof -
  let ?n = "length (cl_frames inner)"
  obtain r in1 where s1: "sweep False ?n inner = (r, in1)" by fastforce
  note w1 = sweep_swept [OF s1 hand]
  have n1: "length (cl_frames in1) = ?n" using w1 swept_length by blast
  have h1: "clock_hand in1 < length (cl_frames in1)" using w1 by (simp add: swept_def)
  show thesis
  proof (cases r)
    case (Some idx)
    then show thesis using that [of idx in1] s1 w1 by (simp add: find_victim_def find_victim_loop.simps)
  next
    case None
    obtain r2 in2 where s2: "sweep True ?n in1 = (r2, in2)" by fastforce
    note w2 = sweep_swept [OF s2 h1]
    have "clock_hand in1 = (clock_hand inner + (clock_hand in1 + ?n - clock_hand inner)) mod ?n" using h1 n1 hand by simp
    moreover have "(clock_hand in1 + ?n - clock_hand inner) mod ?n < ?n" using hand by (intro mod_less_divisor) auto
    ultimately have "\<not> fr_referenced (cl_frames in1 ! clock_hand in1)"
      using sweep_None [OF s1 [unfolded None] hand, of "(clock_hand in1 + ?n - clock_hand inner) mod ?n"] by (simp add: mod_add_right_eq)
    then have "r2 \<noteq> None" using s2 hand by (cases ?n) (auto simp: Let_def split: if_splits)
    then obtain idx where "r2 = Some idx" by blast
    then have "find_victim inner = Some (idx, in2)"
      using s1 s2 None n1 by (simp add: find_victim_def find_victim_loop.simps [of False] find_victim_loop.simps [of True in1])
    then show thesis using that [of idx in2] w1 w2 n1 \<open>r2 = Some idx\<close> by (auto intro: swept_trans)
  qed
qed

section \<open>Cache invariant and abstraction\<close>

text \<open>\<open>Q pn i x\<close> constrains the byte \<open>x\<close> at place \<open>i\<close> of page \<open>pn\<close>, in every copy there is of it.\<close>

type_synonym byte_pred = "u64 \<Rightarrow> nat \<Rightarrow> u8 \<Rightarrow> bool"

definition frame_ok :: "byte_pred \<Rightarrow> ClogSegmentStore \<Rightarrow> ClogFrame \<Rightarrow> bool" where
  "frame_ok Q st fr \<longleftrightarrow>
     length (fr_data fr) = 8192 \<and> (fr_page_no fr \<noteq> INVALID_PAGE_NO \<longrightarrow> (\<forall>i < 8192. Q (fr_page_no fr) i (fr_data fr ! i))) \<and> (fr_dirty fr \<longrightarrow> fr_page_no fr \<noteq> INVALID_PAGE_NO) \<and>
     (fr_page_no fr \<noteq> INVALID_PAGE_NO \<and> \<not> fr_dirty fr \<longrightarrow> (\<forall>i < 8192. fr_data fr ! i = disk_byte st (fr_page_no fr) i))"

definition table_ok :: "ClogFrame list \<Rightarrow> (u64 \<rightharpoonup> nat) \<Rightarrow> bool" where
  "table_ok frs table \<longleftrightarrow>
     (\<forall>pn idx. table pn = Some idx \<longleftrightarrow> idx < length frs \<and> fr_page_no (frs ! idx) = pn \<and> pn \<noteq> INVALID_PAGE_NO)"

definition dirty_pages :: "ClogFrame list \<Rightarrow> u64 set" where
  "dirty_pages frs = fr_page_no ` {fr \<in> set frs. fr_dirty fr}"

definition clog_ok :: "byte_pred \<Rightarrow> ClogBuffer \<Rightarrow> bool" where
  "clog_ok Q b \<longleftrightarrow>
     store_inv (cl_store b) \<and>
     clock_hand (cl_inner b) < length (cl_frames (cl_inner b)) \<and>
     (\<forall>fr \<in> set (cl_frames (cl_inner b)). frame_ok Q (cl_store b) fr) \<and>
     table_ok (cl_frames (cl_inner b)) (hm_get (page_table (cl_inner b))) \<and>
     (\<forall>pn i. i < 8192 \<longrightarrow> Q pn i (disk_byte (cl_store b) pn i) \<and> Q pn i (durable_byte (cl_store b) pn i)) \<and>
     durable_except (dirty_pages (cl_frames (cl_inner b))) (cl_store b)"

text \<open>The current contents of a page: the cached copy when there is one.\<close>

definition page_byte :: "ClogBuffer \<Rightarrow> u64 \<Rightarrow> nat \<Rightarrow> u8" where
  "page_byte b pn i =
     (case hm_get (page_table (cl_inner b)) pn of
        Some idx \<Rightarrow> fr_data (cl_frames (cl_inner b) ! idx) ! i
      | None \<Rightarrow> disk_byte (cl_store b) pn i)"

definition same_view :: "ClogBuffer \<Rightarrow> ClogBuffer \<Rightarrow> bool" where
  "same_view b b' \<longleftrightarrow> (\<forall>pn i. i < 8192 \<longrightarrow> page_byte b' pn i = page_byte b pn i)"

text \<open>What the log says of an XID.\<close>

definition clog_view :: "ClogBuffer \<Rightarrow> TxnId \<Rightarrow> TxnState" where
  "clog_view b xid =
     (if xid = TxnId_INVALID then InProgress
      else case txn_state_from_nibble (get_nibble (page_byte b (page_no_of_xid xid) (byte_in_page_of_xid xid)) xid) of
             Ok st \<Rightarrow> st | _ \<Rightarrow> InProgress)"

lemma same_view_clog_view: "same_view b b' \<Longrightarrow> clog_view b' = clog_view b"
  by (simp add: fun_eq_iff clog_view_def same_view_def byte_in_page)

lemma swept_nth:
  assumes "swept a b" and "i < length (cl_frames a)"
  shows "unref (cl_frames b ! i) = unref (cl_frames a ! i)"
  using assms swept_length [OF assms(1)] unfolding swept_def by (metis nth_map)

lemma unref_eq:
  assumes "unref fr = unref fr'"
  shows "fr_page_no fr = fr_page_no fr'" "fr_data fr = fr_data fr'" "fr_dirty fr = fr_dirty fr'"
  using assms by (metis unref_simps(1), metis unref_simps(2), metis unref_simps(3))

lemma clog_ok_unref:
  assumes ok: "clog_ok Q b" and frs: "map unref frs = map unref (cl_frames (cl_inner b))" and h: "h < length frs"
    and b': "cl_store b' = cl_store b" "cl_inner b' = \<lparr>cl_frames = frs, page_table = page_table (cl_inner b), clock_hand = h\<rparr>"
  shows "clog_ok Q b'" and "same_view b b'"
proof -
  let ?fs = "cl_frames (cl_inner b)"
  have len: "length frs = length ?fs" using frs by (metis length_map)
  have eq: "unref (frs ! i) = unref (?fs ! i)" if "i < length ?fs" for i using frs len that by (metis nth_map)
  have tab: "table_ok frs t = table_ok ?fs t" for t
    unfolding table_ok_def len using unref_eq(1) [OF eq] by (metis (no_types, lifting))
  have fok: "frame_ok Q st (unref fr) = frame_ok Q st fr" for st fr by (simp add: frame_ok_def)
  have dp: "dirty_pages l = dirty_pages (map unref l)" for l by (force simp: dirty_pages_def image_iff)
  have "\<forall>fr \<in> set frs. frame_ok Q (cl_store b) fr"
  proof
    fix fr assume "fr \<in> set frs"
    then have "unref fr \<in> unref ` set ?fs" using frs by (metis image_eqI set_map)
    then show "frame_ok Q (cl_store b) fr" using ok fok unfolding clog_ok_def by (metis imageE)
  qed
  then show "clog_ok Q b'"
    using ok b' h tab dp [of frs] dp [of ?fs] frs by (simp add: clog_ok_def)
  show "same_view b b'"
    unfolding same_view_def page_byte_def
  proof (intro allI impI)
    fix pn i
    show "(case hm_get (page_table (cl_inner b')) pn of None \<Rightarrow> disk_byte (cl_store b') pn i | Some idx \<Rightarrow> fr_data (cl_frames (cl_inner b') ! idx) ! i) =
      (case hm_get (page_table (cl_inner b)) pn of None \<Rightarrow> disk_byte (cl_store b) pn i | Some idx \<Rightarrow> fr_data (?fs ! idx) ! i)"
    proof (cases "hm_get (page_table (cl_inner b)) pn")
      case (Some idx)
      then have "idx < length ?fs" using ok by (simp add: clog_ok_def table_ok_def)
      then show ?thesis using unref_eq(2) [OF eq] Some b' by simp
    qed (simp add: b')
  qed
qed

lemma clog_ok_swept:
  assumes "clog_ok Q b" and "swept (cl_inner b) inner'"
  shows "clog_ok Q (b\<lparr>cl_misses := m, cl_inner := inner'\<rparr>)" and "same_view b (b\<lparr>cl_misses := m, cl_inner := inner'\<rparr>)"
proof -
  have "inner' = \<lparr>cl_frames = cl_frames inner', page_table = page_table (cl_inner b), clock_hand = clock_hand inner'\<rparr>"
    using assms(2) by (simp add: swept_def)
  then show "clog_ok Q (b\<lparr>cl_misses := m, cl_inner := inner'\<rparr>)" "same_view b (b\<lparr>cl_misses := m, cl_inner := inner'\<rparr>)"
    using clog_ok_unref [OF assms(1), of "cl_frames inner'" "clock_hand inner'" "b\<lparr>cl_misses := m, cl_inner := inner'\<rparr>"] assms(2)
    by (auto simp: swept_def)
qed

lemma clog_ok_hit:
  assumes ok: "clog_ok Q b" and hit: "hm_get (page_table (cl_inner b)) pn = Some idx"
  defines "b' \<equiv> set_frame idx ((cl_frames (cl_inner b) ! idx)\<lparr>fr_referenced := True\<rparr>) (b\<lparr>cl_hits := cl_hits b + 1\<rparr>)"
  shows "clog_ok Q b'" and "same_view b b'" and "hm_get (page_table (cl_inner b')) pn = Some idx"
proof -
  have i: "idx < length (cl_frames (cl_inner b))" using ok hit by (simp add: clog_ok_def table_ok_def)
  have "map unref ((cl_frames (cl_inner b))[idx := (cl_frames (cl_inner b) ! idx)\<lparr>fr_referenced := True\<rparr>]) = map unref (cl_frames (cl_inner b))"
    using i by (metis list_update_id list_update_same_conv map_update nth_map unref_simps(5))
  then show "clog_ok Q b'" "same_view b b'"
    using clog_ok_unref [OF ok, of "cl_frames (cl_inner b')" "clock_hand (cl_inner b)" b'] ok
    by (auto simp: b'_def set_frame_def clog_ok_def)
  show "hm_get (page_table (cl_inner b')) pn = Some idx" using hit by (simp add: b'_def set_frame_def)
qed

lemma table_ok_unique:
  assumes "table_ok frs t" and "i < length frs" and "j < length frs" and "fr_page_no (frs ! i) = fr_page_no (frs ! j)"
    and "fr_page_no (frs ! i) \<noteq> INVALID_PAGE_NO"
  shows "i = j"
  using assms unfolding table_ok_def by (metis option.inject)

lemma table_ok_resident:
  "table_ok frs t \<Longrightarrow> v < length frs \<Longrightarrow> fr_page_no (frs ! v) \<noteq> INVALID_PAGE_NO \<Longrightarrow> t (fr_page_no (frs ! v)) = Some v"
  by (simp add: table_ok_def)

lemma table_ok_lookup:
  "table_ok frs t \<Longrightarrow> t q = Some i \<Longrightarrow> i < length frs \<and> fr_page_no (frs ! i) = q \<and> q \<noteq> INVALID_PAGE_NO"
  by (simp add: table_ok_def)

text \<open>Evicting the victim: its page is current on disk, the rest of the cache is untouched.\<close>

definition evicted :: "ClogBuffer \<Rightarrow> nat \<Rightarrow> ClogBuffer \<Rightarrow> bool" where
  "evicted b v b' \<longleftrightarrow>
     (let fr = cl_frames (cl_inner b) ! v; pv = fr_page_no fr in
      store_inv (cl_store b') \<and> cl_frames (cl_inner b') = cl_frames (cl_inner b) \<and>
      clock_hand (cl_inner b') = clock_hand (cl_inner b) \<and>
      (\<forall>q. hm_get (page_table (cl_inner b')) q = (if q = pv then None else hm_get (page_table (cl_inner b)) q)) \<and>
      (\<forall>q i. i < 8192 \<longrightarrow> disk_byte (cl_store b') q i =
         (if q = pv \<and> pv \<noteq> INVALID_PAGE_NO then fr_data fr ! i else disk_byte (cl_store b) q i)) \<and>
      durable_byte (cl_store b') = durable_byte (cl_store b) \<and>
      durable_except (dirty_pages ((cl_frames (cl_inner b))[v := fr\<lparr>fr_dirty := False\<rparr>])) (cl_store b'))"

lemma dirty_pages_update:
  assumes "v < length frs"
  shows "dirty_pages frs \<subseteq> insert (fr_page_no (frs ! v)) (dirty_pages (frs[v := (frs ! v)\<lparr>fr_dirty := False\<rparr>]))"
    and "\<not> fr_dirty (frs ! v) \<Longrightarrow> dirty_pages (frs[v := (frs ! v)\<lparr>fr_dirty := False\<rparr>]) = dirty_pages frs"
proof -
  show "dirty_pages frs \<subseteq> insert (fr_page_no (frs ! v)) (dirty_pages (frs[v := (frs ! v)\<lparr>fr_dirty := False\<rparr>]))"
  proof
    fix p assume "p \<in> dirty_pages frs"
    then obtain i where i: "i < length frs" "fr_dirty (frs ! i)" "p = fr_page_no (frs ! i)"
      by (auto simp: dirty_pages_def in_set_conv_nth)
    show "p \<in> insert (fr_page_no (frs ! v)) (dirty_pages (frs[v := (frs ! v)\<lparr>fr_dirty := False\<rparr>]))"
    proof (cases "i = v")
      case False
      then have "frs ! i \<in> set (frs[v := (frs ! v)\<lparr>fr_dirty := False\<rparr>])" using i by (metis length_list_update nth_list_update_neq nth_mem)
      then show ?thesis using i by (auto simp: dirty_pages_def)
    qed (simp add: i)
  qed
  assume "\<not> fr_dirty (frs ! v)"
  then have "(frs ! v)\<lparr>fr_dirty := False\<rparr> = frs ! v" by simp
  then show "dirty_pages (frs[v := (frs ! v)\<lparr>fr_dirty := False\<rparr>]) = dirty_pages frs" by simp
qed

lemma write_page_durable:
  assumes w: "write_page io (fr_page_no (frs ! v)) (fr_data (frs ! v)) st = (Ok (), st')" and inv: "store_inv st"
    and len: "length (fr_data (frs ! v)) = 8192" and d: "durable_except (dirty_pages frs) st" and v: "v < length frs"
  shows "durable_except (dirty_pages (frs[v := (frs ! v)\<lparr>fr_dirty := False\<rparr>])) st'"
proof -
  note wi = write_page_inv(5) [OF w inv len refl]
  show ?thesis
    unfolding durable_except_def
  proof (intro allI impI)
    fix pn i
    assume i: "i < (8192 :: nat)" and pn: "pn \<notin> dirty_pages (frs[v := (frs ! v)\<lparr>fr_dirty := False\<rparr>])"
      and seg: "segment_id_of_page pn \<notin> set (unsynced_segments st')"
    then have ne: "pn \<noteq> fr_page_no (frs ! v)" using wi by auto
    then have "pn \<notin> dirty_pages frs" using pn dirty_pages_update(1) [OF v] by auto
    then show "disk_byte st' pn i = durable_byte st' pn i"
      using d i ne seg wi by (auto simp: durable_except_def wrote_def)
  qed
qed

lemma evict_inv:
  assumes e: "evict io v b = (Ok (), b')" and ok: "clog_ok Q b" and v: "v < length (cl_frames (cl_inner b))"
  shows "evicted b v b'"
proof -
  let ?fr = "cl_frames (cl_inner b) ! v" and ?st = "cl_store b"
  let ?frs = "cl_frames (cl_inner b)"
  have fr: "frame_ok Q ?st ?fr" and inv: "store_inv ?st" and d: "durable_except (dirty_pages ?frs) ?st"
    and tab: "table_ok ?frs (hm_get (page_table (cl_inner b)))"
    using ok v by (auto simp: clog_ok_def)
  have len: "length (fr_data ?fr) = 8192" using fr by (simp add: frame_ok_def)
  consider (unused) "fr_page_no ?fr = INVALID_PAGE_NO" "b' = b"
    | (clean) "fr_page_no ?fr \<noteq> INVALID_PAGE_NO" "\<not> fr_dirty ?fr"
        "b' = b\<lparr>cl_inner := (cl_inner b)\<lparr>page_table := hm_remove (fr_page_no ?fr) (page_table (cl_inner b))\<rparr>\<rparr>"
    | (dirty) st where "fr_page_no ?fr \<noteq> INVALID_PAGE_NO" "fr_dirty ?fr" "write_page io (fr_page_no ?fr) (fr_data ?fr) ?st = (Ok (), st)"
        "b' = b\<lparr>cl_store := st, cl_inner := (cl_inner b)\<lparr>page_table := hm_remove (fr_page_no ?fr) (page_table (cl_inner b))\<rparr>\<rparr>"
    using e by (auto simp: evict_def Let_def sbind_def with_store_def sret_def split: if_splits prod.splits outcome.splits)
  then show ?thesis
  proof cases
    case unused
    have "hm_get (page_table (cl_inner b)) INVALID_PAGE_NO = None"
      using tab by (cases "hm_get (page_table (cl_inner b)) INVALID_PAGE_NO") (auto simp: table_ok_def)
    moreover have "durable_except (dirty_pages (?frs[v := ?fr\<lparr>fr_dirty := False\<rparr>])) ?st"
      using dirty_pages_update(2) [OF v] d fr unused by (simp add: frame_ok_def)
    ultimately show ?thesis using unused inv by (auto simp: evicted_def Let_def)
  next
    case clean
    then show ?thesis
      using inv d fr dirty_pages_update(2) [OF v] by (auto simp: evicted_def Let_def hmap_simps frame_ok_def)
  next
    case (dirty st)
    note wi = write_page_inv [OF dirty(3) inv len]
    show ?thesis
      using dirty wi(1) wi(5) [OF refl] write_page_durable [OF dirty(3) inv len d v] len
      by (auto simp: evicted_def Let_def hmap_simps wrote_def)
  qed
qed

text \<open>Installing the page read from disk in the evicted frame.\<close>

lemma table_ok_install:
  assumes tab: "table_ok frs t" and v: "v < length frs" and miss: "t pn = None" and pn: "pn \<noteq> INVALID_PAGE_NO"
    and new: "fr_page_no fr = pn" and t': "\<And>q. t' q = (if q = pn then Some v else if q = fr_page_no (frs ! v) then None else t q)"
  shows "table_ok (frs[v := fr]) t'"
  unfolding table_ok_def
proof (intro allI)
  fix q idx
  have *: "t q = Some idx \<longleftrightarrow> idx < length frs \<and> fr_page_no (frs ! idx) = q \<and> q \<noteq> INVALID_PAGE_NO"
    using tab by (simp add: table_ok_def)
  have u: "idx = v" if "idx < length frs" "fr_page_no (frs ! idx) = fr_page_no (frs ! v)" "fr_page_no (frs ! idx) \<noteq> INVALID_PAGE_NO"
    using table_ok_unique [OF tab that(1) v that(2,3)] .
  show "t' q = Some idx \<longleftrightarrow> idx < length (frs[v := fr]) \<and> fr_page_no (frs[v := fr] ! idx) = q \<and> q \<noteq> INVALID_PAGE_NO"
  proof (cases "idx = v")
    case True
    then show ?thesis using v pn new t' [of q] * by auto
  next
    case False
    then show ?thesis using miss pn t' [of q] * u by (auto simp: nth_list_update)
  qed
qed

lemma dirty_pages_install:
  assumes "v < length frs" and "\<not> fr_dirty fr"
  shows "dirty_pages (frs[v := fr]) = dirty_pages (frs[v := (frs ! v)\<lparr>fr_dirty := False\<rparr>])"
proof -
  have "p \<in> dirty_pages (frs[v := y]) \<longleftrightarrow> (\<exists>i < length frs. i \<noteq> v \<and> fr_dirty (frs ! i) \<and> fr_page_no (frs ! i) = p)"
    if "\<not> fr_dirty y" for y p
  proof -
    have "p \<in> dirty_pages (frs[v := y]) \<longleftrightarrow> (\<exists>i < length frs. fr_dirty (frs[v := y] ! i) \<and> fr_page_no (frs[v := y] ! i) = p)"
      by (auto simp: dirty_pages_def in_set_conv_nth image_iff)
    also have "\<dots> \<longleftrightarrow> (\<exists>i < length frs. i \<noteq> v \<and> fr_dirty (frs ! i) \<and> fr_page_no (frs ! i) = p)"
    proof -
      have "(fr_dirty (frs[v := y] ! i) \<and> fr_page_no (frs[v := y] ! i) = p) \<longleftrightarrow> (i \<noteq> v \<and> fr_dirty (frs ! i) \<and> fr_page_no (frs ! i) = p)"
        if "i < length frs" for i
        using that \<open>\<not> fr_dirty y\<close> by (cases "i = v") simp_all
      then show ?thesis by blast
    qed
    finally show ?thesis .
  qed
  then show ?thesis using assms(2) by (simp add: set_eq_iff)
qed

lemma install_inv:
  assumes ok: "clog_ok Q b" and v: "v < length (cl_frames (cl_inner b))" and ev: "evicted b v b1"
    and st2: "store_inv st2" "same_pages (cl_store b1) st2"
    and miss: "hm_get (page_table (cl_inner b)) pn = None" and pn: "pn \<noteq> INVALID_PAGE_NO"
    and ins: "install v pn (map (disk_byte (cl_store b1) pn) [0..<8192]) (b1\<lparr>cl_store := st2\<rparr>) = (r, b')"
  shows "r = Ok v" and "clog_ok Q b'" and "same_view b b'" and "hm_get (page_table (cl_inner b')) pn = Some v"
proof -
  let ?frs = "cl_frames (cl_inner b)" and ?t = "hm_get (page_table (cl_inner b))"
  let ?new = "\<lparr>fr_page_no = pn, fr_data = map (disk_byte (cl_store b1) pn) [0..<8192], fr_dirty = False, fr_referenced = True\<rparr>"
  let ?pv = "fr_page_no (?frs ! v)"
  note e = ev [unfolded evicted_def Let_def]
  have frs: "cl_frames (cl_inner b') = ?frs[v := ?new]" and store: "cl_store b' = st2" and
    hand: "clock_hand (cl_inner b') = clock_hand (cl_inner b)" and r: "r = Ok v" and
    t': "\<And>q. hm_get (page_table (cl_inner b')) q = (if q = pn then Some v else if q = ?pv then None else ?t q)"
    using ins e by (auto simp: install_def Let_def set_frame_def hmap_simps)
  show "r = Ok v" by (rule r)
  show "hm_get (page_table (cl_inner b')) pn = Some v" using t' by simp
  have tab: "table_ok ?frs ?t" and fok: "\<forall>fr \<in> set ?frs. frame_ok Q (cl_store b) fr"
    and nib: "\<forall>q i. i < 8192 \<longrightarrow> Q q i (disk_byte (cl_store b) q i) \<and> Q q i (durable_byte (cl_store b) q i)" using ok by (auto simp: clog_ok_def)
  note same = same_pages_bytes [OF st2(2)]
  have disk: "disk_byte st2 q i = (if q = ?pv \<and> ?pv \<noteq> INVALID_PAGE_NO then fr_data (?frs ! v) ! i else disk_byte (cl_store b) q i)"
    if "i < 8192" for q i using e that same by simp
  have fv: "frame_ok Q (cl_store b) (?frs ! v)" using fok v by simp
  have nib2: "Q q i (disk_byte st2 q i)" if "i < 8192" for q i
    using disk [OF that, of q] nib fv that by (auto simp: frame_ok_def)
  have nib3: "Q q i (durable_byte st2 q i)" if "i < 8192" for q i
    using e same nib that by simp
  have frame: "frame_ok Q st2 (?frs[v := ?new] ! i)" if i: "i < length ?frs" for i
  proof (cases "i = v")
    case True
    then show ?thesis using v nib2 pn same by (auto simp: frame_ok_def)
  next
    case False
    have "frame_ok Q (cl_store b) (?frs ! i)" using fok i by simp
    moreover have "fr_page_no (?frs ! i) \<noteq> ?pv" if "fr_page_no (?frs ! i) \<noteq> INVALID_PAGE_NO"
      using table_ok_unique [OF tab i v] that False by auto
    ultimately show ?thesis using False disk by (auto simp: frame_ok_def)
  qed
  have dur: "durable_except (dirty_pages (?frs[v := ?new])) st2"
  proof -
    have "unsynced_segments st2 = unsynced_segments (cl_store b1)" using st2(2) by (simp add: same_pages_def)
    moreover have "durable_except (dirty_pages (?frs[v := ?new])) (cl_store b1)"
      using e dirty_pages_install [OF v, of ?new] by simp
    ultimately show ?thesis unfolding durable_except_def same by simp
  qed
  show "clog_ok Q b'"
    unfolding clog_ok_def frs store hand
    using st2(1) ok frame nib2 nib3 dur table_ok_install [OF tab v miss pn _ t', of ?new]
    by (auto simp: clog_ok_def in_set_conv_nth)
  show "same_view b b'"
    unfolding same_view_def
  proof (intro allI impI)
    fix q i assume i: "i < (8192 :: nat)"
    show "page_byte b' q i = page_byte b q i"
    proof (cases "?t q")
      case None
      have "\<not> (q = ?pv \<and> ?pv \<noteq> INVALID_PAGE_NO)" using None table_ok_resident [OF tab v] by (cases "?pv = INVALID_PAGE_NO") auto
      then have "disk_byte st2 q i = disk_byte (cl_store b) q i" unfolding disk [OF i] by (rule if_not_P)
      moreover have "page_byte b' q i = disk_byte st2 q i"
        using None t' [of q] v i same by (cases "q = pn") (simp_all add: page_byte_def frs store)
      ultimately show ?thesis using None by (simp add: page_byte_def)
    next
      case (Some idx)
      note idx = table_ok_lookup [OF tab Some]
      have q: "q \<noteq> pn" using Some miss by auto
      have b: "page_byte b q i = fr_data (?frs ! idx) ! i" using Some by (simp add: page_byte_def)
      show ?thesis
      proof (cases "q = ?pv")
        case True
        have "idx = v"
        proof (rule table_ok_unique [OF tab _ v])
          show "fr_page_no (?frs ! idx) = ?pv" unfolding True [symmetric] by (rule conjunct1 [OF conjunct2 [OF idx]])
        qed (use idx in auto)
        moreover have "disk_byte st2 q i = fr_data (?frs ! v) ! i"
          unfolding disk [OF i] using True idx by (intro if_P) simp
        moreover have "page_byte b' q i = disk_byte st2 q i"
          using t' [of q] q True unfolding page_byte_def store by simp
        ultimately show ?thesis using b by simp
      next
        case False
        then have "idx \<noteq> v" using idx by auto
        moreover have "hm_get (page_table (cl_inner b')) q = Some idx" using t' [of q] q False Some by simp
        ultimately show ?thesis using b unfolding page_byte_def [of b'] frs by simp
      qed
    qed
  qed
qed

section \<open>Locating a page\<close>

lemma with_store_Ok: "with_store m b = (Ok x, b') \<longleftrightarrow> (\<exists>st. m (cl_store b) = (Ok x, st) \<and> b' = b\<lparr>cl_store := st\<rparr>)"
  by (auto simp: with_store_def split: prod.splits)

lemma locate_frame_inv:
  assumes loc: "locate_frame io pn b = (Ok idx, b')" and ok: "clog_ok Q b" and pn: "pn \<noteq> INVALID_PAGE_NO"
  shows "clog_ok Q b'" and "same_view b b'" and "hm_get (page_table (cl_inner b')) pn = Some idx"
proof -
  have "clog_ok Q b' \<and> same_view b b' \<and> hm_get (page_table (cl_inner b')) pn = Some idx"
  proof (cases "hm_get (page_table (cl_inner b)) pn")
    case (Some i)
    then show ?thesis using loc clog_ok_hit [OF ok Some] by (auto simp: locate_frame_def)
  next
    case None
    let ?b0 = "b\<lparr>cl_misses := cl_misses b + 1\<rparr>"
    have "clock_hand (cl_inner b) < length (cl_frames (cl_inner b))" using ok by (simp add: clog_ok_def)
    then obtain v inner where fv: "find_victim (cl_inner b) = Some (v, inner)" "v < length (cl_frames (cl_inner b))" "swept (cl_inner b) inner"
      by (rule find_victim_returns)
    let ?b1 = "b\<lparr>cl_misses := cl_misses b + 1, cl_inner := inner\<rparr>"
    note s = clog_ok_swept [OF ok fv(3), of "cl_misses b + 1"]
    have v: "v < length (cl_frames (cl_inner ?b1))" using fv(2) swept_length [OF fv(3)] by simp
    have miss: "hm_get (page_table (cl_inner ?b1)) pn = None" using None fv(3) by (simp add: swept_def)
    have "sbind (evict io v) (\<lambda>_. sbind (with_store (read_page io pn)) (install v pn)) ?b1 = (Ok idx, b')"
      using loc None fv(1) by (simp add: locate_frame_def Let_def)
    then obtain b2 bs st2 where e: "evict io v ?b1 = (Ok (), b2)" and rd: "read_page io pn (cl_store b2) = (Ok bs, st2)"
      and ins: "install v pn bs (b2\<lparr>cl_store := st2\<rparr>) = (Ok idx, b')"
      by (auto simp: sbind_eq_Ok with_store_Ok)
    have ev: "evicted ?b1 v b2" by (rule evict_inv [OF e s(1) v])
    then have "store_inv (cl_store b2)" by (simp add: evicted_def Let_def)
    note ri = read_page_inv [OF rd this]
    note ii = install_inv [OF s(1) v ev ri(1,2) miss pn ins [unfolded ri(5) [OF refl]]]
    show ?thesis using ii s(2) by (auto simp: same_view_def)
  qed
  then show "clog_ok Q b'" "same_view b b'" "hm_get (page_table (cl_inner b')) pn = Some idx" by auto
qed

text \<open>Without I/O errors the page is always found.\<close>

lemma locate_frame_returns:
  assumes ok: "clog_ok Q b" and pn: "pn \<noteq> INVALID_PAGE_NO"
  shows "\<exists>idx b'. locate_frame (\<lambda>_. Done) pn b = (Ok idx, b')"
proof (cases "hm_get (page_table (cl_inner b)) pn")
  case None
  let ?io = "\<lambda>_. Done"
  have "clock_hand (cl_inner b) < length (cl_frames (cl_inner b))" using ok by (simp add: clog_ok_def)
  then obtain v inner where fv: "find_victim (cl_inner b) = Some (v, inner)" "v < length (cl_frames (cl_inner b))" "swept (cl_inner b) inner"
    by (rule find_victim_returns)
  let ?b1 = "b\<lparr>cl_misses := cl_misses b + 1, cl_inner := inner\<rparr>"
  note s = clog_ok_swept [OF ok fv(3), of "cl_misses b + 1"]
  have v: "v < length (cl_frames (cl_inner ?b1))" using fv(2) swept_length [OF fv(3)] by simp
  let ?fr = "cl_frames inner ! v"
  have "store_inv (cl_store b)" and len: "length (fr_data ?fr) = 8192" using s(1) v by (auto simp: clog_ok_def frame_ok_def)
  then obtain st where "write_page ?io (fr_page_no ?fr) (fr_data ?fr) (cl_store b) = (Ok (), st)"
    using write_page_inv(4) [of ?io "fr_page_no ?fr" "fr_data ?fr" "cl_store b"]
    by (cases "write_page ?io (fr_page_no ?fr) (fr_data ?fr) (cl_store b)") auto
  then have "\<exists>b2. evict ?io v ?b1 = (Ok (), b2)"
    by (simp add: evict_def Let_def sbind_def with_store_def sret_def)
  then obtain b2 where e: "evict ?io v ?b1 = (Ok (), b2)" by blast
  then have "store_inv (cl_store b2)" using evict_inv [OF e s(1) v] by (simp add: evicted_def Let_def)
  then obtain bs st2 where "read_page ?io pn (cl_store b2) = (Ok bs, st2)"
    using read_page_inv(4) [of ?io pn "cl_store b2"] by (cases "read_page ?io pn (cl_store b2)") auto
  then show ?thesis
    using None fv(1) e by (simp add: locate_frame_def Let_def sbind_def with_store_def install_def)
qed (simp add: locate_frame_def)

section \<open>Reading and recording states\<close>

lemma page_byte_resident:
  "hm_get (page_table (cl_inner b)) pn = Some idx \<Longrightarrow> page_byte b pn i = fr_data (cl_frames (cl_inner b) ! idx) ! i"
  by (simp add: page_byte_def)

lemma page_byte_Q:
  assumes ok: "clog_ok Q b" and i: "i < 8192"
  shows "Q pn i (page_byte b pn i)"
proof (cases "hm_get (page_table (cl_inner b)) pn")
  case None
  then show ?thesis using ok i by (simp add: page_byte_def clog_ok_def)
next
  case (Some idx)
  have tab: "table_ok (cl_frames (cl_inner b)) (hm_get (page_table (cl_inner b)))" using ok by (simp add: clog_ok_def)
  then have "idx < length (cl_frames (cl_inner b))" using table_ok_lookup Some by blast
  then have "frame_ok Q (cl_store b) (cl_frames (cl_inner b) ! idx)" using ok by (simp add: clog_ok_def)
  moreover have "fr_page_no (cl_frames (cl_inner b) ! idx) = pn \<and> pn \<noteq> INVALID_PAGE_NO"
    using table_ok_lookup [OF tab Some] by simp
  ultimately show ?thesis using Some i by (auto simp: page_byte_def frame_ok_def)
qed

lemma get_state_inv:
  assumes g: "clog_buffer_get_state io xid b = (Ok st, b')" and ok: "clog_ok Q b"
  shows "clog_ok Q b'" and "clog_view b' = clog_view b" and "st = clog_view b xid"
proof -
  have "clog_ok Q b' \<and> clog_view b' = clog_view b \<and> st = clog_view b xid"
  proof (cases "xid = TxnId_INVALID")
    case False
    then obtain idx where loc: "locate_frame io (page_no_of_xid xid) b = (Ok idx, b')"
      and st: "txn_state_from_nibble (get_nibble (fr_data (cl_frames (cl_inner b') ! idx) ! byte_in_page_of_xid xid) xid) = Ok st"
      using g by (auto simp: clog_buffer_get_state_def split: prod.splits outcome.splits)
    note li = locate_frame_inv [OF loc ok page_no_valid]
    have "st = clog_view b' xid" using st False page_byte_resident [OF li(3)] by (simp add: clog_view_def)
    then show ?thesis using li same_view_clog_view [OF li(2)] by simp
  qed (use g ok in \<open>auto simp: clog_buffer_get_state_def clog_view_def\<close>)
  then show "clog_ok Q b'" "clog_view b' = clog_view b" "st = clog_view b xid" by auto
qed

lemma durable_except_mono: "durable_except X st \<Longrightarrow> X \<subseteq> Y \<Longrightarrow> durable_except Y st"
  unfolding durable_except_def by blast

text \<open>Overwriting one byte of a resident page, which becomes dirty.\<close>

lemma set_byte_inv:
  assumes ok: "clog_ok Q b" and res: "hm_get (page_table (cl_inner b)) pn = Some idx" and i: "i < 8192" and nib: "Q pn i x"
  defines "fr \<equiv> cl_frames (cl_inner b) ! idx"
  defines "b' \<equiv> set_frame idx (fr\<lparr>fr_data := (fr_data fr)[i := x], fr_dirty := True\<rparr>) b"
  shows "clog_ok Q b'" and "j < 8192 \<Longrightarrow> page_byte b' q j = (if q = pn \<and> j = i then x else page_byte b q j)"
proof -
  let ?frs = "cl_frames (cl_inner b)" and ?fr' = "fr\<lparr>fr_data := (fr_data fr)[i := x], fr_dirty := True\<rparr>"
  have tab: "table_ok ?frs (hm_get (page_table (cl_inner b)))" using ok by (simp add: clog_ok_def)
  note idx = table_ok_lookup [OF tab res]
  have fr: "frame_ok Q (cl_store b) fr" using ok idx by (simp add: clog_ok_def fr_def)
  have b': "cl_frames (cl_inner b') = ?frs[idx := ?fr']" "cl_store b' = cl_store b"
      "page_table (cl_inner b') = page_table (cl_inner b)" "clock_hand (cl_inner b') = clock_hand (cl_inner b)"
    by (simp_all add: b'_def set_frame_def)
  have pages: "fr_page_no (?frs[idx := ?fr'] ! k) = fr_page_no (?frs ! k)" for k
    using idx by (cases "k = idx") (simp_all add: fr_def)
  have "frame_ok Q (cl_store b) ?fr'"
  proof -
    have "Q pn k ((fr_data fr)[i := x] ! k)" if "k < 8192" for k
      using fr nib idx that by (cases "k = i") (simp_all add: frame_ok_def fr_def)
    then show ?thesis using fr idx by (simp add: frame_ok_def fr_def)
  qed
  then have frames: "\<forall>f \<in> set (?frs[idx := ?fr']). frame_ok Q (cl_store b) f"
    using ok set_update_subset_insert [of ?frs idx ?fr'] by (auto simp: clog_ok_def)
  have "dirty_pages ?frs \<subseteq> dirty_pages (?frs[idx := ?fr'])"
  proof
    fix p assume "p \<in> dirty_pages ?frs"
    then obtain k where k: "k < length ?frs" "fr_dirty (?frs ! k)" "p = fr_page_no (?frs ! k)"
      by (auto simp: dirty_pages_def in_set_conv_nth)
    have "?frs[idx := ?fr'] ! k \<in> set (?frs[idx := ?fr'])" using k by (intro nth_mem) simp
    moreover have "fr_dirty (?frs[idx := ?fr'] ! k)" using k by (cases "k = idx") simp_all
    ultimately have "fr_page_no (?frs[idx := ?fr'] ! k) \<in> dirty_pages (?frs[idx := ?fr'])"
      unfolding dirty_pages_def by (intro imageI) simp
    then show "p \<in> dirty_pages (?frs[idx := ?fr'])" unfolding pages k(3) .
  qed
  then have "durable_except (dirty_pages (?frs[idx := ?fr'])) (cl_store b)"
    using ok durable_except_mono unfolding clog_ok_def by blast
  then show "clog_ok Q b'"
    using ok frames tab pages unfolding clog_ok_def b' table_ok_def by simp
  assume j: "j < 8192"
  show "page_byte b' q j = (if q = pn \<and> j = i then x else page_byte b q j)"
  proof (cases "hm_get (page_table (cl_inner b)) q")
    case None
    then show ?thesis using res by (auto simp: page_byte_def b')
  next
    case (Some k)
    have "q = pn \<longleftrightarrow> k = idx"
    proof
      assume "k = idx"
      then show "q = pn" using conjunct1 [OF conjunct2 [OF table_ok_lookup [OF tab Some]]] conjunct1 [OF conjunct2 [OF idx]] by metis
    qed (use Some res in simp)
    moreover have "length (fr_data fr) = 8192" using fr by (simp add: frame_ok_def)
    moreover have "page_byte b' q j = fr_data (?frs[idx := ?fr'] ! k) ! j" "page_byte b q j = fr_data (?frs ! k) ! j"
      using Some by (simp_all add: page_byte_def b')
    ultimately show ?thesis
      using j i idx by (cases "k = idx") (simp_all add: fr_def nth_list_update)
  qed
qed

lemma set_state_inv:
  assumes s: "clog_buffer_set_state io xid st b = (Ok (), b')" and ok: "clog_ok Q b"
    and Q: "\<And>x. xid \<noteq> TxnId_INVALID \<Longrightarrow> Q (page_no_of_xid xid) (byte_in_page_of_xid xid) x \<Longrightarrow>
      Q (page_no_of_xid xid) (byte_in_page_of_xid xid) (set_nibble x xid (state_as_u8 st))"
  shows "clog_ok Q b'" and "clog_view b' = (if xid = TxnId_INVALID then clog_view b else (clog_view b)(xid := st))"
proof -
  have "clog_ok Q b' \<and> clog_view b' = (if xid = TxnId_INVALID then clog_view b else (clog_view b)(xid := st))"
  proof (cases "xid = TxnId_INVALID")
    case False
    let ?pn = "page_no_of_xid xid" and ?i = "byte_in_page_of_xid xid"
    obtain idx b1 where loc: "locate_frame io ?pn b = (Ok idx, b1)"
      and b': "b' = (let fr = cl_frames (cl_inner b1) ! idx in
        set_frame idx (fr\<lparr>fr_data := (fr_data fr)[?i := set_nibble (fr_data fr ! ?i) xid (state_as_u8 st)], fr_dirty := True\<rparr>) b1)"
      using s False by (auto simp: clog_buffer_set_state_def Let_def split: prod.splits outcome.splits)
    note li = locate_frame_inv [OF loc ok page_no_valid]
    let ?x = "set_nibble (page_byte b1 ?pn ?i) xid (state_as_u8 st)"
    note nib = Q [OF False page_byte_Q [OF li(1) byte_in_page(2) [of xid], where pn = ?pn]]
    have b'2: "b' = set_frame idx ((cl_frames (cl_inner b1) ! idx)\<lparr>fr_data := (fr_data (cl_frames (cl_inner b1) ! idx))[?i := ?x], fr_dirty := True\<rparr>) b1"
      using b' page_byte_resident [OF li(3)] by (simp add: Let_def)
    note sb = set_byte_inv [OF li(1) li(3) byte_in_page(2) [of xid] nib, folded b'2]
    have "clog_view b' y = (if y = xid then st else clog_view b1 y)" for y
    proof -
      have pb: "page_byte b' (page_no_of_xid y) (byte_in_page_of_xid y) =
          (if page_no_of_xid y = ?pn \<and> byte_in_page_of_xid y = ?i then ?x else page_byte b1 (page_no_of_xid y) (byte_in_page_of_xid y))"
        by (rule sb(2) [OF byte_in_page(2)])
      show ?thesis
      proof (cases "y = xid")
        case True
        then show ?thesis using pb False by (simp add: clog_view_def get_set_nibble_same)
      next
        case ne: False
        have "xid AND 1 \<noteq> y AND 1" if "page_no_of_xid y = ?pn" "byte_in_page_of_xid y = ?i"
          using xid_place_inj [OF that] ne by auto
        then have "get_nibble (page_byte b' (page_no_of_xid y) (byte_in_page_of_xid y)) y =
            get_nibble (page_byte b1 (page_no_of_xid y) (byte_in_page_of_xid y)) y"
          unfolding pb by (simp add: get_set_nibble_other)
        then show ?thesis using ne by (simp add: clog_view_def)
      qed
    qed
    then show ?thesis using sb(1) same_view_clog_view [OF li(2)] False by (auto simp: fun_eq_iff)
  qed (use s ok in \<open>auto simp: clog_buffer_set_state_def\<close>)
  then show "clog_ok Q b'" "clog_view b' = (if xid = TxnId_INVALID then clog_view b else (clog_view b)(xid := st))" by auto
qed

section \<open>Checkpoint flush\<close>

text \<open>A write of the page of a dirty frame, complete or not, leaves every other frame current.\<close>

lemma wrote_frame_ok:
  assumes ok: "clog_ok Q b" and i: "i < length (cl_frames (cl_inner b))"
    and dirty: "fr_dirty (cl_frames (cl_inner b) ! i)"
    and w: "wrote (fr_page_no (cl_frames (cl_inner b) ! i)) (take n (fr_data (cl_frames (cl_inner b) ! i))) (cl_store b) st'"
  shows "\<forall>fr \<in> set (cl_frames (cl_inner b)). frame_ok Q st' fr" and "k < 8192 \<Longrightarrow> Q q k (disk_byte st' q k)"
    and "same_view b (b\<lparr>cl_store := st'\<rparr>)"
proof -
  let ?frs = "cl_frames (cl_inner b)"
  let ?pv = "fr_page_no (?frs ! i)"
  have tab: "table_ok ?frs (hm_get (page_table (cl_inner b)))" and fi: "frame_ok Q (cl_store b) (?frs ! i)"
    using ok i by (simp_all add: clog_ok_def)
  have pv: "?pv \<noteq> INVALID_PAGE_NO" using fi dirty by (simp add: frame_ok_def)
  have other: "disk_byte st' q k = disk_byte (cl_store b) q k" if "k < 8192" "q \<noteq> ?pv" for q k
    using w that by (simp add: wrote_def)
  show "\<forall>fr \<in> set ?frs. frame_ok Q st' fr"
  proof
    fix fr assume fr: "fr \<in> set ?frs"
    then obtain j where j: "j < length ?frs" "fr = ?frs ! j" by (auto simp: in_set_conv_nth)
    have f: "frame_ok Q (cl_store b) fr" using ok fr by (simp add: clog_ok_def)
    show "frame_ok Q st' fr"
    proof (cases "fr_page_no fr \<noteq> INVALID_PAGE_NO \<and> \<not> fr_dirty fr")
      case True
      then have "fr_page_no fr \<noteq> ?pv" using table_ok_unique [OF tab j(1) i] j dirty by auto
      then show ?thesis using f other by (simp add: frame_ok_def)
    next
      case False
      then show ?thesis using f unfolding frame_ok_def by blast
    qed
  qed
  show "Q q k (disk_byte st' q k)" if k: "k < 8192" for q k
  proof (cases "q = ?pv \<and> k < length (take n (fr_data (?frs ! i)))")
    case True
    then have "disk_byte st' q k = fr_data (?frs ! i) ! k" using w k by (simp add: wrote_def)
    moreover have "k < length (fr_data (?frs ! i))" using True by simp
    ultimately show ?thesis using fi pv True k by (simp add: frame_ok_def)
  next
    case False
    have "disk_byte st' q k = (if q = ?pv \<and> k < length (take n (fr_data (?frs ! i))) then take n (fr_data (?frs ! i)) ! k else disk_byte (cl_store b) q k)"
      using w k unfolding wrote_def by blast
    also have "\<dots> = disk_byte (cl_store b) q k" using False by (rule if_not_P)
    finally show ?thesis using ok k by (simp add: clog_ok_def)
  qed
  show "same_view b (b\<lparr>cl_store := st'\<rparr>)"
    unfolding same_view_def
  proof (intro allI impI)
    fix q k assume k: "k < (8192 :: nat)"
    show "page_byte (b\<lparr>cl_store := st'\<rparr>) q k = page_byte b q k"
    proof (cases "hm_get (page_table (cl_inner b)) q")
      case None
      then have "q \<noteq> ?pv" using table_ok_resident [OF tab i pv] by auto
      then show ?thesis using other [OF k] None by (simp add: page_byte_def)
    qed (simp add: page_byte_def)
  qed
qed

lemma flush_frame_failed:
  assumes ok: "clog_ok Q b" and i: "i < length (cl_frames (cl_inner b))" and dirty: "fr_dirty (cl_frames (cl_inner b) ! i)"
    and w: "write_page io (fr_page_no (cl_frames (cl_inner b) ! i)) (fr_data (cl_frames (cl_inner b) ! i)) (cl_store b) = (r, st')"
    and r: "r \<noteq> Ok ()"
  shows "clog_ok Q (b\<lparr>cl_store := st'\<rparr>)" and "same_view b (b\<lparr>cl_store := st'\<rparr>)"
proof -
  let ?fr = "cl_frames (cl_inner b) ! i"
  have inv: "store_inv (cl_store b)" and len: "length (fr_data ?fr) = 8192" using ok i by (simp_all add: clog_ok_def frame_ok_def)
  note wi = write_page_inv [OF w inv len]
  obtain n where n: "wrote (fr_page_no ?fr) (take n (fr_data ?fr)) (cl_store b) st'" using wi(2) by blast
  note wf = wrote_frame_ok [OF ok i dirty n]
  have "fr_page_no ?fr \<in> dirty_pages (cl_frames (cl_inner b))" using i dirty by (auto simp: dirty_pages_def)
  then have "durable_except (dirty_pages (cl_frames (cl_inner b))) st'"
    using ok n wi(6) [OF r] unfolding clog_ok_def durable_except_def wrote_def by auto
  then show "clog_ok Q (b\<lparr>cl_store := st'\<rparr>)" using ok wi(1) wf(1,2) n by (simp add: clog_ok_def wrote_def)
  show "same_view b (b\<lparr>cl_store := st'\<rparr>)" by (rule wf(3))
qed

lemma flush_frame_done:
  assumes ok: "clog_ok Q b" and i: "i < length (cl_frames (cl_inner b))" and dirty: "fr_dirty (cl_frames (cl_inner b) ! i)"
    and w: "write_page io (fr_page_no (cl_frames (cl_inner b) ! i)) (fr_data (cl_frames (cl_inner b) ! i)) (cl_store b) = (Ok (), st')"
  defines "b' \<equiv> set_frame i ((cl_frames (cl_inner b) ! i)\<lparr>fr_dirty := False\<rparr>) (b\<lparr>cl_store := st'\<rparr>)"
  shows "clog_ok Q b'" and "same_view b b'"
proof -
  let ?frs = "cl_frames (cl_inner b)" and ?fr = "cl_frames (cl_inner b) ! i"
  have inv: "store_inv (cl_store b)" and fi: "frame_ok Q (cl_store b) ?fr"
    and tab: "table_ok ?frs (hm_get (page_table (cl_inner b)))" and d: "durable_except (dirty_pages ?frs) (cl_store b)"
    using ok i by (simp_all add: clog_ok_def)
  then have len: "length (fr_data ?fr) = 8192" by (simp add: frame_ok_def)
  note wi = write_page_inv [OF w inv len]
  have wr: "wrote (fr_page_no ?fr) (take 8192 (fr_data ?fr)) (cl_store b) st'" using wi(5) len by simp
  note wf = wrote_frame_ok [OF ok i dirty wr]
  have b': "cl_frames (cl_inner b') = ?frs[i := ?fr\<lparr>fr_dirty := False\<rparr>]" "cl_store b' = st'"
      "page_table (cl_inner b') = page_table (cl_inner b)" "clock_hand (cl_inner b') = clock_hand (cl_inner b)"
    by (simp_all add: b'_def set_frame_def)
  have pages: "fr_page_no (?frs[i := ?fr\<lparr>fr_dirty := False\<rparr>] ! k) = fr_page_no (?frs ! k)"
    "fr_data (?frs[i := ?fr\<lparr>fr_dirty := False\<rparr>] ! k) = fr_data (?frs ! k)" for k
    using i by (cases "k = i"; simp)+
  have "frame_ok Q st' (?fr\<lparr>fr_dirty := False\<rparr>)" using fi wr len by (simp add: frame_ok_def wrote_def)
  then have "\<forall>f \<in> set (?frs[i := ?fr\<lparr>fr_dirty := False\<rparr>]). frame_ok Q st' f"
    using wf(1) set_update_subset_insert [of ?frs i] by blast
  moreover have "table_ok (?frs[i := ?fr\<lparr>fr_dirty := False\<rparr>]) (hm_get (page_table (cl_inner b)))"
    using tab unfolding table_ok_def pages by simp
  ultimately show "clog_ok Q b'"
    using ok wi(1) wf(2) wr write_page_durable [OF w inv len d i] unfolding clog_ok_def b' by (simp add: wrote_def)
  have "page_byte b' = page_byte (b\<lparr>cl_store := st'\<rparr>)"
    by (simp add: fun_eq_iff page_byte_def b' pages split: option.split)
  then show "same_view b b'" using wf(3) by (simp add: same_view_def)
qed

text \<open>A flush keeps the invariant and the view on every path; when it succeeds no frame is dirty.\<close>

definition flush_post :: "byte_pred \<Rightarrow> (io_call \<Rightarrow> io_reply) \<Rightarrow> ClogBuffer \<Rightarrow> nat set \<Rightarrow> (unit, StorageError) outcome \<times> ClogBuffer \<Rightarrow> bool" where
  "flush_post Q io b I = (\<lambda>(r, b').
     clog_ok Q b' \<and> same_view b b' \<and> r \<noteq> Panic \<and> (io = (\<lambda>_. Done) \<longrightarrow> r = Ok ()) \<and>
     length (cl_frames (cl_inner b')) = length (cl_frames (cl_inner b)) \<and>
     (\<forall>i < length (cl_frames (cl_inner b)). fr_dirty (cl_frames (cl_inner b') ! i) \<longrightarrow> fr_dirty (cl_frames (cl_inner b) ! i) \<and> (r = Ok () \<longrightarrow> i \<notin> I)))"

lemma flush_frames_inv:
  assumes "clog_ok Q b" and "\<forall>i \<in> set js. i < length (cl_frames (cl_inner b))"
  shows "flush_post Q io b (set js) (flush_frames io js b)"
  using assms
proof (induction js arbitrary: b)
  case Nil
  then show ?case by (simp add: flush_post_def same_view_def)
next
  case (Cons i js)
  let ?fr = "cl_frames (cl_inner b) ! i"
  have i: "i < length (cl_frames (cl_inner b))" using Cons.prems(2) by simp
  have fi: "frame_ok Q (cl_store b) ?fr" using Cons.prems(1) i by (simp add: clog_ok_def)
  show ?case
  proof (cases "fr_dirty ?fr")
    case False
    have "flush_post Q io b (set js) (flush_frames io js b)" using Cons by simp
    then show ?thesis using False i by (auto simp: flush_post_def)
  next
    case True
    then have pv: "fr_page_no ?fr \<noteq> INVALID_PAGE_NO" using fi by (simp add: frame_ok_def)
    obtain r st where w: "write_page io (fr_page_no ?fr) (fr_data ?fr) (cl_store b) = (r, st)" by fastforce
    have inv: "store_inv (cl_store b)" and len: "length (fr_data ?fr) = 8192" using Cons.prems(1) fi by (simp_all add: clog_ok_def frame_ok_def)
    note wi = write_page_inv [OF w inv len]
    show ?thesis
    proof (cases "r = Ok ()")
      case r: True
      let ?b1 = "set_frame i (?fr\<lparr>fr_dirty := False\<rparr>) (b\<lparr>cl_store := st\<rparr>)"
      note fd = flush_frame_done [OF Cons.prems(1) i True w [unfolded r]]
      have frs: "cl_frames (cl_inner ?b1) = (cl_frames (cl_inner b))[i := ?fr\<lparr>fr_dirty := False\<rparr>]" by (simp add: set_frame_def)
      have "flush_post Q io ?b1 (set js) (flush_frames io js ?b1)" using Cons.IH [OF fd(1)] Cons.prems(2) by (simp add: frs)
      moreover have "flush_frames io (i # js) b = flush_frames io js ?b1"
        using True pv w r by (simp add: Let_def sbind_def with_store_def)
      ultimately show ?thesis
        using fd(2) i by (auto simp: flush_post_def same_view_def frs nth_list_update split: if_splits)
    next
      case r: False
      have eq: "flush_frames io (i # js) b = (r, b\<lparr>cl_store := st\<rparr>)"
        using True pv w r wi(3) by (cases r) (simp_all add: Let_def sbind_def with_store_def)
      show ?thesis
        unfolding eq using flush_frame_failed [OF Cons.prems(1) i True w r] r wi(3,4) by (auto simp: flush_post_def)
    qed
  qed
qed

text \<open>Every copy of every page is the current one, down to what is durable.\<close>

definition all_durable :: "ClogBuffer \<Rightarrow> bool" where
  "all_durable b \<longleftrightarrow> (\<forall>pn i. i < 8192 \<longrightarrow> durable_byte (cl_store b) pn i = page_byte b pn i \<and> disk_byte (cl_store b) pn i = page_byte b pn i)"

lemma all_durableI:
  assumes ok: "clog_ok Q b" and un: "unsynced_segments (cl_store b) = []"
    and clean: "\<And>i. i < length (cl_frames (cl_inner b)) \<Longrightarrow> \<not> fr_dirty (cl_frames (cl_inner b) ! i)"
  shows "all_durable b"
  unfolding all_durable_def
proof (intro allI impI)
  fix pn i assume i: "i < (8192 :: nat)"
  have "dirty_pages (cl_frames (cl_inner b)) = {}" using clean by (fastforce simp: dirty_pages_def in_set_conv_nth)
  then have "disk_byte (cl_store b) pn i = durable_byte (cl_store b) pn i"
    using ok un i by (simp add: clog_ok_def durable_except_def)
  moreover have "page_byte b pn i = disk_byte (cl_store b) pn i"
  proof (cases "hm_get (page_table (cl_inner b)) pn")
    case (Some idx)
    have tab: "table_ok (cl_frames (cl_inner b)) (hm_get (page_table (cl_inner b)))" using ok by (simp add: clog_ok_def)
    note l = table_ok_lookup [OF tab Some]
    then have "frame_ok Q (cl_store b) (cl_frames (cl_inner b) ! idx)" using ok by (simp add: clog_ok_def)
    then show ?thesis using l clean Some i by (auto simp: frame_ok_def page_byte_def)
  qed (simp add: page_byte_def)
  ultimately show "durable_byte (cl_store b) pn i = page_byte b pn i \<and> disk_byte (cl_store b) pn i = page_byte b pn i" by simp
qed

lemma page_byte_store: "disk_byte st' = disk_byte (cl_store b) \<Longrightarrow> page_byte (b\<lparr>cl_store := st'\<rparr>) = page_byte b"
  by (simp add: fun_eq_iff page_byte_def split: option.split)

lemma clog_ok_synced:
  assumes ok: "clog_ok Q b" and st: "store_inv st'" "durable_except (dirty_pages (cl_frames (cl_inner b))) st'"
      "disk_byte st' = disk_byte (cl_store b)"
    and d: "\<forall>pn i. durable_byte st' pn i \<in> {durable_byte (cl_store b) pn i, disk_byte (cl_store b) pn i}"
  shows "clog_ok Q (b\<lparr>cl_store := st'\<rparr>)"
proof -
  have "Q pn i (durable_byte st' pn i)" if "i < 8192" for pn i
  proof -
    have "Q pn i (durable_byte (cl_store b) pn i)" "Q pn i (disk_byte (cl_store b) pn i)" using ok that by (simp_all add: clog_ok_def)
    moreover have "durable_byte st' pn i = durable_byte (cl_store b) pn i \<or> durable_byte st' pn i = disk_byte (cl_store b) pn i" using d by simp
    ultimately show ?thesis by metis
  qed
  then show ?thesis using ok st by (simp add: clog_ok_def frame_ok_def)
qed

lemma flush_dirty_inv:
  assumes f: "flush_dirty io b = (r, b')" and ok: "clog_ok Q b"
  shows "clog_ok Q b'" and "same_view b b'" and "r \<noteq> Panic" and "io = (\<lambda>_. Done) \<Longrightarrow> r = Ok ()" and "r = Ok () \<Longrightarrow> all_durable b'"
proof -
  let ?n = "length (cl_frames (cl_inner b))"
  obtain r1 b1 where f1: "flush_frames io [0..<frame_count b] b = (r1, b1)" by fastforce
  have p: "flush_post Q io b {0..<?n} (r1, b1)" using flush_frames_inv [OF ok, of "[0..<?n]" io] f1 by (simp add: frame_count_def)
  have ok1: "clog_ok Q b1" and v1: "same_view b b1" and np: "r1 \<noteq> Panic" and len: "length (cl_frames (cl_inner b1)) = ?n"
    using p by (simp_all add: flush_post_def)
  have clean: "\<not> fr_dirty (cl_frames (cl_inner b1) ! i)" if "i < ?n" "r1 = Ok ()" for i
    using p that by (auto simp: flush_post_def)
  have "clog_ok Q b' \<and> same_view b b' \<and> r \<noteq> Panic \<and> (io = (\<lambda>_. Done) \<longrightarrow> r = Ok ()) \<and> (r = Ok () \<longrightarrow> all_durable b')"
  proof (cases "r1 = Ok ()")
    case False
    then have "(r, b') = (r1, b1)" using f f1 np by (cases r1) (auto simp: flush_dirty_def sbind_def)
    then show ?thesis using p False by (auto simp: flush_post_def)
  next
    case True
    obtain st where s: "sync_pending io (unsynced_segments (cl_store b1)) (cl_store b1) = (r, st)" and b': "b' = b1\<lparr>cl_store := st\<rparr>"
      using f f1 True by (auto simp: flush_dirty_def sbind_def with_store_def sync_unsynced_def split: prod.splits)
    have inv: "store_inv (cl_store b1)" and d: "durable_except (dirty_pages (cl_frames (cl_inner b1))) (cl_store b1)"
      using ok1 by (simp_all add: clog_ok_def)
    have "set (unsynced_segments (cl_store b1)) \<subseteq> dom (hm_get (segments (cl_store b1)))" using inv by (auto simp: store_inv_def)
    note si = sync_pending_inv [OF s inv d this]
    have ok': "clog_ok Q b'" unfolding b' using si by (intro clog_ok_synced [OF ok1]) auto
    have "same_view b b'" using v1 si page_byte_store [of st b1] by (simp add: same_view_def b')
    moreover have "all_durable b'" if "r = Ok ()"
      using all_durableI [OF ok'] si that clean [OF _ True] len by (simp add: b')
    ultimately show ?thesis using ok' si by simp
  qed
  then show "clog_ok Q b'" "same_view b b'" "r \<noteq> Panic" "io = (\<lambda>_. Done) \<Longrightarrow> r = Ok ()" "r = Ok () \<Longrightarrow> all_durable b'" by auto
qed

section \<open>Failed calls\<close>

text \<open>
  What is left when loading a page fails, whether at the write-back of the victim or at the read: the
  files are sound and every page reads as before, from the cache or from its file.  The frame of the
  victim may still name a page the table has dropped, so this is weaker than \<open>clog_ok\<close>.
\<close>

definition files_ok :: "byte_pred \<Rightarrow> ClogBuffer \<Rightarrow> bool" where
  "files_ok Q b \<longleftrightarrow> store_inv (cl_store b) \<and>
     (\<forall>pn i. i < 8192 \<longrightarrow> Q pn i (disk_byte (cl_store b) pn i) \<and> Q pn i (durable_byte (cl_store b) pn i))"

lemma clog_ok_files: "clog_ok Q b \<Longrightarrow> files_ok Q b"
  by (simp add: clog_ok_def files_ok_def)

lemma evict_failed:
  assumes e: "evict io v b = (r, b')" and r: "r \<noteq> Ok ()" and ok: "clog_ok Q b" and v: "v < length (cl_frames (cl_inner b))"
  shows "clog_ok Q b'" and "same_view b b'"
proof -
  let ?fr = "cl_frames (cl_inner b) ! v"
  obtain st where d: "fr_dirty ?fr" and w: "write_page io (fr_page_no ?fr) (fr_data ?fr) (cl_store b) = (r, st)"
    and b': "b' = b\<lparr>cl_store := st\<rparr>"
    using e r by (cases "write_page io (fr_page_no ?fr) (fr_data ?fr) (cl_store b)")
      (auto simp: evict_def Let_def sbind_def with_store_def sret_def split: if_splits outcome.splits)
  show "clog_ok Q b'" "same_view b b'" unfolding b' using flush_frame_failed [OF ok v d w r] by blast+
qed

lemma evicted_files:
  assumes ok: "clog_ok Q b" and v: "v < length (cl_frames (cl_inner b))" and ev: "evicted b v b1"
    and st2: "store_inv st2" "same_pages (cl_store b1) st2"
  shows "files_ok Q (b1\<lparr>cl_store := st2\<rparr>)" and "same_view b (b1\<lparr>cl_store := st2\<rparr>)"
proof -
  let ?frs = "cl_frames (cl_inner b)" and ?t = "hm_get (page_table (cl_inner b))"
  let ?pv = "fr_page_no (?frs ! v)"
  note e = ev [unfolded evicted_def Let_def] and same = same_pages_bytes [OF st2(2)]
  have tab: "table_ok ?frs ?t" and fv: "frame_ok Q (cl_store b) (?frs ! v)"
    and nib: "\<forall>q i. i < 8192 \<longrightarrow> Q q i (disk_byte (cl_store b) q i) \<and> Q q i (durable_byte (cl_store b) q i)"
    using ok v by (simp_all add: clog_ok_def)
  have disk: "disk_byte st2 q i = (if q = ?pv \<and> ?pv \<noteq> INVALID_PAGE_NO then fr_data (?frs ! v) ! i else disk_byte (cl_store b) q i)"
    if "i < 8192" for q i using e that same by simp
  have "Q q i (disk_byte st2 q i)" if "i < 8192" for q i using disk [OF that, of q] nib fv that by (auto simp: frame_ok_def)
  then show "files_ok Q (b1\<lparr>cl_store := st2\<rparr>)" using e same nib st2(1) by (simp add: files_ok_def)
  have "page_byte (b1\<lparr>cl_store := st2\<rparr>) q i = page_byte b q i" if i: "i < 8192" for q i
  proof (cases "q = ?pv")
    case True
    have "page_byte b q i = (if ?pv \<noteq> INVALID_PAGE_NO then fr_data (?frs ! v) ! i else disk_byte (cl_store b) q i)"
      using table_ok_resident [OF tab v] table_ok_lookup [OF tab, of INVALID_PAGE_NO] True
      by (cases "?t INVALID_PAGE_NO") (auto simp: page_byte_def)
    then show ?thesis using e disk [OF i, of q] True by (simp add: page_byte_def)
  next
    case False
    then show ?thesis using e disk [OF i, of q] by (simp add: page_byte_def split: option.split)
  qed
  then show "same_view b (b1\<lparr>cl_store := st2\<rparr>)" by (simp add: same_view_def)
qed

lemma locate_frame_failed:
  assumes loc: "locate_frame io pn b = (r, b')" and fails: "\<And>idx. r \<noteq> Ok idx" and ok: "clog_ok Q b"
  shows "files_ok Q b' \<and> same_view b b'"
proof (cases "hm_get (page_table (cl_inner b)) pn")
  case None
  have "clock_hand (cl_inner b) < length (cl_frames (cl_inner b))" using ok by (simp add: clog_ok_def)
  then obtain v inner where fv: "find_victim (cl_inner b) = Some (v, inner)" "v < length (cl_frames (cl_inner b))" "swept (cl_inner b) inner"
    by (rule find_victim_returns)
  let ?b1 = "b\<lparr>cl_misses := cl_misses b + 1, cl_inner := inner\<rparr>"
  note s = clog_ok_swept [OF ok fv(3), of "cl_misses b + 1"]
  have v: "v < length (cl_frames (cl_inner ?b1))" using fv(2) swept_length [OF fv(3)] by simp
  have run: "sbind (evict io v) (\<lambda>_. sbind (with_store (read_page io pn)) (install v pn)) ?b1 = (r, b')"
    using loc None fv(1) by (simp add: locate_frame_def Let_def)
  obtain r1 b2 where e: "evict io v ?b1 = (r1, b2)" by fastforce
  show ?thesis
  proof (cases "r1 = Ok ()")
    case False
    then have "b' = b2" using run e by (cases r1) (auto simp: sbind_def)
    then show ?thesis using evict_failed [OF e False s(1) v] clog_ok_files s(2) by (auto simp: same_view_def)
  next
    case True
    note ev = evict_inv [OF e [unfolded True] s(1) v]
    obtain r2 st2 where rd: "read_page io pn (cl_store b2) = (r2, st2)" by fastforce
    have "store_inv (cl_store b2)" using ev by (simp add: evicted_def Let_def)
    note ri = read_page_inv [OF rd this]
    have "b' = b2\<lparr>cl_store := st2\<rparr>"
      using run e True rd fails by (cases r2) (auto simp: sbind_def with_store_def install_def Let_def)
    then show ?thesis using evicted_files [OF s(1) v ev ri(1,2)] s(2) by (auto simp: same_view_def)
  qed
qed (use loc fails in \<open>auto simp: locate_frame_def\<close>)

lemma get_state_any:
  assumes g: "clog_buffer_get_state io xid b = (r, b')" and ok: "clog_ok Q b"
  shows "files_ok Q b'" and "clog_view b' = clog_view b"
proof -
  have "files_ok Q b' \<and> clog_view b' = clog_view b"
  proof (cases "xid = TxnId_INVALID")
    case True
    then show ?thesis using g clog_ok_files [OF ok] by (auto simp: clog_buffer_get_state_def)
  next
    case False
    obtain l b1 where loc: "locate_frame io (page_no_of_xid xid) b = (l, b1)" by fastforce
    then have b': "b' = b1" using g False by (auto simp: clog_buffer_get_state_def split: outcome.splits)
    show ?thesis
    proof (cases "\<exists>idx. l = Ok idx")
      case True
      then obtain idx where "locate_frame io (page_no_of_xid xid) b = (Ok idx, b1)" using loc by blast
      note li = locate_frame_inv [OF this ok page_no_valid]
      show ?thesis using li(1,2) clog_ok_files same_view_clog_view b' by blast
    next
      case False
      then show ?thesis using locate_frame_failed [OF loc _ ok] same_view_clog_view b' by blast
    qed
  qed
  then show "files_ok Q b'" "clog_view b' = clog_view b" by auto
qed

lemma set_state_failed:
  assumes s: "clog_buffer_set_state io xid st b = (r, b')" and r: "r \<noteq> Ok ()" and ok: "clog_ok Q b"
  shows "files_ok Q b'" and "clog_view b' = clog_view b"
proof -
  obtain l where loc: "locate_frame io (page_no_of_xid xid) b = (l, b')" and l: "\<And>idx. l \<noteq> Ok idx"
    using s r by (cases "locate_frame io (page_no_of_xid xid) b")
      (auto simp: clog_buffer_set_state_def Let_def split: if_splits outcome.splits)
  show "files_ok Q b'" "clog_view b' = clog_view b"
    using locate_frame_failed [OF loc l ok] same_view_clog_view by blast+
qed

section \<open>Crash and reopening\<close>

lemma clog_buffer_open_inv:
  assumes o: "clog_buffer_open io fs data_dir n = Ok b" and fs: "fs_ok fs"
    and Q: "\<And>pn i. i < 8192 \<Longrightarrow> Q pn i (disk_byte (cl_store b) pn i) \<and> Q pn i (durable_byte (cl_store b) pn i)"
    and eq: "\<And>path i. file_byte fs path i = synced_byte fs path i"
  shows "clog_ok Q b" and "page_byte b = disk_byte (cl_store b)" and "cl_store b = \<lparr>clog_fs = fs, clog_dir = data_dir @ ''/clog'', segments = [], unsynced_segments = []\<rparr>"
proof -
  have n: "4 \<le> n" and b: "b = \<lparr>cl_store = \<lparr>clog_fs = fs, clog_dir = data_dir @ ''/clog'', segments = [], unsynced_segments = []\<rparr>,
      cl_inner = \<lparr>cl_frames = replicate n fresh_frame, page_table = [], clock_hand = 0\<rparr>, cl_hits = 0, cl_misses = 0\<rparr>"
    using o by (auto simp: clog_buffer_open_def store_open_def Let_def MIN_FRAMES_def split: if_splits)
  show st: "cl_store b = \<lparr>clog_fs = fs, clog_dir = data_dir @ ''/clog'', segments = [], unsynced_segments = []\<rparr>" by (simp add: b)
  have "frame_ok Q (cl_store b) fresh_frame" by (simp add: frame_ok_def fresh_frame_def clog_constants)
  moreover have "table_ok (replicate n fresh_frame) Map.empty" by (simp add: table_ok_def fresh_frame_def)
  moreover have "durable_except X (cl_store b)" for X by (simp add: durable_except_def disk_byte_def durable_byte_def st eq)
  moreover have "store_inv (cl_store b)" using fs by (simp add: store_inv_def st)
  ultimately show "clog_ok Q b" using n Q by (simp add: clog_ok_def b)
  show "page_byte b = disk_byte (cl_store b)" by (simp add: fun_eq_iff page_byte_def b)
qed

lemma reopen_inv:
  assumes ok: "files_ok Q b" and dir: "clog_dir (cl_store b) = data_dir @ ''/clog''"
    and o: "clog_buffer_open io (crash kept (clog_fs (cl_store b))) data_dir n = Ok b'"
  shows "clog_ok Q b'"
proof -
  let ?fs = "clog_fs (cl_store b)"
  have fs: "fs_ok ?fs" using ok by (simp add: files_ok_def store_inv_def)
  have st: "cl_store b' = \<lparr>clog_fs = crash kept ?fs, clog_dir = data_dir @ ''/clog'', segments = [], unsynced_segments = []\<rparr>"
    using o by (auto simp: clog_buffer_open_def store_open_def Let_def split: if_splits)
  have "disk_byte (cl_store b') pn i \<in> {disk_byte (cl_store b) pn i, durable_byte (cl_store b) pn i} \<and>
      durable_byte (cl_store b') pn i = disk_byte (cl_store b') pn i" for pn i
    unfolding disk_byte_def durable_byte_def using file_byte_crash [OF fs, of kept] by (simp add: st dir)
  then have "Q pn i (disk_byte (cl_store b') pn i) \<and> Q pn i (durable_byte (cl_store b') pn i)" if "i < 8192" for pn i
    using ok that by (metis (no_types, lifting) files_ok_def empty_iff insert_iff)
  then show "clog_ok Q b'" by (rule clog_buffer_open_inv(1) [OF o fs_ok_crash]) simp_all
qed

section \<open>Runs\<close>

text \<open>
  A step reads a state, records one, flushes with any outcome, or crashes and reopens.  A read or write
  that meets an I/O error panics; the run goes on with the crash and restart that follow.  The crash is that of
  the machine: whatever the files show after it is durable.
\<close>

definition restarts :: "ClogBuffer \<Rightarrow> ClogBuffer \<Rightarrow> bool" where
  "restarts b b' \<longleftrightarrow> (\<exists>kept io data_dir n. clog_dir (cl_store b) = data_dir @ ''/clog'' \<and>
     clog_buffer_open io (crash kept (clog_fs (cl_store b))) data_dir n = Ok b')"

inductive clog_step :: "ClogBuffer \<Rightarrow> ClogBuffer \<Rightarrow> bool" where
  step_get: "clog_buffer_get_state io xid b = (Ok st, b') \<Longrightarrow> clog_step b b'"
| step_set: "clog_buffer_set_state io xid st b = (Ok (), b') \<Longrightarrow> clog_step b b'"
| step_flush: "flush_dirty io b = (r, b') \<Longrightarrow> clog_step b b'"
| step_crash: "restarts b b' \<Longrightarrow> clog_step b b'"
| step_get_panics: "clog_buffer_get_state io xid b = (Panic, b1) \<Longrightarrow> restarts b1 b' \<Longrightarrow> clog_step b b'"
| step_set_panics: "clog_buffer_set_state io xid st b = (Panic, b1) \<Longrightarrow> restarts b1 b' \<Longrightarrow> clog_step b b'"

lemma restarts_inv: "files_ok Q b \<Longrightarrow> restarts b b' \<Longrightarrow> clog_ok Q b'"
  unfolding restarts_def using reopen_inv by blast

definition clog_start :: "ClogBuffer \<Rightarrow> bool" where
  "clog_start b \<longleftrightarrow> (\<exists>io data_dir n. clog_buffer_open io Map.empty data_dir n = Ok b)"

definition clog_buffer_inv :: "ClogBuffer \<Rightarrow> bool" where
  "clog_buffer_inv b \<longleftrightarrow> clog_ok (\<lambda>_ _. nibbles_ok) b"

lemma clog_start_inv: "clog_start b \<Longrightarrow> clog_buffer_inv b"
proof -
  assume "clog_start b"
  then obtain io data_dir n where o: "clog_buffer_open io Map.empty data_dir n = Ok b" by (auto simp: clog_start_def)
  then have st: "clog_fs (cl_store b) = Map.empty"
    by (auto simp: clog_buffer_open_def store_open_def Let_def split: if_splits)
  show ?thesis
    unfolding clog_buffer_inv_def
    by (rule clog_buffer_open_inv(1) [OF o]) (simp_all add: disk_byte_def durable_byte_def file_byte_def synced_byte_def st)
qed

lemma clog_step_inv:
  assumes "clog_buffer_inv b" and "clog_step b b'"
  shows "clog_buffer_inv b'"
  using assms(2,1) unfolding clog_buffer_inv_def
proof cases
  case (step_set io xid st)
  then show "clog_ok (\<lambda>_ _. nibbles_ok) b \<Longrightarrow> clog_ok (\<lambda>_ _. nibbles_ok) b'"
    using set_state_inv(1) [OF step_set(1)] nibbles_ok_set by blast
next
  case (step_set_panics io xid st b1)
  show "clog_ok (\<lambda>_ _. nibbles_ok) b \<Longrightarrow> clog_ok (\<lambda>_ _. nibbles_ok) b'"
    using restarts_inv [OF set_state_failed(1) [OF step_set_panics(1)] step_set_panics(2)] by blast
qed (blast intro: get_state_inv flush_dirty_inv restarts_inv clog_ok_files get_state_any)+

interpretation clog_disk: step_invariant clog_start clog_step clog_buffer_inv
  by unfold_locales (blast intro: clog_start_inv clog_step_inv)+

section \<open>Redo of transaction records\<close>

text \<open>
  \<^verbatim>\<open>TxnCommitHandler\<close> and \<^verbatim>\<open>TxnAbortHandler\<close>; \<open>decode\<close> is the payload decoder of the
  serialization library.
\<close>

datatype txn_record = TxnCommit "u8 list" | TxnAbort "u8 list"

definition txn_commit_apply ::
    "(u8 list \<Rightarrow> (TxnId, StorageError) outcome) \<Rightarrow> (io_call \<Rightarrow> io_reply) \<Rightarrow> u8 list \<Rightarrow> (ClogBuffer, unit) io" where
  "txn_commit_apply decode io payload b =
     (case decode payload of
        Ok xid \<Rightarrow> clog_buffer_set_state io xid Committed b
      | Err e \<Rightarrow> (Err e, b)
      | Panic \<Rightarrow> (Panic, b))"

definition txn_abort_apply ::
    "(u8 list \<Rightarrow> (TxnId, StorageError) outcome) \<Rightarrow> (io_call \<Rightarrow> io_reply) \<Rightarrow> u8 list \<Rightarrow> (ClogBuffer, unit) io" where
  "txn_abort_apply decode io payload b =
     (case decode payload of
        Ok xid \<Rightarrow> clog_buffer_set_state io xid Aborted b
      | Err e \<Rightarrow> (Err e, b)
      | Panic \<Rightarrow> (Panic, b))"

fun redo_txn_records ::
    "(u8 list \<Rightarrow> (TxnId, StorageError) outcome) \<Rightarrow> (io_call \<Rightarrow> io_reply) \<Rightarrow> txn_record list \<Rightarrow> (ClogBuffer, unit) io" where
  "redo_txn_records decode io [] b = (Ok (), b)"
| "redo_txn_records decode io (TxnCommit payload # rest) b =
     sbind (txn_commit_apply decode io payload) (\<lambda>_. redo_txn_records decode io rest) b"
| "redo_txn_records decode io (TxnAbort payload # rest) b =
     sbind (txn_abort_apply decode io payload) (\<lambda>_. redo_txn_records decode io rest) b"

text \<open>A run between two crashes, with the transactions it ends (\<open>True\<close> for a commit).\<close>

fun end_state :: "bool \<Rightarrow> TxnState" where
  "end_state True = Committed"
| "end_state False = Aborted"

inductive clog_trace :: "ClogBuffer \<Rightarrow> (TxnId \<times> bool) list \<Rightarrow> ClogBuffer \<Rightarrow> bool" where
  trace_refl: "clog_trace b [] b"
| trace_get: "clog_trace a ends b \<Longrightarrow> clog_buffer_get_state io xid b = (Ok st, b') \<Longrightarrow> clog_trace a ends b'"
| trace_flush: "clog_trace a ends b \<Longrightarrow> flush_dirty io b = (r, b') \<Longrightarrow> clog_trace a ends b'"
| trace_end: "clog_trace a ends b \<Longrightarrow> xid \<noteq> TxnId_INVALID \<Longrightarrow>
    clog_buffer_set_state io xid (end_state c) b = (Ok (), b') \<Longrightarrow> clog_trace a (ends @ [(xid, c)]) b'"

definition apply_ends :: "(TxnId \<times> bool) list \<Rightarrow> (TxnId \<Rightarrow> TxnState) \<Rightarrow> TxnId \<Rightarrow> TxnState" where
  "apply_ends ends view = foldl (\<lambda>v (xid, c). v(xid := end_state c)) view ends"

lemma apply_ends_simps [simp]:
  "apply_ends [] view = view" "apply_ends ((xid, c) # ends) view = apply_ends ends (view(xid := end_state c))"
  "apply_ends (ends @ [(xid, c)]) view = (apply_ends ends view)(xid := end_state c)"
  by (simp_all add: apply_ends_def)

lemma apply_ends_untouched: "xid \<notin> fst ` set ends \<Longrightarrow> apply_ends ends view xid = view xid"
  by (induction ends rule: rev_induct) auto

lemma apply_ends_touched: "xid \<in> fst ` set ends \<Longrightarrow> apply_ends ends view xid = apply_ends ends view' xid"
  by (induction ends rule: rev_induct) force+

text \<open>Every copy of an XID's bits is a state the XID has had: the one at the start of the run or a later one.\<close>

definition had_state :: "(TxnId \<Rightarrow> TxnState set) \<Rightarrow> u64 \<Rightarrow> nat \<Rightarrow> u8 \<Rightarrow> bool" where
  "had_state H pn i x \<longleftrightarrow>
     nibbles_ok x \<and>
     (\<forall>xid. xid \<noteq> TxnId_INVALID \<and> page_no_of_xid xid = pn \<and> byte_in_page_of_xid xid = i \<longrightarrow>
        (\<exists>st \<in> H xid. txn_state_from_nibble (get_nibble x xid) = Ok st))"

lemma clog_ok_mono:
  assumes "clog_ok Q b" and "\<And>pn i x. Q pn i x \<Longrightarrow> Q' pn i x"
  shows "clog_ok Q' b"
  using assms by (simp add: clog_ok_def frame_ok_def)

lemma had_state_mono: "had_state H pn i x \<Longrightarrow> (\<And>xid. H xid \<subseteq> H' xid) \<Longrightarrow> had_state H' pn i x"
  unfolding had_state_def by blast

lemma had_state_set:
  assumes h: "had_state H (page_no_of_xid xid) (byte_in_page_of_xid xid) x"
  shows "had_state (H(xid := insert st (H xid))) (page_no_of_xid xid) (byte_in_page_of_xid xid) (set_nibble x xid (state_as_u8 st))"
  unfolding had_state_def
proof (intro conjI allI impI)
  show "nibbles_ok (set_nibble x xid (state_as_u8 st))" using h nibbles_ok_set by (simp add: had_state_def)
  fix y assume y: "y \<noteq> TxnId_INVALID \<and> page_no_of_xid y = page_no_of_xid xid \<and> byte_in_page_of_xid y = byte_in_page_of_xid xid"
  show "\<exists>s \<in> (H(xid := insert st (H xid))) y. txn_state_from_nibble (get_nibble (set_nibble x xid (state_as_u8 st)) y) = Ok s"
  proof (cases "y = xid")
    case True
    then show ?thesis by (simp add: get_set_nibble_same)
  next
    case False
    then have "xid AND 1 \<noteq> y AND 1" using xid_place_inj [of y xid] y by auto
    then show ?thesis using h y False by (simp add: had_state_def get_set_nibble_other)
  qed
qed

text \<open>Where a whole cache is durable, every copy shows the current view.\<close>

lemma all_durable_had_state:
  assumes ok: "clog_ok Q b" and Q: "\<And>pn i x. Q pn i x \<Longrightarrow> nibbles_ok x" and d: "all_durable b"
  shows "clog_ok (had_state (\<lambda>xid. {clog_view b xid})) b"
proof -
  let ?H = "\<lambda>xid. {clog_view b xid}"
  have nib: "nibbles_ok (page_byte b pn i)" if "i < 8192" for pn i using Q page_byte_Q [OF ok that] by blast
  have view: "txn_state_from_nibble (get_nibble (page_byte b (page_no_of_xid xid) (byte_in_page_of_xid xid)) xid) = Ok (clog_view b xid)"
    if "xid \<noteq> TxnId_INVALID" for xid
  proof -
    obtain st where "txn_state_from_nibble (get_nibble (page_byte b (page_no_of_xid xid) (byte_in_page_of_xid xid)) xid) = Ok st"
      using state_of_nibble [OF get_nibble_ok [OF nib [OF byte_in_page(2)]]] by blast
    then show ?thesis using that by (simp add: clog_view_def)
  qed
  have h: "had_state ?H pn i (page_byte b pn i)" if "i < 8192" for pn i
    using nib [OF that] view by (auto simp: had_state_def)
  have "frame_ok (had_state ?H) (cl_store b) fr" if fr: "fr \<in> set (cl_frames (cl_inner b))" for fr
  proof -
    obtain j where j: "j < length (cl_frames (cl_inner b))" "fr = cl_frames (cl_inner b) ! j" using fr by (auto simp: in_set_conv_nth)
    have tab: "table_ok (cl_frames (cl_inner b)) (hm_get (page_table (cl_inner b)))" and f: "frame_ok Q (cl_store b) fr"
      using ok fr by (simp_all add: clog_ok_def)
    have "had_state ?H (fr_page_no fr) i (fr_data fr ! i)" if "i < 8192" "fr_page_no fr \<noteq> INVALID_PAGE_NO" for i
      using h [OF that(1), of "fr_page_no fr"] page_byte_resident [OF table_ok_resident [OF tab j(1)], of i] j that by simp
    then show ?thesis using f by (simp add: frame_ok_def)
  qed
  then show ?thesis using ok h d by (simp add: clog_ok_def all_durable_def)
qed

lemma clog_trace_inv:
  assumes "clog_trace a ends b" and "clog_ok (had_state H) a"
  shows "clog_ok (had_state (\<lambda>xid. H xid \<union> {end_state c |c. (xid, c) \<in> set ends})) b \<and> clog_view b = apply_ends ends (clog_view a)"
  using assms
proof (induction rule: clog_trace.induct)
  case (trace_refl b)
  then show ?case by simp
next
  case (trace_get a ends b io xid st b')
  let ?Q = "had_state (\<lambda>xid. H xid \<union> {end_state c |c. (xid, c) \<in> set ends})"
  have IH: "clog_ok ?Q b" "clog_view b = apply_ends ends (clog_view a)" using trace_get by auto
  then show ?case using get_state_inv(1,2) [OF trace_get(2) IH(1)] by simp
next
  case (trace_flush a ends b io r b')
  let ?Q = "had_state (\<lambda>xid. H xid \<union> {end_state c |c. (xid, c) \<in> set ends})"
  have IH: "clog_ok ?Q b" "clog_view b = apply_ends ends (clog_view a)" using trace_flush by auto
  then show ?case using flush_dirty_inv(1,2) [OF trace_flush(2) IH(1)] same_view_clog_view [of b b'] by simp
next
  case (trace_end a ends b xid io c b')
  let ?H = "\<lambda>y. H y \<union> {end_state c |c. (y, c) \<in> set ends}"
  let ?H' = "\<lambda>y. H y \<union> {end_state d |d. (y, d) \<in> set (ends @ [(xid, c)])}"
  have IH: "clog_ok (had_state ?H) b" "clog_view b = apply_ends ends (clog_view a)" using trace_end by auto
  have eq: "?H(xid := insert (end_state c) (?H xid)) = ?H'" by (auto simp: fun_eq_iff)
  have "clog_ok (had_state ?H') b"
    by (rule clog_ok_mono [OF IH(1)]) (erule had_state_mono, auto)
  moreover have "had_state ?H' (page_no_of_xid xid) (byte_in_page_of_xid xid) (set_nibble x xid (state_as_u8 (end_state c)))"
    if "had_state ?H' (page_no_of_xid xid) (byte_in_page_of_xid xid) x" for x
  proof -
    have "?H'(xid := insert (end_state c) (?H' xid)) = ?H'" by (auto simp: fun_eq_iff)
    then show ?thesis using had_state_set [OF that, of "end_state c"] by simp
  qed
  ultimately show ?case using set_state_inv [OF trace_end(3)] IH(2) trace_end(2) by simp
qed

definition end_record :: "(TxnId \<Rightarrow> u8 list) \<Rightarrow> TxnId \<times> bool \<Rightarrow> txn_record" where
  "end_record encode e = (if snd e then TxnCommit (encode (fst e)) else TxnAbort (encode (fst e)))"

lemma redo_end_record:
  assumes "decode (encode xid) = Ok xid"
  shows "redo_txn_records decode io (end_record encode (xid, c) # rest) b =
    sbind (clog_buffer_set_state io xid (end_state c)) (\<lambda>_. redo_txn_records decode io rest) b"
  using assms by (cases c) (simp_all add: end_record_def sbind_def txn_commit_apply_def txn_abort_apply_def)

lemma redo_records_view:
  assumes "\<And>xid. decode (encode xid) = Ok xid" and "redo_txn_records decode io (map (end_record encode) ends) b = (Ok (), b')"
    and "clog_buffer_inv b" and "TxnId_INVALID \<notin> fst ` set ends"
  shows "clog_view b' = apply_ends ends (clog_view b) \<and> clog_buffer_inv b'"
  using assms(2-)
proof (induction ends arbitrary: b)
  case (Cons e ends)
  obtain xid c where e: "e = (xid, c)" by fastforce
  obtain b1 where s: "clog_buffer_set_state io xid (end_state c) b = (Ok (), b1)"
    and rest: "redo_txn_records decode io (map (end_record encode) ends) b1 = (Ok (), b')"
    using Cons.prems(1) redo_end_record [where decode = decode and encode = encode and xid = xid, OF assms(1)] by (auto simp: e sbind_eq_Ok)
  have "clog_buffer_inv b1" using clog_step_inv [OF Cons.prems(2) step_set [OF s]] .
  moreover have "clog_view b1 = (clog_view b)(xid := end_state c)"
    using set_state_inv(2) [OF s] Cons.prems(2,3) nibbles_ok_set unfolding clog_buffer_inv_def by (auto simp: e)
  ultimately show ?case using Cons.IH [OF rest] Cons.prems(3) by (simp add: e fun_upd_def)
qed simp

lemma view_had_state:
  assumes "clog_ok (had_state H) b" and "xid \<noteq> TxnId_INVALID"
  shows "clog_view b xid \<in> H xid"
proof -
  have "had_state H (page_no_of_xid xid) (byte_in_page_of_xid xid) (page_byte b (page_no_of_xid xid) (byte_in_page_of_xid xid))"
    by (rule page_byte_Q [OF assms(1) byte_in_page(2)])
  then obtain st where "st \<in> H xid"
      "txn_state_from_nibble (get_nibble (page_byte b (page_no_of_xid xid) (byte_in_page_of_xid xid)) xid) = Ok st"
    using assms(2) by (auto simp: had_state_def)
  then show ?thesis using assms(2) by (simp add: clog_view_def)
qed

lemma clog_trace_ends: "clog_trace a ends b \<Longrightarrow> TxnId_INVALID \<notin> fst ` set ends"
  by (induction rule: clog_trace.induct) auto

lemma calls_return:
  assumes "clog_buffer_inv b"
  shows "(\<exists>st b1. clog_buffer_get_state (\<lambda>_. Done) xid b = (Ok st, b1)) \<and>
    (\<exists>b2. clog_buffer_set_state (\<lambda>_. Done) xid state b = (Ok (), b2)) \<and> (\<exists>b3. flush_dirty (\<lambda>_. Done) b = (Ok (), b3))"
proof -
  have ok: "clog_ok (\<lambda>_ _. nibbles_ok) b" using assms by (simp add: clog_buffer_inv_def)
  obtain idx b1 where loc: "locate_frame (\<lambda>_. Done) (page_no_of_xid xid) b = (Ok idx, b1)"
    using locate_frame_returns [OF ok page_no_valid] by blast
  note li = locate_frame_inv [OF loc ok page_no_valid]
  have "nibbles_ok (fr_data (cl_frames (cl_inner b1) ! idx) ! byte_in_page_of_xid xid)"
    using page_byte_Q [OF li(1) byte_in_page(2) [of xid], of "page_no_of_xid xid"] page_byte_resident [OF li(3)] by simp
  from state_of_nibble [OF get_nibble_ok [OF this]]
  have "\<exists>st b1. clog_buffer_get_state (\<lambda>_. Done) xid b = (Ok st, b1)" using loc by (auto simp: clog_buffer_get_state_def)
  moreover have "\<exists>b2. clog_buffer_set_state (\<lambda>_. Done) xid state b = (Ok (), b2)"
    using loc by (auto simp: clog_buffer_set_state_def Let_def)
  moreover have "\<exists>b3. flush_dirty (\<lambda>_. Done) b = (Ok (), b3)"
    using flush_dirty_inv(4) [OF _ ok] by (cases "flush_dirty (\<lambda>_. Done) b") auto
  ultimately show ?thesis by blast
qed

section \<open>The directory never changes\<close>

lemma with_fs_dir [simp]: "with_fs m st = (r, st') \<Longrightarrow> clog_dir st' = clog_dir st"
  by (auto simp: with_fs_def split: prod.splits)

lemma segment_handle_dir: "segment_handle io sid st = (r, st') \<Longrightarrow> clog_dir st' = clog_dir st"
  by (auto simp: segment_handle_def sbind_def sret_def split: option.splits prod.splits outcome.splits if_splits)

lemma read_page_dir: "read_page io pn st = (r, st') \<Longrightarrow> clog_dir st' = clog_dir st"
  by (auto simp: read_page_def sbind_def dest: segment_handle_dir split: prod.splits outcome.splits)

lemma write_page_dir: "write_page io pn buf st = (r, st') \<Longrightarrow> clog_dir st' = clog_dir st"
  by (auto simp: write_page_def sbind_def dest: segment_handle_dir split: prod.splits outcome.splits)

lemma evict_dir: "evict io v b = (r, b') \<Longrightarrow> clog_dir (cl_store b') = clog_dir (cl_store b)"
  by (auto simp: evict_def Let_def sbind_def sret_def with_store_def dest: write_page_dir split: prod.splits outcome.splits if_splits)

lemma locate_frame_dir: "locate_frame io pn b = (r, b') \<Longrightarrow> clog_dir (cl_store b') = clog_dir (cl_store b)"
  by (auto simp: locate_frame_def Let_def sbind_def with_store_def install_def set_frame_def
      dest!: evict_dir read_page_dir split: option.splits prod.splits outcome.splits)

lemma set_state_dir: "clog_buffer_set_state io xid st b = (r, b') \<Longrightarrow> clog_dir (cl_store b') = clog_dir (cl_store b)"
  by (auto simp: clog_buffer_set_state_def Let_def set_frame_def dest!: locate_frame_dir split: if_splits prod.splits outcome.splits)

section \<open>Properties of the disk-backed commit log\<close>

text \<open>A log of four frames over an empty directory.\<close>

definition clog_ex :: ClogBuffer where
  "clog_ex = \<lparr>cl_store = \<lparr>clog_fs = Map.empty, clog_dir = ''d/clog'', segments = [], unsynced_segments = []\<rparr>,
     cl_inner = \<lparr>cl_frames = replicate 4 fresh_frame, page_table = [], clock_hand = 0\<rparr>, cl_hits = 0, cl_misses = 0\<rparr>"

lemma clog_ex_open: "clog_buffer_open (\<lambda>_. Done) Map.empty ''d'' 4 = Ok clog_ex"
  by (simp add: clog_buffer_open_def store_open_def clog_ex_def MIN_FRAMES_def MAX_FRAMES_def Let_def)

lemma clog_ex_start: "clog_start clog_ex"
  unfolding clog_start_def using clog_ex_open by blast

lemma flush_frames_clean: "\<forall>i \<in> set js. \<not> fr_dirty (cl_frames (cl_inner b) ! i) \<Longrightarrow> flush_frames io js b = (Ok (), b)"
  by (induction js) (auto simp: Let_def)

lemma clog_ex_flush: "flush_dirty (\<lambda>_. Done) clog_ex = (Ok (), clog_ex)"
proof -
  have "flush_frames (\<lambda>_. Done) [0..<frame_count clog_ex] clog_ex = (Ok (), clog_ex)"
    by (rule flush_frames_clean) (auto simp: frame_count_def clog_ex_def fresh_frame_def)
  then show ?thesis
    by (simp add: flush_dirty_def sbind_def with_store_def sync_unsynced_def) (simp add: clog_ex_def)
qed

text \<open>C20. The cache refines a map from XIDs to states.  In every state a run of reads, writes, flushes,
crashes and restarts can reach, whichever calls to the operating system fail: a read that returns gives the
state the map holds, a write that returns updates the map at its XID (and nothing at the invalid XID), and
a read, a write that panics, and a flush, successful or not, leave the map as it is.  A run goes on after a
call that panicked with a crash and a restart; its later calls then start from whatever the failed call, at
the write-back of a victim or at the read, left in the files.\<close>

theorem clog_cache_refines:
  assumes "clog_start b0" and "clog_step\<^sup>*\<^sup>* b0 b"
  shows "(clog_buffer_get_state io xid b = (r1, b1) \<longrightarrow> clog_view b1 = clog_view b \<and> (\<forall>st. r1 = Ok st \<longrightarrow> st = clog_view b xid)) \<and>
    (clog_buffer_set_state io xid st b = (r2, b2) \<longrightarrow>
       clog_view b2 = (if r2 = Ok () \<and> xid \<noteq> TxnId_INVALID then (clog_view b)(xid := st) else clog_view b)) \<and>
    (flush_dirty io b = (r3, b3) \<longrightarrow> clog_view b3 = clog_view b)"
proof -
  have ok: "clog_ok (\<lambda>_ _. nibbles_ok) b" using clog_disk.inv_reachable [OF assms] by (simp add: clog_buffer_inv_def)
  have "clog_view b2 = (if r2 = Ok () \<and> xid \<noteq> TxnId_INVALID then (clog_view b)(xid := st) else clog_view b)"
    if s: "clog_buffer_set_state io xid st b = (r2, b2)"
  proof (cases "r2 = Ok ()")
    case True
    have "clog_view b2 = (if xid = TxnId_INVALID then clog_view b else (clog_view b)(xid := st))"
      by (rule set_state_inv(2) [OF s [unfolded True] ok]) (rule nibbles_ok_set)
    then show ?thesis using True by simp
  next
    case False
    then show ?thesis using set_state_failed(2) [OF s False ok] by simp
  qed
  moreover have "clog_view b3 = clog_view b" if "flush_dirty io b = (r3, b3)"
    by (rule same_view_clog_view [OF flush_dirty_inv(2) [OF that ok]])
  moreover have "clog_view b1 = clog_view b \<and> (\<forall>st. r1 = Ok st \<longrightarrow> st = clog_view b xid)"
    if g: "clog_buffer_get_state io xid b = (r1, b1)"
    using get_state_any(2) [OF g ok] get_state_inv(3) [OF _ ok, of io xid] g by blast
  ultimately show ?thesis by blast
qed

theorem clog_cache_refines_witness:
  "\<exists>b. clog_buffer_set_state (\<lambda>_. Done) 5 Committed clog_ex = (Ok (), b) \<and> clog_view b 5 = Committed \<and>
     (\<forall>r b'. clog_buffer_get_state (\<lambda>_. Fails 0) 40000 b = (r, b') \<longrightarrow> clog_view b' 5 = Committed)"
proof -
  obtain b where b: "clog_buffer_set_state (\<lambda>_. Done) 5 Committed clog_ex = (Ok (), b)"
    using calls_return [OF clog_start_inv [OF clog_ex_start]] by blast
  then have v: "clog_view b 5 = Committed"
    using clog_cache_refines [OF clog_ex_start rtranclp.rtrancl_refl, where io = "\<lambda>_. Done" and xid = 5 and st = Committed]
    by (simp add: TxnId_INVALID_def)
  have "clog_step\<^sup>*\<^sup>* clog_ex b" using step_set [OF b] by blast
  then show ?thesis
    using b v clog_cache_refines [OF clog_ex_start, of b "\<lambda>_. Fails 0" 40000] by fastforce
qed

text \<open>C21. Without I/O errors no call fails: reading and recording a state and flushing always return, so the
search for a victim frame ends, no page is missing from the page table, no nibble is corrupt.\<close>

theorem clog_calls_return:
  assumes "clog_start b0" and "clog_step\<^sup>*\<^sup>* b0 b"
  shows "(\<exists>st b1. clog_buffer_get_state (\<lambda>_. Done) xid b = (Ok st, b1)) \<and>
    (\<exists>b2. clog_buffer_set_state (\<lambda>_. Done) xid state b = (Ok (), b2)) \<and> (\<exists>b3. flush_dirty (\<lambda>_. Done) b = (Ok (), b3))"
  by (rule calls_return [OF clog_disk.inv_reachable [OF assms]])

theorem clog_calls_return_witness: "\<exists>b. clog_buffer_set_state (\<lambda>_. Done) 5 Committed clog_ex = (Ok (), b)"
  using clog_calls_return [OF clog_ex_start rtranclp.rtrancl_refl] by blast

text \<open>C19. Crash recovery of the commit log.  Let a checkpoint flush succeed in any reachable state, let any
further reads, commits, aborts and flushes follow (flushes may fail half way), and let the machine crash, keeping
any of the bytes written since they were last synced, and the log be reopened with any legal number of frames.  Replaying the commit and abort records of the
transactions that ended since the checkpoint, in order, restores exactly the states before the crash.
\<open>decode\<close> and \<open>encode\<close> stand for the serialization library; decoding what was encoded returns it.\<close>

theorem clog_crash_recovery:
  assumes codec: "\<And>xid. decode (encode xid) = Ok xid"
    and reach: "clog_start b0" "clog_step\<^sup>*\<^sup>* b0 b" and flush: "flush_dirty io b = (Ok (), b1)"
    and run: "clog_trace b1 ends b2" and dir: "clog_dir (cl_store b2) = data_dir @ ''/clog''"
    and reopen: "clog_buffer_open io' (crash kept (clog_fs (cl_store b2))) data_dir n = Ok b3"
    and redo: "redo_txn_records decode io'' (map (end_record encode) ends) b3 = (Ok (), b4)"
  shows "clog_view b4 = clog_view b2"
proof
  fix xid
  have ok: "clog_ok (\<lambda>_ _. nibbles_ok) b" using clog_disk.inv_reachable [OF reach] by (simp add: clog_buffer_inv_def)
  note fi = flush_dirty_inv [OF flush ok]
  have had1: "clog_ok (had_state (\<lambda>xid. {clog_view b1 xid})) b1" by (rule all_durable_had_state [OF fi(1) _ fi(5)]) simp_all
  note ti = clog_trace_inv [OF run had1]
  have had3: "clog_ok (had_state (\<lambda>xid. {clog_view b1 xid} \<union> {end_state c |c. (xid, c) \<in> set ends})) b3"
    using reopen_inv [OF clog_ok_files dir reopen] ti by blast
  then have inv3: "clog_buffer_inv b3" unfolding clog_buffer_inv_def by (rule clog_ok_mono) (simp add: had_state_def)
  have v4: "clog_view b4 = apply_ends ends (clog_view b3)"
    using redo_records_view [OF codec redo inv3 clog_trace_ends [OF run]] by blast
  show "clog_view b4 xid = clog_view b2 xid"
  proof (cases "xid \<in> fst ` set ends")
    case True
    then show ?thesis using v4 ti apply_ends_touched [of xid ends "clog_view b3" "clog_view b1"] by simp
  next
    case False
    have "clog_view b3 xid = clog_view b1 xid"
    proof (cases "xid = TxnId_INVALID")
      case True
      then show ?thesis by (simp add: clog_view_def)
    next
      case ne: False
      have "clog_view b3 xid \<in> {clog_view b1 xid} \<union> {end_state c |c. (xid, c) \<in> set ends}" by (rule view_had_state [OF had3 ne])
      moreover have "{end_state c |c. (xid, c) \<in> set ends} = {}" using False by force
      ultimately show ?thesis by simp
    qed
    then show ?thesis using v4 ti False apply_ends_untouched [of xid ends] by simp
  qed
qed

text \<open>One commit after the flush, then a crash: replay restores it.\<close>

theorem clog_crash_recovery_witness:
  "\<exists>b2 b3 b4. clog_buffer_set_state (\<lambda>_. Done) 5 Committed clog_ex = (Ok (), b2) \<and>
     clog_buffer_open (\<lambda>_. Done) (crash \<lparr>kept_len = \<lambda>_. True, kept_byte = \<lambda>_. even\<rparr> (clog_fs (cl_store b2))) ''d'' 4 = Ok b3 \<and>
     redo_txn_records (\<lambda>p. Ok (le_word p)) (\<lambda>_. Done) [TxnCommit (le_bytes 8 (5 :: u64))] b3 = (Ok (), b4) \<and>
     clog_view b4 = clog_view b2"
proof -
  let ?kept = "\<lparr>kept_len = \<lambda>_. True, kept_byte = \<lambda>_. even\<rparr>"
  let ?io = "\<lambda>_ :: io_call. Done" and ?decode = "\<lambda>p. Ok (le_word p) :: (TxnId, StorageError) outcome"
  let ?encode = "\<lambda>x :: u64. le_bytes 8 x"
  obtain b2 where s: "clog_buffer_set_state ?io 5 Committed clog_ex = (Ok (), b2)"
    using calls_return [OF clog_start_inv [OF clog_ex_start]] by blast
  have dir: "clog_dir (cl_store b2) = ''d'' @ ''/clog''" using set_state_dir [OF s] by (simp add: clog_ex_def)
  obtain b3 where o: "clog_buffer_open ?io (crash ?kept (clog_fs (cl_store b2))) ''d'' 4 = Ok b3"
    by (auto simp: clog_buffer_open_def store_open_def MIN_FRAMES_def MAX_FRAMES_def Let_def)
  have "clog_buffer_inv b2" using clog_step_inv [OF clog_start_inv [OF clog_ex_start] step_set [OF s]] .
  then have "clog_buffer_inv b3" using clog_step_inv [OF _ step_crash] dir o unfolding restarts_def by blast
  then obtain b4 where r: "clog_buffer_set_state ?io 5 Committed b3 = (Ok (), b4)" using calls_return by blast
  have t: "clog_trace clog_ex [(5, True)] b2"
    using trace_end [OF trace_refl, of 5 ?io True clog_ex b2] s by (simp add: TxnId_INVALID_def)
  have rd: "redo_txn_records ?decode ?io (map (end_record ?encode) [(5, True)]) b3 = (Ok (), b4)"
    using r by (simp add: end_record_def sbind_def txn_commit_apply_def)
  have "clog_view b4 = clog_view b2"
    by (rule clog_crash_recovery [OF _ clog_ex_start rtranclp.rtrancl_refl clog_ex_flush t dir o rd]) simp
  then show ?thesis using s o rd by (auto simp: end_record_def)
qed

end
