(* ===== verification/Heap_Page.thy ===== *)
theory Heap_Page
  imports Heap_Tuple Txn_Manager
begin

unbundle bit_operations_syntax

text \<open>
  What the heap access method of \<^verbatim>\<open>pg-am-heap/src/heap_am.rs\<close> does with one page it has pinned: the
  stamps it writes into tuple headers, the walks along HOT chains, the visible and the dead tuples of
  a page, and the grouping of dead tuples by chain that decides what vacuum may remove.

  The lemmas rest on the abstraction \<open>hdr\<close>, the tuple header a slot holds, and on \<open>hot_ok\<close>: the
  links of HOT chains stay on the page, lead to heap-only tuples, join no two chains and form no
  cycle.  Every change the access method makes keeps \<open>hot_ok\<close>, the chain walks end on such pages, and
  what vacuum removes is closed under the links.
\<close>

section \<open>Header bits\<close>

definition HEAP_UPDATED :: u16 where "HEAP_UPDATED = 0x2000"
definition HEAP_XMAX_LOCK_ONLY :: u16 where "HEAP_XMAX_LOCK_ONLY = 0x1000"
definition HEAP_XMAX_IS_SHARE :: u16 where "HEAP_XMAX_IS_SHARE = 0x4000"
definition HEAP_HOT_UPDATED :: u16 where "HEAP_HOT_UPDATED = 0x4000"
definition HEAP_ONLY_TUPLE :: u16 where "HEAP_ONLY_TUPLE = 0x8000"

definition MAX_TUPLE_BYTES :: nat where
  "MAX_TUPLE_BYTES = PAGE_SIZE - HEAP_SPECIAL_SIZE - PAGE_HEADER_SIZE - LINE_POINTER_SIZE"

definition heap_stamp_pd_lsn :: "page \<Rightarrow> Lsn \<Rightarrow> page" where
  "heap_stamp_pd_lsn page lsn = set_page_pd_lsn page (max lsn (page_pd_lsn page))"

section \<open>Tuples on their way to a page\<close>

definition validate_tuple_len :: "u8 list \<Rightarrow> unit heap_result" where
  "validate_tuple_len bytes =
     (if bytes = [] then Err InvalidArgument
      else if MAX_TUPLE_BYTES < length bytes then Err (TupleTooLarge (length bytes))
      else Ok ())"

definition stamp_xmin :: "u8 list \<Rightarrow> TxnId \<Rightarrow> u8 list heap_result" where
  "stamp_xmin tuple xid =
     (if length tuple < TUPLE_HEADER_SIZE then Err InvalidArgument
      else Ok (write_at tuple 0 (le_bytes 8 xid)))"

definition stamp_hot_only :: "u8 list \<Rightarrow> TxnId \<Rightarrow> u8 list heap_result" where
  "stamp_hot_only tuple xid =
     (if length tuple < TUPLE_HEADER_SIZE then Err InvalidArgument
      else let owned = write_at tuple 0 (le_bytes 8 xid); infomask2 = u16_at owned 54
           in Ok (write_at owned 54 (le_bytes 2 (infomask2 OR HEAP_ONLY_TUPLE))))"

section \<open>Stamps in place\<close>

text \<open>
  The start every stamp and the row-lock gate share: the tuple must be \<open>Normal\<close>, and its header is
  read from the page.  The slice \<^verbatim>\<open>page[off..off + TUPLE_HEADER_SIZE]\<close> panics past the page end.
\<close>

definition slot_header :: "page \<Rightarrow> Tid \<Rightarrow> (nat \<times> TupleHeader) heap_result" where
  "slot_header page tid =
     obind (line_pointer page (slot_id tid)) (\<lambda>lp.
       if lp_flags lp \<noteq> Normal then Err (TupleNotFound tid)
       else let off = unat (lp_off lp) in
       if PAGE_SIZE < off + TUPLE_HEADER_SIZE then Panic
       else obind (tuple_header_read (slice_of page off (off + TUPLE_HEADER_SIZE))) (\<lambda>header.
         Ok (off, header)))"

definition write_slot_header :: "page \<Rightarrow> nat \<Rightarrow> TupleHeader \<Rightarrow> page" where
  "write_slot_header page off header =
     write_at page off (tuple_header_write header (slice_of page off (off + TUPLE_HEADER_SIZE)))"

definition clear_lock_bits :: "u16 \<Rightarrow> u16" where
  "clear_lock_bits infomask = infomask AND NOT (HEAP_XMAX_LOCK_ONLY OR HEAP_XMAX_IS_SHARE)"

definition stamp_deleted :: "page \<Rightarrow> Tid \<Rightarrow> TxnId \<Rightarrow> u32 \<Rightarrow> bool \<Rightarrow> page heap_result" where
  "stamp_deleted page tid xmax cid updated =
     obind (slot_header page tid) (\<lambda>(off, header).
       let infomask = (if updated then t_infomask header OR HEAP_UPDATED else t_infomask header)
       in Ok (write_slot_header page off
            (header\<lparr>t_xmax := xmax, t_cid := cid, t_infomask := clear_lock_bits infomask\<rparr>)))"

definition stamp_hot_update :: "page \<Rightarrow> Tid \<Rightarrow> TxnId \<Rightarrow> u32 \<Rightarrow> Tid \<Rightarrow> page heap_result" where
  "stamp_hot_update page tid xmax cid new_tid =
     obind (slot_header page tid) (\<lambda>(off, header).
       Ok (write_slot_header page off
         (header\<lparr>t_xmax := xmax, t_cid := cid,
                 t_infomask := clear_lock_bits (t_infomask header OR HEAP_UPDATED),
                 t_ctid := new_tid, t_infomask2 := t_infomask2 header OR HEAP_HOT_UPDATED\<rparr>)))"

definition stamp_lock_only :: "page \<Rightarrow> Tid \<Rightarrow> TxnId \<Rightarrow> u32 \<Rightarrow> bool \<Rightarrow> page heap_result" where
  "stamp_lock_only page tid locker cid shared =
     obind (slot_header page tid) (\<lambda>(off, header).
       let infomask = t_infomask header OR HEAP_XMAX_LOCK_ONLY
       in Ok (write_slot_header page off
            (header\<lparr>t_xmax := locker, t_cid := cid,
                    t_infomask := (if shared then infomask OR HEAP_XMAX_IS_SHARE
                                   else infomask AND NOT HEAP_XMAX_IS_SHARE)\<rparr>)))"

section \<open>HOT chains\<close>

definition visibility_xmax :: "TupleHeader \<Rightarrow> TxnId" where
  "visibility_xmax header =
     (if t_infomask header AND HEAP_XMAX_LOCK_ONLY \<noteq> 0 then TxnId_INVALID else t_xmax header)"

definition hot_updated :: "TupleHeader \<Rightarrow> bool" where
  "hot_updated header \<longleftrightarrow> t_infomask2 header AND HEAP_HOT_UPDATED \<noteq> 0"

definition heap_only :: "TupleHeader \<Rightarrow> bool" where
  "heap_only header \<longleftrightarrow> t_infomask2 header AND HEAP_ONLY_TUPLE \<noteq> 0"

definition header_visible :: "(TxnId \<Rightarrow> TxnState) \<Rightarrow> Snapshot \<Rightarrow> TupleHeader \<Rightarrow> bool" where
  "header_visible get_state snap header =
     is_visible get_state (t_xmin header) (visibility_xmax header) (t_cid header) snap"

text \<open>\<^verbatim>\<open>TupleHeader::read_from(&bytes[..TUPLE_HEADER_SIZE])\<close>.\<close>

definition front_header :: "u8 list \<Rightarrow> TupleHeader heap_result" where
  "front_header bytes =
     (if length bytes < TUPLE_HEADER_SIZE then Panic else tuple_header_read (take TUPLE_HEADER_SIZE bytes))"

text \<open>
  The loop of \<^verbatim>\<open>follow_hot_chain\<close>; its bound is the slot count, whose cast to 16 bits loses nothing.
\<close>

primrec hot_walk ::
    "nat \<Rightarrow> page \<Rightarrow> PageId \<Rightarrow> Snapshot \<Rightarrow> (TxnId \<Rightarrow> TxnState) \<Rightarrow> Tid \<Rightarrow> Tid option heap_result" where
  "hot_walk 0 page pid snap get_state tid = Err Corrupted"
| "hot_walk (Suc n) page pid snap get_state tid =
     (if page_id tid \<noteq> pid then Ok None
      else obind (tuple_at page (slot_id tid)) (\<lambda>t.
        case t of
          None \<Rightarrow> Ok None
        | Some bytes \<Rightarrow>
            obind (front_header bytes) (\<lambda>header.
              if header_visible get_state snap header then Ok (Some tid)
              else if hot_updated header \<and> t_ctid header \<noteq> tid
              then hot_walk n page pid snap get_state (t_ctid header)
              else Ok None)))"

definition follow_hot_chain ::
    "page \<Rightarrow> PageId \<Rightarrow> Tid \<Rightarrow> Snapshot \<Rightarrow> (TxnId \<Rightarrow> TxnState) \<Rightarrow> Tid option heap_result" where
  "follow_hot_chain page pid start snap get_state = hot_walk (slot_count page) page pid snap get_state start"

fun hot_links :: "page \<Rightarrow> nat list \<Rightarrow> (Tid, u16) hmap \<Rightarrow> (Tid, u16) hmap heap_result" where
  "hot_links page [] links = Ok links"
| "hot_links page (slot # slots) links =
     obind (tuple_at page (of_nat slot)) (\<lambda>t.
       case t of
         None \<Rightarrow> hot_links page slots links
       | Some bytes \<Rightarrow>
           obind (front_header bytes) (\<lambda>header.
             hot_links page slots
               (if hot_updated header then hm_insert (t_ctid header) (of_nat slot) links else links)))"

primrec root_walk :: "nat \<Rightarrow> page \<Rightarrow> PageId \<Rightarrow> (Tid, u16) hmap \<Rightarrow> Tid \<Rightarrow> Tid heap_result" where
  "root_walk 0 page pid links cur = Err Corrupted"
| "root_walk (Suc n) page pid links cur =
     obind (tuple_at page (slot_id cur)) (\<lambda>t.
       case t of
         None \<Rightarrow> Ok cur
       | Some bytes \<Rightarrow>
           obind (front_header bytes) (\<lambda>header.
             if \<not> heap_only header then Ok cur
             else case hm_get links cur of
               Some slot \<Rightarrow> root_walk n page pid links \<lparr>page_id = pid, slot_id = slot\<rparr>
             | None \<Rightarrow> Ok cur))"

definition hot_chain_root :: "page \<Rightarrow> PageId \<Rightarrow> Tid \<Rightarrow> Tid heap_result" where
  "hot_chain_root page pid tid =
     obind (hot_links page [0..<slot_count page] []) (\<lambda>links. root_walk (slot_count page) page pid links tid)"

section \<open>Scanning a page\<close>

text \<open>The body of the loop of \<^verbatim>\<open>scan\<close> over the slots of a page.\<close>

definition scan_slot ::
    "page \<Rightarrow> PageId \<Rightarrow> ColumnType list \<Rightarrow> Snapshot \<Rightarrow> (TxnId \<Rightarrow> TxnState) \<Rightarrow> nat \<Rightarrow>
     (Tid \<times> Datum option list) list heap_result" where
  "scan_slot page pid columns snap get_state slot =
     obind (tuple_at page (of_nat slot)) (\<lambda>t.
       case t of
         None \<Rightarrow> Ok []
       | Some bytes \<Rightarrow>
           obind (decode_tuple bytes columns) (\<lambda>(header, vals).
             if heap_only header then Ok []
             else let self_tid = \<lparr>page_id = pid, slot_id = of_nat slot\<rparr> in
             if header_visible get_state snap header then Ok [(self_tid, vals)]
             else if hot_updated header \<and> t_ctid header \<noteq> self_tid
             then obind (follow_hot_chain page pid (t_ctid header) snap get_state) (\<lambda>r.
               case r of
                 None \<Rightarrow> Ok []
               | Some visible_tid \<Rightarrow>
                   obind (tuple_at page (slot_id visible_tid)) (\<lambda>c.
                     case c of
                       None \<Rightarrow> Panic
                     | Some chain_bytes \<Rightarrow>
                         obind (decode_tuple chain_bytes columns) (\<lambda>(_, chain_values).
                           Ok [(visible_tid, chain_values)])))
             else Ok []))"

fun scan_slots ::
    "page \<Rightarrow> PageId \<Rightarrow> ColumnType list \<Rightarrow> Snapshot \<Rightarrow> (TxnId \<Rightarrow> TxnState) \<Rightarrow> nat list \<Rightarrow>
     (Tid \<times> Datum option list) list heap_result" where
  "scan_slots page pid columns snap get_state [] = Ok []"
| "scan_slots page pid columns snap get_state (slot # slots) =
     obind (scan_slot page pid columns snap get_state slot) (\<lambda>rows.
     obind (scan_slots page pid columns snap get_state slots) (\<lambda>more. Ok (rows @ more)))"

definition scan_page ::
    "page \<Rightarrow> PageId \<Rightarrow> ColumnType list \<Rightarrow> Snapshot \<Rightarrow> (TxnId \<Rightarrow> TxnState) \<Rightarrow>
     (Tid \<times> Datum option list) list heap_result" where
  "scan_page page pid columns snap get_state =
     (if pd_upper (page_header page) = 0 then Ok []
      else scan_slots page pid columns snap get_state [0..<slot_count page])"

section \<open>Dead tuples\<close>

definition header_dead :: "(TxnId \<Rightarrow> TxnState) \<Rightarrow> TxnId \<Rightarrow> TupleHeader \<Rightarrow> bool" where
  "header_dead get_state oldest_xmin header \<longleftrightarrow>
     get_state (t_xmin header) = Aborted \<or>
     (t_infomask header AND HEAP_XMAX_LOCK_ONLY = 0 \<and> t_xmax header \<noteq> TxnId_INVALID \<and>
      t_xmax header < oldest_xmin \<and> get_state (t_xmax header) = Committed)"

text \<open>An undecodable tuple is skipped.\<close>

fun dead_slots ::
    "page \<Rightarrow> PageId \<Rightarrow> TxnId \<Rightarrow> (TxnId \<Rightarrow> TxnState) \<Rightarrow> nat list \<Rightarrow> Tid list heap_result" where
  "dead_slots page pid oldest_xmin get_state [] = Ok []"
| "dead_slots page pid oldest_xmin get_state (slot # slots) =
     obind (tuple_at page (of_nat slot)) (\<lambda>t.
       let dead_here =
         (case t of
            None \<Rightarrow> False
          | Some bytes \<Rightarrow>
              (case tuple_header_read bytes of
                 Ok header \<Rightarrow> header_dead get_state oldest_xmin header
               | _ \<Rightarrow> False))
       in obind (dead_slots page pid oldest_xmin get_state slots) (\<lambda>rest.
            Ok (if dead_here then \<lparr>page_id = pid, slot_id = of_nat slot\<rparr> # rest else rest)))"

definition dead_of_page :: "page \<Rightarrow> PageId \<Rightarrow> TxnId \<Rightarrow> (TxnId \<Rightarrow> TxnState) \<Rightarrow> Tid list heap_result" where
  "dead_of_page page pid oldest_xmin get_state =
     (if pd_upper (page_header page) = 0 then Ok []
      else dead_slots page pid oldest_xmin get_state [0..<slot_count page])"

fun read_headers :: "page \<Rightarrow> nat list \<Rightarrow> TupleHeader option list heap_result" where
  "read_headers page [] = Ok []"
| "read_headers page (slot # slots) =
     obind (tuple_at page (of_nat slot)) (\<lambda>t.
       let header =
         (case t of
            None \<Rightarrow> None
          | Some bytes \<Rightarrow> (case tuple_header_read bytes of Ok h \<Rightarrow> Some h | _ \<Rightarrow> None))
       in obind (read_headers page slots) (\<lambda>rest. Ok (header # rest)))"

text \<open>The forward walk of \<^verbatim>\<open>classify_dead_tuples\<close>: the chain, and whether it ended within the bound.\<close>

primrec collect_chain ::
    "nat \<Rightarrow> TupleHeader option list \<Rightarrow> PageId \<Rightarrow> Tid \<Rightarrow> Tid list \<times> bool" where
  "collect_chain 0 headers pid cur = ([], False)"
| "collect_chain (Suc n) headers pid cur =
     (if length headers \<le> unat (slot_id cur) then ([cur], True)
      else case headers ! unat (slot_id cur) of
        Some h \<Rightarrow>
          if hot_updated h \<and> t_ctid h \<noteq> cur \<and> page_id (t_ctid h) = pid
          then let (chain, terminated) = collect_chain n headers pid (t_ctid h) in (cur # chain, terminated)
          else ([cur], True)
      | None \<Rightarrow> ([cur], True))"

definition chain_root ::
    "page \<Rightarrow> PageId \<Rightarrow> TupleHeader \<Rightarrow> Tid \<Rightarrow> Tid heap_result" where
  "chain_root page pid header tid =
     (if heap_only header then hot_chain_root page pid tid else Ok tid)"

definition fully_dead :: "TupleHeader option list \<Rightarrow> Tid list \<Rightarrow> Tid list \<Rightarrow> bool" where
  "fully_dead headers dead chain \<longleftrightarrow>
     list_all (\<lambda>t. unat (slot_id t) < length headers \<and> headers ! unat (slot_id t) \<noteq> None) chain \<and>
     list_all (\<lambda>t. t \<in> set dead) chain"

text \<open>
  The loop of \<^verbatim>\<open>classify_dead_tuples\<close> over the dead slots of one page, with the visited slots, the
  index keys and the kill list it has built so far.
\<close>

fun classify_slots ::
    "page \<Rightarrow> PageId \<Rightarrow> ColumnType list \<Rightarrow> TupleHeader option list \<Rightarrow> Tid list \<Rightarrow> u16 list \<Rightarrow>
     u16 list \<Rightarrow> (Tid \<times> Datum option list) list \<Rightarrow> u16 list \<Rightarrow>
     ((Tid \<times> Datum option list) list \<times> u16 list) heap_result" where
  "classify_slots page pid columns headers dead visited [] keys kills = Ok (keys, kills)"
| "classify_slots page pid columns headers dead visited (slot # slots) keys kills =
     (if length headers \<le> unat slot \<or> slot \<in> set visited
      then classify_slots page pid columns headers dead visited slots keys kills
      else case headers ! unat slot of
        None \<Rightarrow> classify_slots page pid columns headers dead (slot # visited) slots keys kills
      | Some h \<Rightarrow>
          obind (chain_root page pid h \<lparr>page_id = pid, slot_id = slot\<rparr>) (\<lambda>root.
          let (chain, terminated) = collect_chain (length headers) headers pid root in
          if \<not> terminated then Err Corrupted
          else let visited = map slot_id chain @ slot # visited in
          if \<not> fully_dead headers dead chain
          then classify_slots page pid columns headers dead visited slots keys kills
          else obind (tuple_at page (slot_id root)) (\<lambda>t.
            case t of
              None \<Rightarrow> Panic
            | Some root_bytes \<Rightarrow>
                obind (decode_tuple root_bytes columns) (\<lambda>(_, vals).
                  classify_slots page pid columns headers dead visited slots
                    (keys @ [(root, vals)]) (kills @ map slot_id chain)))))"

definition classify_page ::
    "page \<Rightarrow> PageId \<Rightarrow> ColumnType list \<Rightarrow> Tid list \<Rightarrow> u16 list \<Rightarrow>
     ((Tid \<times> Datum option list) list \<times> u16 list) heap_result" where
  "classify_page page pid columns dead slots =
     (if pd_upper (page_header page) = 0 then Ok ([], [])
      else obind (read_headers page [0..<slot_count page]) (\<lambda>headers.
           obind (classify_slots page pid columns headers dead [] (sort slots) [] []) (\<lambda>(keys, kills).
           Ok (keys, remdups (sort kills)))))"

section \<open>The headers a page holds\<close>

definition hdr :: "page \<Rightarrow> nat \<Rightarrow> TupleHeader option" where
  "hdr page s =
     (case tuples page s of
        Some (f, bytes) \<Rightarrow> (case tuple_header_read bytes of Ok h \<Rightarrow> Some h | _ \<Rightarrow> None)
      | None \<Rightarrow> None)"

definition heap_ok :: "page \<Rightarrow> bool" where
  "heap_ok page \<longleftrightarrow> page_inv page \<and>
     (\<forall>s f bytes. tuples page s = Some (f, bytes) \<longrightarrow> f = Normal \<and> (\<exists>h. tuple_header_read bytes = Ok h))"

lemma heap_okD:
  assumes "heap_ok page"
  shows "page_inv page" and "page_ok page" and "geometry_ok page"
    and "tuples page s = Some (f, bytes) \<Longrightarrow> f = Normal"
    and "tuples page s = Some (f, bytes) \<Longrightarrow> \<exists>h. tuple_header_read bytes = Ok h \<and> hdr page s = Some h"
proof -
  show "\<exists>h. tuple_header_read bytes = Ok h \<and> hdr page s = Some h" if "tuples page s = Some (f, bytes)"
    using assms that unfolding heap_ok_def hdr_def by fastforce
qed (use assms in \<open>auto simp: heap_ok_def page_inv_def page_ok_def\<close>)

lemma header_read_Ok:
  assumes "tuple_header_read bytes = Ok h"
  shows "64 \<le> length bytes" and "length (t_trace_id h) = 16" and "tuple_header_read (take 64 bytes) = Ok h"
    and "front_header bytes = Ok h"
proof -
  show len: "64 \<le> length bytes" and "length (t_trace_id h) = 16"
    using assms by (auto simp: tuple_header_read_def TUPLE_HEADER_SIZE_def split: if_splits)
  have "slice_of (take 64 bytes) a b = slice_of bytes a b" if "b \<le> 64" for a b
    using that by (simp add: slice_of_def drop_take min_def)
  then show t: "tuple_header_read (take 64 bytes) = Ok h"
    using assms len by (simp add: tuple_header_read_def TUPLE_HEADER_SIZE_def u16_at_def split: if_splits)
  show "front_header bytes = Ok h" using t len by (simp add: front_header_def TUPLE_HEADER_SIZE_def)
qed

lemma heap_tuple_at:
  assumes "heap_ok page"
  shows "tuple_at page s = Ok (map_option snd (tuples page (unat s)))"
  using page_inv_lookup [OF heap_okD(1) [OF assms], of s] heap_okD(4) [OF assms, of "unat s"]
  by (auto split: option.splits prod.splits)

lemma hdr_None_iff: "heap_ok page \<Longrightarrow> hdr page s = None \<longleftrightarrow> tuples page s = None"
  using heap_okD(5) [of page s] by (cases "tuples page s") (auto simp: hdr_def)

lemma hdr_Some_used: "hdr page s = Some h \<Longrightarrow> used page s"
  by (auto simp: hdr_def tuples_def split: option.splits if_splits)

lemma hdr_slot: "hdr page s = Some h \<Longrightarrow> s < slot_count page"
  using hdr_Some_used [of page s h] by (simp add: used_def)

lemma hdr_tuple:
  assumes "heap_ok page" and "hdr page s = Some h"
  obtains bytes where "tuples page s = Some (Normal, bytes)" and "tuple_header_read bytes = Ok h"
  using assms heap_okD(4) [OF assms(1), of s] by (auto simp: hdr_def split: option.splits prod.splits outcome.splits)

section \<open>Writing inside a tuple\<close>

lemma slice_of_write_inside:
  assumes "lo \<le> a" and "a + length bs \<le> hi" and "hi \<le> length xs"
  shows "slice_of (write_at xs a bs) lo hi = write_at (slice_of xs lo hi) (a - lo) bs"
proof (rule nth_equalityI)
  show "length (slice_of (write_at xs a bs) lo hi) = length (write_at (slice_of xs lo hi) (a - lo) bs)"
    using assms by simp
  fix i assume "i < length (slice_of (write_at xs a bs) lo hi)"
  then have i: "lo + i < hi" using assms by simp
  have "slice_of (write_at xs a bs) lo hi ! i = write_at xs a bs ! (lo + i)"
    using assms i by (simp add: nth_slice_of)
  also have "\<dots> = write_at (slice_of xs lo hi) (a - lo) bs ! i"
    using assms i by (simp add: nth_write_at nth_slice_of) (auto intro: arg_cong [where f = "nth bs"])
  finally show "slice_of (write_at xs a bs) lo hi ! i = write_at (slice_of xs lo hi) (a - lo) bs ! i" .
qed

lemma write_in_tuple:
  assumes ok: "page_ok page" and u: "used page s"
    and a: "region_lo page s \<le> a" and b: "a + length bs \<le> region_hi page s"
  defines "page' \<equiv> write_at page a bs"
  shows "page_ok page'" and "page_header page' = page_header page" and "slot_count page' = slot_count page"
    and "tuples page' = (tuples page)(s \<mapsto> (lp_flags (lp_at page s),
      write_at (slice_of page (region_lo page s) (region_hi page s)) (a - region_lo page s) bs))"
    and "page_pd_lsn page' = page_pd_lsn page"
    and "special_of page \<le> c \<Longrightarrow> d \<le> 8192 \<Longrightarrow> slice_of page' c d = slice_of page c d"
proof -
  note g = page_okD(1) [OF ok] and geo = geometry_bounds [OF page_okD(1) [OF ok]]
  note r = page_okD(2-4) [OF ok u]
  have lo: "lower_of page \<le> a" "a + length bs \<le> special_of page" "32 \<le> a" "a + length bs \<le> 8192"
    using r a b geo by linarith+
  show ph: "page_header page' = page_header page"
    unfolding page'_def using lo geo by (intro header_fields_write) (simp_all add: PAGE_HEADER_SIZE_def)
  then show sc: "slot_count page' = slot_count page" by (simp add: slot_count_def)
  have lp: "lp_at page' t = lp_at page t" if "t < slot_count page" for t
    unfolding page'_def using slots_in_page [OF g that] lo geo by (intro lp_at_write) linarith+
  have us: "used page' t = used page t" for t using lp by (auto simp: used_def sc)
  have len: "length page' = 8192" unfolding page'_def using lo geo by simp
  have lpu: "lp_at page' t = lp_at page t" if "used page t" for t using that lp by (simp add: used_def)
  show "page_ok page'"
    using ok len by (auto simp: page_ok_def geometry_ok_def ph us lpu PAGE_SIZE_def)
  show "page_pd_lsn page' = page_pd_lsn page"
    unfolding page_pd_lsn_def page'_def using lo geo by (subst slice_of_write_disjoint) auto
  show "slice_of page' c d = slice_of page c d" if "special_of page \<le> c" "d \<le> 8192"
    unfolding page'_def using that lo geo by (intro slice_of_write_disjoint) linarith+
  show "tuples page' = (tuples page)(s \<mapsto> (lp_flags (lp_at page s),
      write_at (slice_of page (region_lo page s) (region_hi page s)) (a - region_lo page s) bs))"
  proof
    fix t
    have in_s: "slice_of page' (region_lo page s) (region_hi page s) =
        write_at (slice_of page (region_lo page s) (region_hi page s)) (a - region_lo page s) bs"
      unfolding page'_def using a b r geo by (intro slice_of_write_inside) linarith+
    have out: "slice_of page' (region_lo page t) (region_hi page t) = slice_of page (region_lo page t) (region_hi page t)"
      if "used page t" "t \<noteq> s"
      unfolding page'_def using page_okD(5) [OF ok u that(1)] page_okD(2-4) [OF ok that(1)] that(2) a b lo geo
      by (intro slice_of_write_disjoint) linarith+
    show "tuples page' t = ((tuples page)(s \<mapsto> (lp_flags (lp_at page s),
      write_at (slice_of page (region_lo page s) (region_hi page s)) (a - region_lo page s) bs))) t"
    proof (cases "t = s")
      case True
      then show ?thesis using in_s u by (simp add: tuples_def us lpu)
    next
      case False
      then show ?thesis using out by (simp add: tuples_def us lpu)
    qed
  qed
qed

text \<open>A header stamp changes the header of its own tuple, and nothing else.\<close>

lemma slot_header_Ok:
  assumes ok: "heap_ok page"
  shows "slot_header page tid = Ok (off, h) \<longleftrightarrow>
    hdr page (unat (slot_id tid)) = Some h \<and> off = region_lo page (unat (slot_id tid))"
proof -
  let ?s = "unat (slot_id tid)"
  note g = heap_okD(3) [OF ok] and geo = geometry_bounds [OF heap_okD(3) [OF ok]]
  show ?thesis
  proof (cases "used page ?s")
    case True
    then have t: "tuples page ?s = Some (lp_flags (lp_at page ?s), slice_of page (region_lo page ?s) (region_hi page ?s))"
      by (simp add: tuples_def)
    then have fl: "lp_flags (lp_at page ?s) = Normal" using heap_okD(4) [OF ok] by blast
    obtain h' where h': "tuple_header_read (slice_of page (region_lo page ?s) (region_hi page ?s)) = Ok h'"
      "hdr page ?s = Some h'" using heap_okD(5) [OF ok t] by blast
    note len = header_read_Ok(1,3) [OF h'(1)]
    have hi: "region_hi page ?s \<le> 8192" using page_okD(4) [OF heap_okD(2) [OF ok] True] geo by linarith
    have room: "region_lo page ?s + 64 \<le> region_hi page ?s" using len(1) by simp
    have "take 64 (slice_of page (region_lo page ?s) (region_hi page ?s)) = slice_of page (region_lo page ?s) (region_lo page ?s + 64)"
      using room by (simp add: slice_of_def min_def)
    then have "slot_header page tid = Ok (region_lo page ?s, h')"
      using True fl len(2) room hi
      by (simp add: slot_header_def line_pointer_ok [OF g] used_def Let_def PAGE_SIZE_def TUPLE_HEADER_SIZE_def)
    then show ?thesis using h' by auto
  next
    case False
    then have "hdr page ?s = None" by (simp add: hdr_def tuples_def)
    then show ?thesis
      using False by (auto simp: slot_header_def line_pointer_ok [OF g] used_def split: if_splits)
  qed
qed

lemma write_slot_header_effect:
  assumes ok: "heap_ok page" and h: "hdr page s = Some h" and tr: "length (t_trace_id h') = 16"
  defines "page' \<equiv> write_slot_header page (region_lo page s) h'"
  shows "heap_ok page'" and "hdr page' = (hdr page)(s \<mapsto> h')" and "slot_count page' = slot_count page"
    and "page_header page' = page_header page" and "page_pd_lsn page' = page_pd_lsn page"
    and "tuples page' = (tuples page)(s \<mapsto> (Normal, tuple_header_bytes h' @ drop 64 (snd (the (tuples page s)))))"
    and "special_of page \<le> c \<Longrightarrow> d \<le> 8192 \<Longrightarrow> slice_of page' c d = slice_of page c d"
proof -
  let ?lo = "region_lo page s" and ?hi = "region_hi page s"
  obtain bs where t: "tuples page s = Some (Normal, bs)" and r: "tuple_header_read bs = Ok h"
    using hdr_tuple [OF ok h] .
  note u = hdr_Some_used [OF h]
  have bs: "bs = slice_of page ?lo ?hi" and fl: "lp_flags (lp_at page s) = Normal"
    using t u by (auto simp: tuples_def)
  have room: "?lo + 64 \<le> ?hi" using header_read_Ok(1) [OF r] bs by simp
  have p': "page' = write_at page ?lo (tuple_header_bytes h')"
    unfolding page'_def write_slot_header_def tuple_header_write_eq [OF tr] by (simp add: TUPLE_HEADER_SIZE_def)
  note len = length_tuple_header_bytes [OF tr]
  have fits: "?lo + length (tuple_header_bytes h') \<le> ?hi" using room len by simp
  note w = write_in_tuple [OF heap_okD(2) [OF ok] u order_refl fits, folded p']
  show "slot_count page' = slot_count page" "page_header page' = page_header page" "page_pd_lsn page' = page_pd_lsn page"
    "special_of page \<le> c \<Longrightarrow> d \<le> 8192 \<Longrightarrow> slice_of page' c d = slice_of page c d"
    using w by auto
  show tp: "tuples page' = (tuples page)(s \<mapsto> (Normal, tuple_header_bytes h' @ drop 64 (snd (the (tuples page s)))))"
    using w(4) by (simp add: fl t bs write_at_def len)
  have rd: "tuple_header_read (tuple_header_bytes h' @ x) = Ok h'" for x by (rule tuple_header_read_bytes [OF tr])
  show "hdr page' = (hdr page)(s \<mapsto> h')" by (rule ext) (simp add: hdr_def tp rd)
  have "no_redirect page'" using ok tp by (auto simp: heap_ok_def page_inv_def no_redirect_def)
  then show "heap_ok page'" using w(1) ok tp rd by (auto simp: heap_ok_def page_inv_def)
qed

text \<open>What a stamp does to a header; the chain link changes only in a HOT update.\<close>

definition deleted_header :: "TxnId \<Rightarrow> u32 \<Rightarrow> bool \<Rightarrow> TupleHeader \<Rightarrow> TupleHeader" where
  "deleted_header xmax cid updated header = header\<lparr>t_xmax := xmax, t_cid := cid,
     t_infomask := clear_lock_bits (if updated then t_infomask header OR HEAP_UPDATED else t_infomask header)\<rparr>"

definition hot_header :: "TxnId \<Rightarrow> u32 \<Rightarrow> Tid \<Rightarrow> TupleHeader \<Rightarrow> TupleHeader" where
  "hot_header xmax cid new_tid header = (deleted_header xmax cid True header)\<lparr>t_ctid := new_tid,
     t_infomask2 := t_infomask2 header OR HEAP_HOT_UPDATED\<rparr>"

definition locked_header :: "TxnId \<Rightarrow> u32 \<Rightarrow> bool \<Rightarrow> TupleHeader \<Rightarrow> TupleHeader" where
  "locked_header locker cid shared header =
     (let infomask = t_infomask header OR HEAP_XMAX_LOCK_ONLY
      in header\<lparr>t_xmax := locker, t_cid := cid,
           t_infomask := (if shared then infomask OR HEAP_XMAX_IS_SHARE else infomask AND NOT HEAP_XMAX_IS_SHARE)\<rparr>)"

definition stamps :: "page \<Rightarrow> Tid \<Rightarrow> (TupleHeader \<Rightarrow> TupleHeader) \<Rightarrow> page \<Rightarrow> bool" where
  "stamps page tid f page' \<longleftrightarrow> (\<exists>h. hdr page (unat (slot_id tid)) = Some h \<and>
     page' = write_slot_header page (region_lo page (unat (slot_id tid))) (f h))"

lemma stamp_Ok_iff:
  assumes "heap_ok page"
  shows "stamp_deleted page tid xmax cid updated = Ok page' \<longleftrightarrow> stamps page tid (deleted_header xmax cid updated) page'"
    and "stamp_hot_update page tid xmax cid new_tid = Ok page' \<longleftrightarrow> stamps page tid (hot_header xmax cid new_tid) page'"
    and "stamp_lock_only page tid xmax cid shared = Ok page' \<longleftrightarrow> stamps page tid (locked_header xmax cid shared) page'"
  unfolding stamp_deleted_def stamp_hot_update_def stamp_lock_only_def stamps_def obind_eq_Ok split_paired_Ex
    slot_header_Ok [OF assms]
  by (auto simp: deleted_header_def hot_header_def locked_header_def Let_def)

lemma stamps_effect:
  assumes "heap_ok page" and "stamps page tid f page'" and "\<And>h. t_trace_id (f h) = t_trace_id h"
  defines "s \<equiv> unat (slot_id tid)"
  obtains h where "hdr page s = Some h" and "heap_ok page'" and "hdr page' = (hdr page)(s \<mapsto> f h)"
    and "slot_count page' = slot_count page" and "page_header page' = page_header page"
    and "page_pd_lsn page' = page_pd_lsn page"
    and "tuples page' = (tuples page)(s \<mapsto> (Normal, tuple_header_bytes (f h) @ drop 64 (snd (the (tuples page s)))))"
    and "\<And>c d. special_of page \<le> c \<Longrightarrow> d \<le> 8192 \<Longrightarrow> slice_of page' c d = slice_of page c d"
proof -
  obtain h where h: "hdr page s = Some h" and p': "page' = write_slot_header page (region_lo page s) (f h)"
    using assms(2) by (auto simp: stamps_def s_def)
  obtain bs where "tuple_header_read bs = Ok h" using hdr_tuple [OF assms(1) h] .
  then have "length (t_trace_id (f h)) = 16" using header_read_Ok(2) assms(3) by simp
  note w = write_slot_header_effect [OF assms(1) h this, folded p']
  show ?thesis using that [OF h w] by blast
qed

lemma header_funs [simp]:
  "t_trace_id (deleted_header x c u h) = t_trace_id h" "t_trace_id (hot_header x c t h) = t_trace_id h"
  "t_trace_id (locked_header x c b h) = t_trace_id h"
  "t_xmin (deleted_header x c u h) = t_xmin h" "t_xmin (hot_header x c t h) = t_xmin h" "t_xmin (locked_header x c b h) = t_xmin h"
  "t_xmax (deleted_header x c u h) = x" "t_xmax (hot_header x c t h) = x" "t_xmax (locked_header x c b h) = x"
  "t_cid (deleted_header x c u h) = c" "t_cid (hot_header x c t h) = c" "t_cid (locked_header x c b h) = c"
  "t_ctid (deleted_header x c u h) = t_ctid h" "t_ctid (hot_header x c t h) = t" "t_ctid (locked_header x c b h) = t_ctid h"
  "t_infomask2 (deleted_header x c u h) = t_infomask2 h" "t_infomask2 (locked_header x c b h) = t_infomask2 h"
  "t_infomask2 (hot_header x c t h) = t_infomask2 h OR HEAP_HOT_UPDATED"
  by (simp_all add: deleted_header_def hot_header_def locked_header_def Let_def)

section \<open>The structure of HOT chains\<close>

text \<open>The links between the slots of a page, and what makes them chains.\<close>

type_synonym headers = "nat \<Rightarrow> TupleHeader option"

definition hot_edges :: "headers \<Rightarrow> (nat \<times> nat) set" where
  "hot_edges H = {(a, b). \<exists>h. H a = Some h \<and> hot_updated h \<and> b = unat (slot_id (t_ctid h))}"

definition hot_ok :: "PageId \<Rightarrow> headers \<Rightarrow> bool" where
  "hot_ok pid H \<longleftrightarrow>
     (\<forall>a h. H a = Some h \<longrightarrow> hot_updated h \<longrightarrow>
        page_id (t_ctid h) = pid \<and> (\<exists>h'. H (unat (slot_id (t_ctid h))) = Some h' \<and> heap_only h')) \<and>
     (\<forall>a b c. (a, c) \<in> hot_edges H \<longrightarrow> (b, c) \<in> hot_edges H \<longrightarrow> a = b) \<and>
     acyclic (hot_edges H)"

text \<open>The slots of the chain a slot belongs to.\<close>

definition chain_of :: "headers \<Rightarrow> nat \<Rightarrow> nat set" where
  "chain_of H s = (hot_edges H \<union> (hot_edges H)\<inverse>)\<^sup>* `` {s}"

lemma hot_okD:
  assumes "hot_ok pid H" and "H a = Some h" and "hot_updated h"
  shows "page_id (t_ctid h) = pid" and "\<exists>h'. H (unat (slot_id (t_ctid h))) = Some h' \<and> heap_only h'"
    and "(a, unat (slot_id (t_ctid h))) \<in> hot_edges H" and "unat (slot_id (t_ctid h)) \<noteq> a"
proof -
  show e: "(a, unat (slot_id (t_ctid h))) \<in> hot_edges H" using assms(2,3) by (auto simp: hot_edges_def)
  have "acyclic (hot_edges H)" using assms(1) by (simp add: hot_ok_def)
  then show "unat (slot_id (t_ctid h)) \<noteq> a" using e by (auto simp: acyclic_def)
qed (use assms in \<open>auto simp: hot_ok_def\<close>)

lemma hot_ok_inj: "hot_ok pid H \<Longrightarrow> (a, c) \<in> hot_edges H \<Longrightarrow> (b, c) \<in> hot_edges H \<Longrightarrow> a = b"
  by (simp add: hot_ok_def)

lemma hot_edges_single: "(a, b) \<in> hot_edges H \<Longrightarrow> (a, c) \<in> hot_edges H \<Longrightarrow> b = c"
  by (auto simp: hot_edges_def)

lemma hot_edges_fun: "H a = Some h \<Longrightarrow> hot_updated h \<Longrightarrow> (a, b) \<in> hot_edges H \<longleftrightarrow> b = unat (slot_id (t_ctid h))"
  by (auto simp: hot_edges_def)

lemma hot_edges_end: "H a = None \<or> (\<exists>h. H a = Some h \<and> \<not> hot_updated h) \<Longrightarrow> (a, b) \<notin> hot_edges H"
  by (auto simp: hot_edges_def)

lemma hot_ok_target: "hot_ok pid H \<Longrightarrow> (a, b) \<in> hot_edges H \<Longrightarrow> \<exists>h. H b = Some h \<and> heap_only h"
  by (fastforce simp: hot_ok_def hot_edges_def)

lemma hot_ok_dom:
  assumes "hot_ok pid H" and "(a, b) \<in> hot_edges H"
  shows "H a \<noteq> None \<and> H b \<noteq> None"
proof -
  have "H a \<noteq> None" using assms(2) by (auto simp: hot_edges_def)
  then show ?thesis using hot_ok_target [OF assms] by auto
qed

text \<open>In a finite acyclic relation the reachable set shrinks along an edge.\<close>

lemma reach_Image: "(a, b) \<in> E \<Longrightarrow> E\<^sup>* `` {b} \<subseteq> E\<^sup>* `` {a}"
  by (auto intro: converse_rtrancl_into_rtrancl)

lemma reach_shrinks:
  assumes "acyclic E" and "(a, b) \<in> E" and "finite (E\<^sup>* `` {a})"
  shows "card (E\<^sup>* `` {b}) < card (E\<^sup>* `` {a})"
proof (rule psubset_card_mono [OF assms(3)])
  have "(b, a) \<notin> E\<^sup>*" using assms(1,2) by (meson acyclic_def rtrancl_into_trancl2)
  then show "E\<^sup>* `` {b} \<subset> E\<^sup>* `` {a}" using reach_Image [OF assms(2)] by blast
qed

lemma reach_unfold: "E\<^sup>* `` {a} = insert a (\<Union>b \<in> {b. (a, b) \<in> E}. E\<^sup>* `` {b})"
  by (auto intro: converse_rtrancl_into_rtrancl elim: converse_rtranclE)

lemma reach_edge:
  assumes "H a = Some h" and "hot_updated h"
  shows "(hot_edges H)\<^sup>* `` {a} = insert a ((hot_edges H)\<^sup>* `` {unat (slot_id (t_ctid h))})"
proof -
  have "{b. (a, b) \<in> hot_edges H} = {unat (slot_id (t_ctid h))}" using hot_edges_fun [of H a h, OF assms] by blast
  then show ?thesis by (subst reach_unfold) simp
qed

lemma reach_end: "(\<And>b. (a, b) \<notin> E) \<Longrightarrow> E\<^sup>* `` {a} = {a}"
  by (subst reach_unfold) auto

lemma reach_dom:
  assumes "hot_ok pid H" and "(a, b) \<in> (hot_edges H)\<^sup>*" and "H a \<noteq> None"
  shows "H b \<noteq> None"
  using assms(2,3) by (induction rule: rtrancl_induct) (use hot_ok_dom [OF assms(1)] in blast)+

lemma reach_back_dom:
  assumes "hot_ok pid H" and "(a, b) \<in> (hot_edges H)\<^sup>*" and "H b \<noteq> None"
  shows "H a \<noteq> None"
  using assms(2,3) by (induction rule: converse_rtrancl_induct) (use hot_ok_dom [OF assms(1)] in blast)+

text \<open>A chain is what its first slot reaches.\<close>

lemma chain_of_root:
  assumes ok: "hot_ok pid H" and root: "\<And>a. (a, r) \<notin> hot_edges H" and rs: "(r, s) \<in> (hot_edges H)\<^sup>*"
  shows "chain_of H s = (hot_edges H)\<^sup>* `` {r}"
proof
  let ?E = "hot_edges H"
  show "?E\<^sup>* `` {r} \<subseteq> chain_of H s"
  proof
    fix x assume "x \<in> ?E\<^sup>* `` {r}"
    then have "(r, x) \<in> (?E \<union> ?E\<inverse>)\<^sup>*" by (auto intro: rtrancl_mono [THEN subsetD])
    moreover have "(s, r) \<in> (?E\<inverse>)\<^sup>*" using rs by (simp add: rtrancl_converse)
    then have "(s, r) \<in> (?E \<union> ?E\<inverse>)\<^sup>*" by (rule rtrancl_mono [THEN subsetD, rotated]) blast
    ultimately show "x \<in> chain_of H s" unfolding chain_of_def by auto
  qed
  have pred: "(r, a) \<in> ?E\<^sup>*" if "(a, b) \<in> ?E" "(r, b) \<in> ?E\<^sup>*" for a b
    using that(2)
  proof (cases rule: rtranclE)
    case base
    then show ?thesis using root that(1) by simp
  next
    case (step c)
    then show ?thesis using hot_ok_inj [OF ok that(1) step(2)] by simp
  qed
  show "chain_of H s \<subseteq> ?E\<^sup>* `` {r}"
  proof
    fix x assume "x \<in> chain_of H s"
    then have "(s, x) \<in> (?E \<union> ?E\<inverse>)\<^sup>*" by (simp add: chain_of_def)
    then have "(r, x) \<in> ?E\<^sup>*"
      by (induction rule: rtrancl_induct) (auto intro: rs pred rtrancl_into_rtrancl)
    then show "x \<in> ?E\<^sup>* `` {r}" by simp
  qed
qed

lemma chain_of_self: "s \<in> chain_of H s"
  by (simp add: chain_of_def)

lemma chain_of_eq:
  assumes "t \<in> chain_of H s"
  shows "chain_of H t = chain_of H s"
proof -
  let ?R = "hot_edges H \<union> (hot_edges H)\<inverse>"
  have "sym (?R\<^sup>*)" by (intro sym_rtrancl sym_Un_converse)
  then have "(t, s) \<in> ?R\<^sup>*" "(s, t) \<in> ?R\<^sup>*" using assms by (auto simp: chain_of_def dest: symD)
  then show ?thesis unfolding chain_of_def by (auto intro: rtrancl_trans)
qed

lemma chain_of_edge: "(a, b) \<in> hot_edges H \<Longrightarrow> chain_of H a = chain_of H b"
  by (rule chain_of_eq) (auto simp: chain_of_def)

section \<open>The walks along a chain\<close>

definition slot_visible :: "(TxnId \<Rightarrow> TxnState) \<Rightarrow> Snapshot \<Rightarrow> headers \<Rightarrow> nat \<Rightarrow> bool" where
  "slot_visible get_state snap H s \<longleftrightarrow> (\<exists>h. H s = Some h \<and> header_visible get_state snap h)"

lemma heap_front:
  assumes "heap_ok page" and "hdr page (unat s) = Some h"
  obtains bytes where "tuple_at page s = Ok (Some bytes)" and "front_header bytes = Ok h"
    and "tuples page (unat s) = Some (Normal, bytes)" and "tuple_header_read bytes = Ok h"
proof -
  obtain bytes where "tuples page (unat s) = Some (Normal, bytes)" "tuple_header_read bytes = Ok h"
    using hdr_tuple [OF assms] .
  then show ?thesis using that [of bytes] header_read_Ok(4) heap_tuple_at [OF assms(1), of s] by simp
qed

lemma heap_front_None: "heap_ok page \<Longrightarrow> hdr page (unat s) = None \<Longrightarrow> tuple_at page s = Ok None"
  by (simp add: hdr_None_iff heap_tuple_at)

lemma reach_finite:
  assumes "hot_ok pid (hdr page)" and "hdr page a \<noteq> None"
  shows "finite ((hot_edges (hdr page))\<^sup>* `` {a})" and "card ((hot_edges (hdr page))\<^sup>* `` {a}) \<le> slot_count page"
    and "finite (((hot_edges (hdr page))\<inverse>)\<^sup>* `` {a})" and "card (((hot_edges (hdr page))\<inverse>)\<^sup>* `` {a}) \<le> slot_count page"
proof -
  let ?E = "hot_edges (hdr page)"
  have "?E\<^sup>* `` {a} \<subseteq> {..<slot_count page}"
    using reach_dom [OF assms(1) _ assms(2)] hdr_slot by fastforce
  then show "finite (?E\<^sup>* `` {a})" "card (?E\<^sup>* `` {a}) \<le> slot_count page"
    using finite_subset card_mono [of "{..<slot_count page}"] by fastforce+
  have "(?E\<inverse>)\<^sup>* `` {a} \<subseteq> {..<slot_count page}"
    using reach_back_dom [OF assms(1) _ assms(2)] hdr_slot by (fastforce simp: rtrancl_converse)
  then show "finite ((?E\<inverse>)\<^sup>* `` {a})" "card ((?E\<inverse>)\<^sup>* `` {a}) \<le> slot_count page"
    using finite_subset card_mono [of "{..<slot_count page}"] by fastforce+
qed

lemma tid_eqI: "page_id t = page_id u \<Longrightarrow> unat (slot_id t) = unat (slot_id u) \<Longrightarrow> t = (u :: Tid)"
  by (simp add: Tid.equality word_unat_eq_iff)

lemma hot_step:
  assumes "hot_ok pid (hdr page)" and "hdr page (unat (slot_id tid)) = Some h" and "page_id tid = pid"
  shows "hot_updated h \<and> t_ctid h \<noteq> tid \<longleftrightarrow> hot_updated h"
  using hot_okD(4) [OF assms(1,2)] by auto

text \<open>The forward walk ends within the bound, at the first visible version of the chain if there is one.\<close>

lemma hot_walk_correct:
  assumes ok: "heap_ok page" and hot: "hot_ok pid (hdr page)"
    and "page_id tid = pid" and "hdr page (unat (slot_id tid)) \<noteq> None"
    and "card ((hot_edges (hdr page))\<^sup>* `` {unat (slot_id tid)}) \<le> n"
  shows "\<exists>r. hot_walk n page pid snap gs tid = Ok r \<and>
    (case r of
       None \<Rightarrow> \<forall>b \<in> (hot_edges (hdr page))\<^sup>* `` {unat (slot_id tid)}. \<not> slot_visible gs snap (hdr page) b
     | Some t \<Rightarrow> page_id t = pid \<and> unat (slot_id t) \<in> (hot_edges (hdr page))\<^sup>* `` {unat (slot_id tid)} \<and>
         slot_visible gs snap (hdr page) (unat (slot_id t)))"
  using assms(3-)
proof (induction n arbitrary: tid)
  case 0
  then show ?case using reach_finite(1) [OF hot 0(2)] by auto
next
  case (Suc n)
  let ?E = "hot_edges (hdr page)" and ?a = "unat (slot_id tid)"
  obtain h where h: "hdr page ?a = Some h" using Suc.prems(2) by blast
  obtain bytes where b: "tuple_at page (slot_id tid) = Ok (Some bytes)" "front_header bytes = Ok h"
    using heap_front [OF ok h] .
  note w = b Suc.prems(1) hot_step [OF hot h Suc.prems(1)]
  show ?case
  proof (cases "header_visible gs snap h")
    case True
    then show ?thesis using w h by (auto simp: slot_visible_def)
  next
    case nv: False
    show ?thesis
    proof (cases "hot_updated h")
      case True
      let ?c = "unat (slot_id (t_ctid h))"
      note e = hot_okD [OF hot h True]
      have "card (?E\<^sup>* `` {?c}) < card (?E\<^sup>* `` {?a})"
        using hot reach_finite(1) [OF hot Suc.prems(2)] e(3) by (intro reach_shrinks) (simp_all add: hot_ok_def)
      then obtain r where r: "hot_walk n page pid snap gs (t_ctid h) = Ok r"
        "case r of None \<Rightarrow> \<forall>b \<in> ?E\<^sup>* `` {?c}. \<not> slot_visible gs snap (hdr page) b
         | Some t \<Rightarrow> page_id t = pid \<and> unat (slot_id t) \<in> ?E\<^sup>* `` {?c} \<and> slot_visible gs snap (hdr page) (unat (slot_id t))"
        using Suc.IH [OF e(1)] e(2) Suc.prems(3) by fastforce
      have "hot_walk (Suc n) page pid snap gs tid = Ok r" using w nv True r(1) by simp
      moreover have "\<not> slot_visible gs snap (hdr page) ?a" using h nv by (simp add: slot_visible_def)
      ultimately show ?thesis
        using r(2) reach_edge [of "hdr page" ?a h, OF h True] by (auto split: option.splits)
    next
      case False
      then have "?E\<^sup>* `` {?a} = {?a}" using h by (intro reach_end hot_edges_end) blast
      then show ?thesis using w nv False h by (auto simp: slot_visible_def)
    qed
  qed
qed

lemma follow_hot_chain_correct:
  assumes "heap_ok page" and "hot_ok pid (hdr page)" and "page_id tid = pid" and "hdr page (unat (slot_id tid)) \<noteq> None"
  shows "\<exists>r. follow_hot_chain page pid tid snap gs = Ok r \<and>
    (case r of
       None \<Rightarrow> \<forall>b \<in> (hot_edges (hdr page))\<^sup>* `` {unat (slot_id tid)}. \<not> slot_visible gs snap (hdr page) b
     | Some t \<Rightarrow> page_id t = pid \<and> unat (slot_id t) \<in> (hot_edges (hdr page))\<^sup>* `` {unat (slot_id tid)} \<and>
         slot_visible gs snap (hdr page) (unat (slot_id t)))"
  unfolding follow_hot_chain_def by (rule hot_walk_correct [OF assms reach_finite(2) [OF assms(2,4)]])

text \<open>The link map of a page.\<close>

lemma hot_links_correct:
  assumes ok: "heap_ok page" and "\<forall>s \<in> set slots. s < slot_count page"
  shows "\<exists>links'. hot_links page slots links = Ok links' \<and>
    (\<forall>t s. hm_get links' t = Some s \<longrightarrow> hm_get links t = Some s \<or>
       (\<exists>h. hdr page (unat s) = Some h \<and> hot_updated h \<and> t_ctid h = t)) \<and>
    (\<forall>t. hm_get links t \<noteq> None \<longrightarrow> hm_get links' t \<noteq> None) \<and>
    (\<forall>s \<in> set slots. \<forall>h. hdr page s = Some h \<longrightarrow> hot_updated h \<longrightarrow> hm_get links' (t_ctid h) \<noteq> None)"
  using assms(2)
proof (induction slots arbitrary: links)
  case Nil
  then show ?case by simp
next
  case (Cons s slots)
  then have s: "s < slot_count page" "unat (of_nat s :: u16) = s"
    using slots_in_page(3) [OF heap_okD(3) [OF ok], of s] by simp_all
  show ?case
  proof (cases "hdr page s")
    case None
    then have "tuple_at page (of_nat s) = Ok None" using heap_front_None [OF ok, of "of_nat s"] s by simp
    then show ?thesis using Cons.IH [of links] Cons.prems None by simp
  next
    case (Some h)
    then obtain bytes where b: "tuple_at page (of_nat s) = Ok (Some bytes)" "front_header bytes = Ok h"
      using heap_front [OF ok, of "of_nat s"] s by metis
    let ?l = "if hot_updated h then hm_insert (t_ctid h) (of_nat s) links else links"
    obtain l where l: "hot_links page slots ?l = Ok l"
      "\<And>t s. hm_get l t = Some s \<Longrightarrow> hm_get ?l t = Some s \<or> (\<exists>h. hdr page (unat s) = Some h \<and> hot_updated h \<and> t_ctid h = t)"
      "\<And>t. hm_get ?l t \<noteq> None \<Longrightarrow> hm_get l t \<noteq> None"
      "\<And>s h. s \<in> set slots \<Longrightarrow> hdr page s = Some h \<Longrightarrow> hot_updated h \<Longrightarrow> hm_get l (t_ctid h) \<noteq> None"
      using Cons.IH [of ?l] Cons.prems by auto
    have "hot_links page (s # slots) links = Ok l" using b l(1) by simp
    moreover have "hm_get links t = Some u \<or> (\<exists>h. hdr page (unat u) = Some h \<and> hot_updated h \<and> t_ctid h = t)"
      if "hm_get l t = Some u" for t u
      using l(2) [OF that] Some s by (auto simp: hmap_simps split: if_splits)
    moreover have "hm_get l t \<noteq> None" if "hm_get links t \<noteq> None" for t
      using l(3) [of t] that by (auto simp: hmap_simps)
    moreover have "hm_get l (t_ctid k) \<noteq> None" if "u \<in> set (s # slots)" "hdr page u = Some k" "hot_updated k" for u k
      using l(4) [of u k] l(3) [of "t_ctid k"] that Some by (auto simp: hmap_simps)
    ultimately show ?thesis by blast
  qed
qed

text \<open>The backward walk ends at the first slot of the chain.\<close>

lemma root_walk_correct:
  assumes ok: "heap_ok page" and hot: "hot_ok pid (hdr page)"
    and links: "\<And>t s. hm_get links t = Some s \<Longrightarrow> \<exists>h. hdr page (unat s) = Some h \<and> hot_updated h \<and> t_ctid h = t"
    and all_links: "\<And>s h. hdr page s = Some h \<Longrightarrow> hot_updated h \<Longrightarrow> hm_get links (t_ctid h) \<noteq> None"
    and "page_id cur = pid" and "hdr page (unat (slot_id cur)) \<noteq> None"
    and "card (((hot_edges (hdr page))\<inverse>)\<^sup>* `` {unat (slot_id cur)}) \<le> n"
  shows "\<exists>r. root_walk n page pid links cur = Ok r \<and> page_id r = pid \<and>
    (unat (slot_id r), unat (slot_id cur)) \<in> (hot_edges (hdr page))\<^sup>* \<and>
    (\<forall>a. (a, unat (slot_id r)) \<notin> hot_edges (hdr page))"
  using assms(5-)
proof (induction n arbitrary: cur)
  case 0
  then show ?case using reach_finite(3) [OF hot 0(2)] by auto
next
  case (Suc n)
  let ?E = "hot_edges (hdr page)" and ?a = "unat (slot_id cur)"
  obtain h where h: "hdr page ?a = Some h" using Suc.prems(2) by blast
  obtain bytes where b: "tuple_at page (slot_id cur) = Ok (Some bytes)" "front_header bytes = Ok h"
    using heap_front [OF ok h] .
  have pred: "hm_get links cur \<noteq> None" if e: "(c, ?a) \<in> ?E" for c
  proof -
    obtain k where k: "hdr page c = Some k" "hot_updated k" "?a = unat (slot_id (t_ctid k))"
      using e unfolding hot_edges_def by blast
    then have "t_ctid k = cur" using hot_okD(1) [OF hot k(1,2)] Suc.prems(1) by (intro tid_eqI) simp_all
    then show ?thesis using all_links [OF k(1,2)] by simp
  qed
  show ?case
  proof (cases "heap_only h \<and> hm_get links cur \<noteq> None")
    case False
    have "(c, ?a) \<notin> ?E" for c using False pred hot_ok_target [OF hot] h by fastforce
    moreover have "root_walk (Suc n) page pid links cur = Ok cur" using b False by (auto split: option.splits)
    ultimately show ?thesis using Suc.prems(1) by blast
  next
    case True
    then obtain s where s: "hm_get links cur = Some s" by blast
    then obtain k where k: "hdr page (unat s) = Some k" "hot_updated k" "t_ctid k = cur" using links by blast
    let ?t = "\<lparr>page_id = pid, slot_id = s\<rparr>"
    have e: "(unat s, ?a) \<in> ?E" using hot_okD(3) [OF hot k(1,2)] k(3) by simp
    have "card ((?E\<inverse>)\<^sup>* `` {unat s}) < card ((?E\<inverse>)\<^sup>* `` {?a})"
      using hot reach_finite(3) [OF hot Suc.prems(2)] e by (intro reach_shrinks) (simp_all add: hot_ok_def acyclic_converse)
    then obtain r where r: "root_walk n page pid links ?t = Ok r" "page_id r = pid"
      "(unat (slot_id r), unat s) \<in> ?E\<^sup>*" "\<forall>a. (a, unat (slot_id r)) \<notin> ?E"
      using Suc.IH [of ?t] k(1) Suc.prems(3) by auto
    have "root_walk (Suc n) page pid links cur = Ok r" using b True s r(1) by simp
    then show ?thesis using r e by (blast intro: rtrancl_into_rtrancl)
  qed
qed

lemma chain_root_correct:
  assumes ok: "heap_ok page" and hot: "hot_ok pid (hdr page)"
    and p: "page_id tid = pid" and h: "hdr page (unat (slot_id tid)) = Some h"
  shows "\<exists>r. chain_root page pid h tid = Ok r \<and> page_id r = pid \<and>
    (unat (slot_id r), unat (slot_id tid)) \<in> (hot_edges (hdr page))\<^sup>* \<and>
    (\<forall>a. (a, unat (slot_id r)) \<notin> hot_edges (hdr page))"
proof (cases "heap_only h")
  case False
  then have "(a, unat (slot_id tid)) \<notin> hot_edges (hdr page)" for a using hot_ok_target [OF hot] h by fastforce
  then show ?thesis using False p by (simp add: chain_root_def)
next
  case True
  obtain links where l: "hot_links page [0..<slot_count page] [] = Ok links"
    "\<And>t s. hm_get links t = Some s \<Longrightarrow> \<exists>h. hdr page (unat s) = Some h \<and> hot_updated h \<and> t_ctid h = t"
    "\<And>s h. hdr page s = Some h \<Longrightarrow> hot_updated h \<Longrightarrow> hm_get links (t_ctid h) \<noteq> None"
  proof -
    obtain links where l: "hot_links page [0..<slot_count page] [] = Ok links"
      "\<forall>t s. hm_get links t = Some s \<longrightarrow> hm_get [] t = Some s \<or> (\<exists>h. hdr page (unat s) = Some h \<and> hot_updated h \<and> t_ctid h = t)"
      "\<forall>s \<in> set [0..<slot_count page]. \<forall>h. hdr page s = Some h \<longrightarrow> hot_updated h \<longrightarrow> hm_get links (t_ctid h) \<noteq> None"
      using hot_links_correct [OF ok, of "[0..<slot_count page]" "[]"] by auto
    show thesis
    proof (rule that [OF l(1)])
      show "\<exists>h. hdr page (unat s) = Some h \<and> hot_updated h \<and> t_ctid h = t" if "hm_get links t = Some s" for t s
        using l(2) that by simp
      show "hm_get links (t_ctid h) \<noteq> None" if "hdr page s = Some h" "hot_updated h" for s h
        using l(3) that hdr_slot [OF that(1)] by simp
    qed
  qed
  have ne: "hdr page (unat (slot_id tid)) \<noteq> None" using h by simp
  note r = root_walk_correct [OF ok hot l(2,3) p ne reach_finite(4) [OF hot ne]]
  then show ?thesis using True l(1) by (simp add: chain_root_def hot_chain_root_def)
qed

lemma read_headers_correct:
  assumes ok: "heap_ok page" and "\<forall>s \<in> set slots. s < slot_count page"
  shows "read_headers page slots = Ok (map (hdr page) slots)"
  using assms(2)
proof (induction slots)
  case (Cons s slots)
  then have s: "s < slot_count page" "unat (of_nat s :: u16) = s"
    using slots_in_page(3) [OF heap_okD(3) [OF ok], of s] by simp_all
  have "(case map_option snd (tuples page s) of None \<Rightarrow> None
      | Some bytes \<Rightarrow> (case tuple_header_read bytes of Ok h \<Rightarrow> Some h | _ \<Rightarrow> None)) = hdr page s"
    by (auto simp: hdr_def split: option.splits)
  then show ?case using Cons s heap_tuple_at [OF ok, of "of_nat s"] by simp
qed simp

lemma collect_chain_correct:
  assumes ok: "heap_ok page" and hot: "hot_ok pid (hdr page)"
    and "page_id cur = pid" and "hdr page (unat (slot_id cur)) \<noteq> None"
    and "card ((hot_edges (hdr page))\<^sup>* `` {unat (slot_id cur)}) \<le> n"
  shows "\<exists>chain. collect_chain n (map (hdr page) [0..<slot_count page]) pid cur = (chain, True) \<and>
    (\<forall>t \<in> set chain. page_id t = pid) \<and>
    (\<lambda>t. unat (slot_id t)) ` set chain = (hot_edges (hdr page))\<^sup>* `` {unat (slot_id cur)}"
  using assms(3-)
proof (induction n arbitrary: cur)
  case 0
  then show ?case using reach_finite(1) [OF hot 0(2)] by auto
next
  case (Suc n)
  let ?E = "hot_edges (hdr page)" and ?a = "unat (slot_id cur)" and ?H = "map (hdr page) [0..<slot_count page]"
  obtain h where h: "hdr page ?a = Some h" using Suc.prems(2) by blast
  have at: "\<not> length ?H \<le> ?a" "?H ! ?a = Some h" using hdr_slot [OF h] h by simp_all
  show ?case
  proof (cases "hot_updated h")
    case True
    let ?c = "unat (slot_id (t_ctid h))"
    note e = hot_okD [OF hot h True]
    have "card (?E\<^sup>* `` {?c}) < card (?E\<^sup>* `` {?a})"
      using hot reach_finite(1) [OF hot Suc.prems(2)] e(3) by (intro reach_shrinks) (simp_all add: hot_ok_def)
    then obtain chain where c: "collect_chain n ?H pid (t_ctid h) = (chain, True)" "\<forall>t \<in> set chain. page_id t = pid"
      "(\<lambda>t. unat (slot_id t)) ` set chain = ?E\<^sup>* `` {?c}"
      using Suc.IH [OF e(1)] e(2) Suc.prems(3) by fastforce
    have "t_ctid h \<noteq> cur" using e(4) by auto
    then have "collect_chain (Suc n) ?H pid cur = (cur # chain, True)" using at c(1) True e(1) by simp
    then show ?thesis using c Suc.prems(1) reach_edge [of "hdr page" ?a h, OF h True] by auto
  next
    case False
    then have "?E\<^sup>* `` {?a} = {?a}" using h by (intro reach_end hot_edges_end) blast
    then show ?thesis using at False Suc.prems(1) by auto
  qed
qed

text \<open>Root and chain together: the walks of \<^verbatim>\<open>classify_dead_tuples\<close> find the whole chain of a slot.\<close>

lemma whole_chain:
  assumes ok: "heap_ok page" and hot: "hot_ok pid (hdr page)" and h: "hdr page (unat slot) = Some h"
  obtains r chain where "chain_root page pid h \<lparr>page_id = pid, slot_id = slot\<rparr> = Ok r"
    and "collect_chain (slot_count page) (map (hdr page) [0..<slot_count page]) pid r = (chain, True)"
    and "\<forall>t \<in> set chain. page_id t = pid" and "(\<lambda>t. unat (slot_id t)) ` set chain = chain_of (hdr page) (unat slot)"
    and "page_id r = pid" and "hdr page (unat (slot_id r)) \<noteq> None"
    and "\<And>a. a \<in> chain_of (hdr page) (unat slot) \<Longrightarrow> (\<forall>b. (b, a) \<notin> hot_edges (hdr page)) \<longleftrightarrow> a = unat (slot_id r)"
    and "unat (slot_id r) \<in> chain_of (hdr page) (unat slot)"
proof -
  let ?t = "\<lparr>page_id = pid, slot_id = slot\<rparr>" and ?E = "hot_edges (hdr page)"
  have "page_id ?t = pid" "hdr page (unat (slot_id ?t)) = Some h" using h by simp_all
  from chain_root_correct [OF ok hot this] obtain r where r: "chain_root page pid h ?t = Ok r" "page_id r = pid"
    "(unat (slot_id r), unat slot) \<in> ?E\<^sup>*" "\<And>a. (a, unat (slot_id r)) \<notin> ?E" by auto
  have rh: "hdr page (unat (slot_id r)) \<noteq> None" using reach_back_dom [OF hot r(3)] h by simp
  note c = chain_of_root [OF hot r(4,3)]
  obtain chain where ch: "collect_chain (slot_count page) (map (hdr page) [0..<slot_count page]) pid r = (chain, True)"
    "\<forall>t \<in> set chain. page_id t = pid" "(\<lambda>t. unat (slot_id t)) ` set chain = ?E\<^sup>* `` {unat (slot_id r)}"
    using collect_chain_correct [OF ok hot r(2) rh reach_finite(2) [OF hot rh]] by blast
  have src: "(\<forall>b. (b, a) \<notin> ?E) \<longleftrightarrow> a = unat (slot_id r)" if "a \<in> chain_of (hdr page) (unat slot)" for a
    using that r(4) unfolding c by (auto elim: rtranclE)
  show ?thesis using that [OF r(1) ch(1,2) _ r(2) rh src] ch(3) c by auto
qed

section \<open>What vacuum may remove\<close>

text \<open>A slot is reclaimable when every version of its chain is on the dead list.\<close>

definition reclaimable :: "PageId \<Rightarrow> headers \<Rightarrow> Tid list \<Rightarrow> nat \<Rightarrow> bool" where
  "reclaimable pid H dead s \<longleftrightarrow> H s \<noteq> None \<and>
     (\<forall>a \<in> chain_of H s. \<exists>t \<in> set dead. page_id t = pid \<and> unat (slot_id t) = a)"

definition chain_heads :: "PageId \<Rightarrow> headers \<Rightarrow> nat set \<Rightarrow> Tid set" where
  "chain_heads pid H K = {t. page_id t = pid \<and> unat (slot_id t) \<in> K \<and> (\<forall>b. (b, unat (slot_id t)) \<notin> hot_edges H)}"

lemma chain_of_dom:
  assumes "hot_ok pid H" and "H s \<noteq> None" and "a \<in> chain_of H s"
  shows "H a \<noteq> None"
proof -
  have "(s, a) \<in> (hot_edges H \<union> (hot_edges H)\<inverse>)\<^sup>*" using assms(3) by (simp add: chain_of_def)
  then show ?thesis
    by (induction rule: rtrancl_induct) (use assms(2) hot_ok_dom [OF assms(1)] in blast)+
qed

lemma reclaimable_chain:
  assumes "hot_ok pid H" and "a \<in> chain_of H s" and "reclaimable pid H dead s"
  shows "reclaimable pid H dead a"
  using assms chain_of_dom [OF assms(1) _ assms(2)] unfolding reclaimable_def chain_of_eq [OF assms(2)] by blast

lemma reclaimable_edge:
  assumes "hot_ok pid H" and "(a, b) \<in> hot_edges H"
  shows "reclaimable pid H dead a \<longleftrightarrow> reclaimable pid H dead b"
  using reclaimable_chain [OF assms(1)] chain_of_self chain_of_edge [OF assms(2)] by blast

lemma fully_dead_iff:
  assumes hot: "hot_ok pid (hdr page)" and h: "hdr page s \<noteq> None"
    and pg: "\<forall>t \<in> set chain. page_id t = pid" and ch: "(\<lambda>t. unat (slot_id t)) ` set chain = chain_of (hdr page) s"
  shows "fully_dead (map (hdr page) [0..<slot_count page]) dead chain \<longleftrightarrow> reclaimable pid (hdr page) dead s"
proof -
  have "unat (slot_id t) < slot_count page \<and> hdr page (unat (slot_id t)) \<noteq> None" if "t \<in> set chain" for t
  proof -
    have "hdr page (unat (slot_id t)) \<noteq> None" using that ch chain_of_dom [OF hot h] by blast
    then show ?thesis using hdr_slot by blast
  qed
  moreover have "t \<in> set dead \<longleftrightarrow> (\<exists>u \<in> set dead. page_id u = pid \<and> unat (slot_id u) = unat (slot_id t))"
    if "t \<in> set chain" for t
    using that pg tid_eqI by metis
  ultimately have "fully_dead (map (hdr page) [0..<slot_count page]) dead chain \<longleftrightarrow>
      (\<forall>t \<in> set chain. \<exists>u \<in> set dead. page_id u = pid \<and> unat (slot_id u) = unat (slot_id t))"
    by (auto simp: fully_dead_def list_all_iff)
  also have "\<dots> \<longleftrightarrow> (\<forall>a \<in> chain_of (hdr page) s. \<exists>u \<in> set dead. page_id u = pid \<and> unat (slot_id u) = a)"
    unfolding ch [symmetric] by blast
  finally show ?thesis using h by (simp add: reclaimable_def)
qed

lemma classify_slots_correct:
  assumes ok: "heap_ok page" and hot: "hot_ok pid (hdr page)"
    and c: "classify_slots page pid columns (map (hdr page) [0..<slot_count page]) dead visited slots keys kills = Ok (keys', kills')"
    and kills: "unat ` set kills = {v \<in> unat ` set visited. reclaimable pid (hdr page) dead v}"
    and keys: "fst ` set keys = chain_heads pid (hdr page) (unat ` set kills)"
  shows "\<exists>vis. set visited \<union> set slots \<subseteq> vis \<and>
    unat ` set kills' = {v \<in> unat ` vis. reclaimable pid (hdr page) dead v} \<and>
    fst ` set keys' = chain_heads pid (hdr page) (unat ` set kills')"
  using c kills keys
proof (induction slots arbitrary: visited keys kills)
  case Nil
  then show ?case by (intro exI [of _ "set visited"]) simp
next
  case (Cons s slots)
  let ?H = "hdr page" and ?R = "reclaimable pid (hdr page) dead" and ?l = "map (hdr page) [0..<slot_count page]"
  show ?case
  proof (cases "slot_count page \<le> unat s \<or> s \<in> set visited \<or> ?H (unat s) = None")
    case True
    let ?skip = "slot_count page \<le> unat s \<or> s \<in> set visited"
    define v where "v = (if ?skip then visited else s # visited)"
    have c: "classify_slots page pid columns ?l dead v slots keys kills = Ok (keys', kills')"
    proof (cases ?skip)
      case True
      then show ?thesis using Cons.prems(1) by (simp add: v_def)
    next
      case False
      then show ?thesis using Cons.prems(1) \<open>slot_count page \<le> unat s \<or> s \<in> set visited \<or> ?H (unat s) = None\<close>
        by (simp add: v_def)
    qed
    have no: "\<not> ?R (unat s)" if "s \<notin> set visited"
    proof -
      have "?H (unat s) = None" using True that hdr_slot [of page "unat s"] by (cases "?H (unat s)") auto
      then show ?thesis by (simp add: reclaimable_def)
    qed
    have sv: "set visited \<subseteq> set v" "set v \<subseteq> insert s (set visited)" by (auto simp: v_def)
    then have "{x \<in> unat ` set v. ?R x} = {x \<in> unat ` set visited. ?R x}" using no by blast
    then obtain vis where v: "set v \<union> set slots \<subseteq> vis" "unat ` set kills' = {v \<in> unat ` vis. ?R v}"
      "fst ` set keys' = chain_heads pid ?H (unat ` set kills')"
      using Cons.IH [OF c _ Cons.prems(3)] Cons.prems(2) by auto
    have "{v \<in> unat ` insert s vis. ?R v} = {v \<in> unat ` vis. ?R v}" using no v(1) sv by blast
    moreover have "set visited \<union> set (s # slots) \<subseteq> insert s vis" using v(1) sv by auto
    ultimately show ?thesis using v(2,3) by (intro exI [of _ "insert s vis"]) simp
  next
    case False
    then obtain h where h: "?H (unat s) = Some h" by blast
    obtain r chain where r: "chain_root page pid h \<lparr>page_id = pid, slot_id = s\<rparr> = Ok r"
      "collect_chain (slot_count page) ?l pid r = (chain, True)" "\<forall>t \<in> set chain. page_id t = pid"
      "(\<lambda>t. unat (slot_id t)) ` set chain = chain_of ?H (unat s)" "page_id r = pid" "?H (unat (slot_id r)) \<noteq> None"
      "\<And>a. a \<in> chain_of ?H (unat s) \<Longrightarrow> (\<forall>b. (b, a) \<notin> hot_edges ?H) \<longleftrightarrow> a = unat (slot_id r)"
      "unat (slot_id r) \<in> chain_of ?H (unat s)"
      using whole_chain [OF ok hot h] by blast
    have fd: "fully_dead ?l dead chain \<longleftrightarrow> ?R (unat s)" using fully_dead_iff [OF hot _ r(3,4)] h by simp
    define v where "v = map slot_id chain @ s # visited"
    have nv: "unat ` set v = chain_of ?H (unat s) \<union> unat ` set visited"
      using r(4) chain_of_self [of "unat s" ?H] by (auto simp: image_image v_def)
    have sub: "set visited \<union> set (s # slots) \<subseteq> set v \<union> set slots" by (auto simp: v_def)
    have Rs: "?R a \<longleftrightarrow> ?R (unat s)" if "a \<in> chain_of ?H (unat s)" for a
    proof -
      have "unat s \<in> chain_of ?H a" using chain_of_eq [OF that] chain_of_self [of "unat s" ?H] by simp
      then show ?thesis using reclaimable_chain [OF hot that] reclaimable_chain [OF hot] by blast
    qed
    note here = False Cons.prems(1) h r(1,2) fd
    show ?thesis
    proof (cases "?R (unat s)")
      case False
      have c: "classify_slots page pid columns ?l dead v slots keys kills = Ok (keys', kills')"
        using here False by (simp add: v_def)
      have "{x \<in> unat ` set v. ?R x} = {x \<in> unat ` set visited. ?R x}" unfolding nv using Rs False by blast
      then obtain vis where "set v \<union> set slots \<subseteq> vis" "unat ` set kills' = {v \<in> unat ` vis. ?R v}"
        "fst ` set keys' = chain_heads pid ?H (unat ` set kills')"
        using Cons.IH [OF c _ Cons.prems(3)] Cons.prems(2) by auto
      then show ?thesis using sub by (intro exI [of _ vis]) auto
    next
      case True
      define k where "k = kills @ map slot_id chain"
      obtain vals where c: "classify_slots page pid columns ?l dead v slots (keys @ [(r, vals)]) k = Ok (keys', kills')"
        using here True by (auto simp: v_def k_def split: option.splits)
      have k: "unat ` set k = unat ` set kills \<union> chain_of ?H (unat s)" using r(4) by (simp add: k_def image_Un image_image)
      have "{x \<in> unat ` set v. ?R x} = chain_of ?H (unat s) \<union> {x \<in> unat ` set visited. ?R x}"
        unfolding nv using Rs True by blast
      then have kv: "unat ` set k = {x \<in> unat ` set v. ?R x}" unfolding k Cons.prems(2) by blast
      have "t = r" if "page_id t = pid" "unat (slot_id t) = unat (slot_id r)" for t
        using that r(5) by (intro tid_eqI) simp_all
      then have hd: "chain_heads pid ?H (chain_of ?H (unat s)) = {r}"
        using r(5,7,8) unfolding chain_heads_def by blast
      have "chain_heads pid ?H (unat ` set k) = chain_heads pid ?H (unat ` set kills) \<union> chain_heads pid ?H (chain_of ?H (unat s))"
        unfolding k chain_heads_def by blast
      then have "fst ` set (keys @ [(r, vals)]) = chain_heads pid ?H (unat ` set k)"
        using Cons.prems(3) hd by simp
      then obtain vis where "set v \<union> set slots \<subseteq> vis" "unat ` set kills' = {v \<in> unat ` vis. ?R v}"
        "fst ` set keys' = chain_heads pid ?H (unat ` set kills')"
        using Cons.IH [OF c kv] by blast
      then show ?thesis using sub by (intro exI [of _ vis]) auto
    qed
  qed
qed

lemma heap_not_fresh: "heap_ok page \<Longrightarrow> pd_upper (page_header page) \<noteq> 0"
  using geometry_bounds [of page] heap_okD(3) [of page] by (metis le_zero_eq not_numeral_le_zero order_trans unsigned_0)

text \<open>
  The kill list of a page is exactly the reclaimable slots, in the ascending order compaction asks
  for, and the index keys are those of the chains' first versions.
\<close>

lemma classify_page_correct:
  assumes ok: "heap_ok page" and hot: "hot_ok pid (hdr page)"
    and c: "classify_page page pid columns dead slots = Ok (keys, kills)"
    and slots: "\<And>t. t \<in> set dead \<Longrightarrow> page_id t = pid \<Longrightarrow> slot_id t \<in> set slots"
  shows "unat ` set kills = {s. reclaimable pid (hdr page) dead s}" and "sorted_wrt (<) kills"
    and "fst ` set keys = chain_heads pid (hdr page) {s. reclaimable pid (hdr page) dead s}"
proof -
  let ?R = "reclaimable pid (hdr page) dead"
  obtain ks where k: "classify_slots page pid columns (map (hdr page) [0..<slot_count page]) dead [] (sort slots) [] [] = Ok (keys, ks)"
    and kills: "kills = remdups (sort ks)"
    using c heap_not_fresh [OF ok] read_headers_correct [OF ok, of "[0..<slot_count page]"]
    by (auto simp: classify_page_def)
  have "chain_heads pid (hdr page) {} = {}" by (simp add: chain_heads_def)
  then obtain vis where v: "set slots \<subseteq> vis" "unat ` set ks = {x \<in> unat ` vis. ?R x}"
    "fst ` set keys = chain_heads pid (hdr page) (unat ` set ks)"
    using classify_slots_correct [OF ok hot k] by auto
  have "x \<in> unat ` vis" if R: "?R x" for x
  proof -
    obtain t where "t \<in> set dead" "page_id t = pid" "unat (slot_id t) = x"
      using R chain_of_self [of x "hdr page"] by (auto simp: reclaimable_def)
    then show ?thesis using slots v(1) by blast
  qed
  then have e: "unat ` set ks = {s. ?R s}" using v(2) by blast
  then show "unat ` set kills = {s. ?R s}" by (simp add: kills)
  show "fst ` set keys = chain_heads pid (hdr page) {s. ?R s}" using v(3) e by simp
  show "sorted_wrt (<) kills" unfolding kills strict_sorted_iff by (simp add: sorted_remdups)
qed

section \<open>Changes that keep the chains\<close>

lemma hot_ok_restrict:
  assumes hot: "hot_ok pid H" and closed: "\<And>a b. (a, b) \<in> hot_edges H \<Longrightarrow> a \<in> K \<longleftrightarrow> b \<in> K"
  shows "hot_ok pid (H |` (- K))"
proof -
  let ?H = "H |` (- K)"
  have sub: "hot_edges ?H \<subseteq> hot_edges H" by (auto simp: hot_edges_def restrict_map_def split: if_splits)
  have "page_id (t_ctid h) = pid \<and> (\<exists>h'. ?H (unat (slot_id (t_ctid h))) = Some h' \<and> heap_only h')"
    if a: "?H a = Some h" "hot_updated h" for a h
  proof -
    have H: "H a = Some h" "a \<notin> K" using a by (auto simp: restrict_map_def split: if_splits)
    have "unat (slot_id (t_ctid h)) \<notin> K" using closed [OF hot_okD(3) [OF hot H(1) a(2)]] H(2) by simp
    then show ?thesis using hot_okD(1,2) [OF hot H(1) a(2)] by simp
  qed
  moreover have "acyclic (hot_edges ?H)" using hot sub by (auto simp: hot_ok_def intro: acyclic_subset)
  moreover have "a = b" if "(a, c) \<in> hot_edges ?H" "(b, c) \<in> hot_edges ?H" for a b c
    using that sub hot_ok_inj [OF hot] by blast
  ultimately show ?thesis unfolding hot_ok_def by blast
qed

text \<open>A new version without a link of its own fills a free slot.\<close>

lemma hot_ok_add:
  assumes hot: "hot_ok pid H" and free: "H s = None" and new: "\<not> hot_updated h"
  shows "hot_ok pid (H(s \<mapsto> h))"
proof -
  have e: "hot_edges (H(s \<mapsto> h)) = hot_edges H" using free new by (auto simp: hot_edges_def split: if_splits)
  have "page_id (t_ctid k) = pid \<and> (\<exists>h'. (H(s \<mapsto> h)) (unat (slot_id (t_ctid k))) = Some h' \<and> heap_only h')"
    if k: "(H(s \<mapsto> h)) a = Some k" "hot_updated k" for a k
  proof -
    have "H a = Some k" using k new by (auto split: if_splits)
    then show ?thesis using hot_okD(1,2) [OF hot _ k(2)] free by fastforce
  qed
  then show ?thesis using hot unfolding hot_ok_def e by blast
qed

text \<open>A stamp that leaves the link bits and the link alone.\<close>

lemma hot_ok_same_links:
  assumes hot: "hot_ok pid H" and s: "H s = Some h" and l: "t_infomask2 h' = t_infomask2 h" "t_ctid h' = t_ctid h"
  shows "hot_ok pid (H(s \<mapsto> h'))"
proof -
  have b: "hot_updated h' = hot_updated h" "heap_only h' = heap_only h" using l(1) by (simp_all add: hot_updated_def heap_only_def)
  have e: "hot_edges (H(s \<mapsto> h')) = hot_edges H" using s b l(2) by (auto simp: hot_edges_def split: if_splits)
  have "page_id (t_ctid k) = pid \<and> (\<exists>h''. (H(s \<mapsto> h')) (unat (slot_id (t_ctid k))) = Some h'' \<and> heap_only h'')"
    if k: "(H(s \<mapsto> h')) a = Some k" "hot_updated k" for a k
  proof -
    obtain k' where k': "H a = Some k'" "hot_updated k'" "t_ctid k' = t_ctid k"
      using k s b l(2) by (auto split: if_splits)
    then show ?thesis using hot_okD(1,2) [OF hot k'(1,2)] s b(2) by fastforce
  qed
  then show ?thesis using hot unfolding hot_ok_def e by blast
qed

text \<open>A HOT update: the old version links to the new one, which is heap-only and fills a free slot.\<close>

lemma hot_ok_update:
  assumes hot: "hot_ok pid H" and old: "H s = Some h" and free: "H n = None"
    and h': "t_ctid h' = \<lparr>page_id = pid, slot_id = of_nat n\<rparr>" "hot_updated h'" "heap_only h' = heap_only h" "n < 65536"
    and new: "\<not> hot_updated k" "heap_only k"
  shows "hot_ok pid (H(s \<mapsto> h', n \<mapsto> k))"
proof -
  let ?H = "H(s \<mapsto> h', n \<mapsto> k)"
  have sn: "s \<noteq> n" using old free by auto
  have in_n: "(a, n) \<notin> hot_edges H" for a using hot_ok_target [OF hot] free by fastforce
  have out_n: "(n, a) \<notin> hot_edges H" for a using free by (auto simp: hot_edges_def)
  have e: "hot_edges ?H = {e \<in> hot_edges H. fst e \<noteq> s} \<union> {(s, n)}"
    using sn new(1) h' free by (auto simp: hot_edges_def split: if_splits)
  have "page_id (t_ctid x) = pid \<and> (\<exists>y. ?H (unat (slot_id (t_ctid x))) = Some y \<and> heap_only y)"
    if x: "?H a = Some x" "hot_updated x" for a x
  proof (cases "a = s")
    case True
    then have "x = h'" using x sn by simp
    then show ?thesis using h' new by simp
  next
    case False
    then have Ha: "H a = Some x" using x new by (auto split: if_splits)
    have "unat (slot_id (t_ctid x)) \<noteq> n" using in_n hot_okD(3) [OF hot Ha x(2)] by blast
    then show ?thesis using hot_okD(1,2) [OF hot Ha x(2)] old h'(3) by auto
  qed
  moreover have "acyclic (hot_edges ?H)"
  proof -
    have "acyclic {e \<in> hot_edges H. fst e \<noteq> s}" using hot by (auto simp: hot_ok_def intro: acyclic_subset)
    moreover have "(n, s) \<notin> {e \<in> hot_edges H. fst e \<noteq> s}\<^sup>*"
      using sn out_n by (auto elim: converse_rtranclE)
    ultimately show ?thesis unfolding e by simp
  qed
  moreover have "a = b" if "(a, c) \<in> hot_edges ?H" "(b, c) \<in> hot_edges ?H" for a b c
    using that in_n hot_ok_inj [OF hot] unfolding e by auto
  ultimately show ?thesis unfolding hot_ok_def by blast
qed

section \<open>The operations on the headers of a page\<close>

lemma hdr_cong: "tuples page' = tuples page \<Longrightarrow> hdr page' = hdr page"
  by (rule ext) (simp add: hdr_def)

lemma set_pd_lsn_frame:
  assumes ok: "page_ok page"
  shows "page_ok (set_page_pd_lsn page v)" and "tuples (set_page_pd_lsn page v) = tuples page"
    and "slot_count (set_page_pd_lsn page v) = slot_count page" and "page_pd_lsn (set_page_pd_lsn page v) = v"
    and "checked_header (set_page_pd_lsn page v) = Ok ((page_header page)\<lparr>pd_lsn := v\<rparr>)"
    and "next_page (set_page_pd_lsn page v) = next_page page"
proof -
  let ?p = "set_page_pd_lsn page v"
  note g = page_okD(1) [OF ok] and geo = geometry_bounds [OF page_okD(1) [OF ok]]
  have len: "length ?p = 8192" using geo(1) by (simp add: set_page_pd_lsn_def)
  show lsn: "page_pd_lsn ?p = v" using geo(1) by (simp add: page_pd_lsn_def set_page_pd_lsn_def slice_simps)
  have ph: "page_header ?p = (page_header page)\<lparr>pd_lsn := v\<rparr>"
    using geo(1) lsn by (simp add: page_header_def header_read_from_def)
      (simp add: set_page_pd_lsn_def slice_simps)
  have g': "geometry_ok ?p" using g len by (simp add: geometry_ok_def ph PAGE_SIZE_def)
  show "checked_header ?p = Ok ((page_header page)\<lparr>pd_lsn := v\<rparr>)" using checked_header_ok [OF g'] ph by simp
  show sc: "slot_count ?p = slot_count page" by (simp add: slot_count_def ph)
  have lp: "lp_at ?p t = lp_at page t" if "t < slot_count page" for t
    unfolding set_page_pd_lsn_def using slots_in_page [OF g that] geo by (intro lp_at_write) simp_all
  have sl: "slice_of ?p c d = slice_of page c d" if "32 \<le> c" "d \<le> 8192" for c d
    unfolding set_page_pd_lsn_def using that geo(1) by (intro slice_of_write_disjoint) simp_all
  have us: "used ?p t = used page t" for t using lp by (auto simp: used_def sc)
  have lpu: "lp_at ?p t = lp_at page t" if "used page t" for t using that lp by (simp add: used_def)
  show "page_ok ?p" using ok g' by (auto simp: page_ok_def ph us lpu)
  show "tuples ?p = tuples page"
  proof
    fix t
    have "slice_of ?p (region_lo page t) (region_hi page t) = slice_of page (region_lo page t) (region_hi page t)" if "used page t"
      using page_okD(2-4) [OF ok that] geo by (intro sl) linarith+
    then show "tuples ?p t = tuples page t" by (simp add: tuples_def us lpu)
  qed
  show "next_page ?p = next_page page"
    using sl [of 8176 8184] checked_header_ok [OF g'] checked_header_ok [OF g] ph
    by (simp add: next_page_def PAGE_SIZE_def HEAP_SPECIAL_SIZE_def Let_def)
qed

lemma heap_ok_same_tuples: "heap_ok page \<Longrightarrow> page_ok page' \<Longrightarrow> tuples page' = tuples page \<Longrightarrow> heap_ok page'"
  by (simp add: heap_ok_def page_inv_def no_redirect_def)

lemma heap_stamp_lsn:
  assumes "heap_ok page"
  shows "heap_ok (heap_stamp_pd_lsn page v)" and "tuples (heap_stamp_pd_lsn page v) = tuples page"
    and "hdr (heap_stamp_pd_lsn page v) = hdr page"
    and "slot_count (heap_stamp_pd_lsn page v) = slot_count page"
    and "page_pd_lsn (heap_stamp_pd_lsn page v) = max v (page_pd_lsn page)"
    and "next_page (heap_stamp_pd_lsn page v) = next_page page"
  using set_pd_lsn_frame [OF heap_okD(2) [OF assms], of "max v (page_pd_lsn page)"] heap_ok_same_tuples [OF assms] hdr_cong
  unfolding heap_stamp_pd_lsn_def by blast+

lemma heap_set_next:
  assumes "heap_ok page" and "set_next_page page nxt = Ok page'"
  shows "heap_ok page'" and "tuples page' = tuples page" and "hdr page' = hdr page" and "slot_count page' = slot_count page"
    and "next_page page' = Ok (if nxt = Some 0 then None else nxt)"
  using set_next_page_correct [OF heap_okD(2) [OF assms(1)] assms(2)] heap_ok_same_tuples [OF assms(1)] hdr_cong by blast+

lemma heap_add:
  assumes ok: "heap_ok page" and a: "add_tuple_at page slot bytes = Ok page'" and h: "tuple_header_read bytes = Ok h"
  shows "heap_ok page'" and "hdr page' = (hdr page)(unat slot \<mapsto> h)" and "hdr page (unat slot) = None"
    and "tuples page' = (tuples page)(unat slot \<mapsto> (Normal, bytes))"
    and "slot_count page' = max (slot_count page) (unat slot + 1)"
proof -
  note c = add_tuple_at_correct [OF heap_okD(2) [OF ok] a]
  show "tuples page' = (tuples page)(unat slot \<mapsto> (Normal, bytes))" "slot_count page' = max (slot_count page) (unat slot + 1)"
    by (fact c)+
  show "hdr page' = (hdr page)(unat slot \<mapsto> h)" by (rule ext) (simp add: hdr_def c(2) h)
  show "hdr page (unat slot) = None" using c(4) by (simp add: hdr_def tuples_def)
  show "heap_ok page'"
    using ok c(1) h slotted.add_law [OF heap_okD(1) [OF ok] a] by (auto simp: heap_ok_def)
qed

lemma heap_compact:
  assumes ok: "heap_ok page" and c: "compact page kills = Ok page'"
  shows "heap_ok page'" and "hdr page' = hdr page |` (- unat ` set kills)"
    and "tuples page' = tuples page |` (- unat ` set kills)" and "slot_count page' = slot_count page"
proof -
  note k = compact_Ok_correct [OF heap_okD(2) [OF ok] c]
  show "tuples page' = tuples page |` (- unat ` set kills)" "slot_count page' = slot_count page" by (fact k)+
  show "hdr page' = hdr page |` (- unat ` set kills)" by (rule ext) (simp add: hdr_def k(2) restrict_map_def)
  show "heap_ok page'"
    using ok k(1,2) by (auto simp: heap_ok_def page_inv_def no_redirect_def restrict_map_def split: if_splits)
qed

text \<open>The kill list vacuum computes is one compaction accepts.\<close>

lemma classified_compacts:
  assumes ok: "heap_ok page" and k: "unat ` set kills = {s. reclaimable pid (hdr page) dead s}" and "sorted_wrt (<) kills"
  shows "\<exists>page'. compact page kills = Ok page'"
proof -
  have "unat s < slot_count page \<and> lp_flags (lp_at page (unat s)) = Normal" if "s \<in> set kills" for s
  proof -
    have "hdr page (unat s) \<noteq> None" using that k by (auto simp: reclaimable_def)
    then obtain h where "hdr page (unat s) = Some h" by blast
    then obtain bytes where "tuples page (unat s) = Some (Normal, bytes)" using hdr_tuple [OF ok] by blast
    then show ?thesis by (auto simp: tuples_def used_def split: if_splits)
  qed
  then show ?thesis using compact_iff [OF heap_okD(2) [OF ok]] assms(3) by (simp add: kill_list_ok_def)
qed

lemma stamp_xmin_header:
  assumes "tuple_header_read tuple = Ok h"
  shows "\<exists>bytes. stamp_xmin tuple xid = Ok bytes \<and> length bytes = length tuple \<and>
    tuple_header_read bytes = Ok (h\<lparr>t_xmin := xid\<rparr>)"
  using header_read_Ok(1) [OF assms] assms
  by (auto simp: stamp_xmin_def tuple_header_read_def TUPLE_HEADER_SIZE_def u16_at_def slice_simps split: if_splits)

lemma stamp_hot_only_header:
  assumes "tuple_header_read tuple = Ok h"
  shows "\<exists>bytes. stamp_hot_only tuple xid = Ok bytes \<and> length bytes = length tuple \<and>
    tuple_header_read bytes = Ok (h\<lparr>t_xmin := xid, t_infomask2 := t_infomask2 h OR HEAP_ONLY_TUPLE\<rparr>)"
  using header_read_Ok(1) [OF assms] assms
  by (auto simp: stamp_hot_only_def tuple_header_read_def TUPLE_HEADER_SIZE_def u16_at_def slice_simps Let_def split: if_splits)

section \<open>Vacuum and scans\<close>

lemma decode_tuple_header: "decode_tuple bytes columns = Ok (h, vals) \<Longrightarrow> tuple_header_read bytes = Ok h"
  by (auto simp: decode_tuple_def Let_def split: if_splits)

text \<open>Removing slots that are closed under the chain links does not disturb a walk on the other slots.\<close>

lemma hot_walk_kept:
  assumes ok: "heap_ok page" and ok': "heap_ok page'" and t: "tuples page' = tuples page |` (- K)"
    and hot: "hot_ok pid (hdr page)" and closed: "\<And>a b. (a, b) \<in> hot_edges (hdr page) \<Longrightarrow> a \<in> K \<longleftrightarrow> b \<in> K"
    and "unat (slot_id tid) \<notin> K"
  shows "hot_walk n page' pid snap gs tid = hot_walk n page pid snap gs tid \<and>
    (\<forall>r. hot_walk n page pid snap gs tid = Ok (Some r) \<longrightarrow> unat (slot_id r) \<notin> K)"
  using assms(6)
proof (induction n arbitrary: tid)
  case 0
  then show ?case by simp
next
  case (Suc n)
  let ?s = "unat (slot_id tid)"
  have same: "tuple_at page' (slot_id tid) = tuple_at page (slot_id tid)"
    using Suc.prems by (simp add: heap_tuple_at [OF ok] heap_tuple_at [OF ok'] t)
  show ?case
  proof (cases "hdr page ?s")
    case None
    then show ?thesis using heap_front_None [OF ok None] same by simp
  next
    case (Some h)
    obtain bytes where b: "tuple_at page (slot_id tid) = Ok (Some bytes)" "front_header bytes = Ok h"
      using heap_front [OF ok Some] .
    have "unat (slot_id (t_ctid h)) \<notin> K" if "hot_updated h"
      using closed [OF hot_okD(3) [OF hot Some that]] Suc.prems by simp
    then show ?thesis using Suc same b by auto
  qed
qed

lemma scan_slot_vacuumed:
  assumes ok: "heap_ok page" and ok': "heap_ok page'" and t: "tuples page' = tuples page |` (- K)"
    and sc: "slot_count page' = slot_count page"
    and hot: "hot_ok pid (hdr page)" and closed: "\<And>a b. (a, b) \<in> hot_edges (hdr page) \<Longrightarrow> a \<in> K \<longleftrightarrow> b \<in> K"
    and dead: "\<And>a. a \<in> K \<Longrightarrow> \<not> slot_visible gs snap (hdr page) a"
    and s: "s < slot_count page" and scan: "scan_slot page pid columns snap gs s = Ok rows"
  shows "scan_slot page' pid columns snap gs s = Ok rows"
proof -
  have us: "unat (of_nat s :: u16) = s" using s slots_in_page(3) [OF heap_okD(3) [OF ok]] by simp
  note look = heap_tuple_at [OF ok, of "of_nat s", unfolded us] heap_tuple_at [OF ok', of "of_nat s", unfolded us]
  show ?thesis
  proof (cases "tuples page s")
    case None
    then show ?thesis using scan look t by (simp add: scan_slot_def restrict_map_def)
  next
    case (Some fb)
    obtain f bytes where fb: "fb = (f, bytes)" by (cases fb)
    obtain h where h: "tuple_header_read bytes = Ok h" "hdr page s = Some h"
      using heap_okD(5) [OF ok] Some fb by blast
    obtain h' vals where "decode_tuple bytes columns = Ok (h', vals)"
      using scan look Some fb by (auto simp: scan_slot_def)
    then have d: "decode_tuple bytes columns = Ok (h, vals)" using decode_tuple_header h(1) by fastforce
    note e = hot_okD [OF hot h(2)]
    have ne: "t_ctid h \<noteq> \<lparr>page_id = pid, slot_id = of_nat s\<rparr>" if "hot_updated h" using e(4) [OF that] us by auto
    show ?thesis
    proof (cases "s \<in> K")
      case True
      have "rows = []"
      proof (cases "heap_only h \<or> \<not> hot_updated h")
        case True
        then show ?thesis using scan look Some fb d dead [OF \<open>s \<in> K\<close>] h(2)
          by (auto simp: scan_slot_def slot_visible_def Let_def split: if_splits)
      next
        case False
        then have hu: "hot_updated h" by simp
        let ?c = "unat (slot_id (t_ctid h))"
        obtain r where r: "follow_hot_chain page pid (t_ctid h) snap gs = Ok r"
          "case r of None \<Rightarrow> True | Some v \<Rightarrow> unat (slot_id v) \<in> (hot_edges (hdr page))\<^sup>* `` {?c} \<and> slot_visible gs snap (hdr page) (unat (slot_id v))"
          using follow_hot_chain_correct [OF ok hot e(1) [OF hu], of snap gs] e(2) [OF hu] by (fastforce split: option.splits)
        have "b \<in> K" if "(?c, b) \<in> (hot_edges (hdr page))\<^sup>*" for b
          using that closed [OF e(3) [OF hu]] True closed by (induction rule: rtrancl_induct) blast+
        then have "r = None" using r(2) dead by (auto split: option.splits)
        then show ?thesis using scan look Some fb d r(1) False ne [OF hu] dead [OF True] h(2)
          by (simp add: scan_slot_def slot_visible_def)
      qed
      then show ?thesis using look True t by (simp add: scan_slot_def)
    next
      case False
      then have same: "tuple_at page' (of_nat s) = Ok (Some bytes)" "tuple_at page (of_nat s) = Ok (Some bytes)"
        using look t Some fb by simp_all
      show ?thesis
      proof (cases "hot_updated h")
        case False
        then have "scan_slot page' pid columns snap gs s = scan_slot page pid columns snap gs s"
          by (simp add: scan_slot_def same d Let_def)
        then show ?thesis using scan by simp
      next
        case True
        have nk: "unat (slot_id (t_ctid h)) \<notin> K" using closed [OF e(3) [OF True]] False by simp
        have w: "hot_walk n page' pid snap gs (t_ctid h) = hot_walk n page pid snap gs (t_ctid h) \<and>
            (\<forall>r. hot_walk n page pid snap gs (t_ctid h) = Ok (Some r) \<longrightarrow> unat (slot_id r) \<notin> K)" for n
          by (rule hot_walk_kept [OF ok ok' t hot _ nk]) (rule closed)
        define F where "F = follow_hot_chain page pid (t_ctid h) snap gs"
        have F: "follow_hot_chain page pid (t_ctid h) snap gs = F" "follow_hot_chain page' pid (t_ctid h) snap gs = F"
          using w by (simp_all add: F_def follow_hot_chain_def sc)
        have "tuple_at page' (slot_id r) = tuple_at page (slot_id r)" if "F = Ok (Some r)" for r
          using w [of "slot_count page"] that
          by (simp add: F_def follow_hot_chain_def heap_tuple_at [OF ok] heap_tuple_at [OF ok'] t)
        then have "obind F (case_option (Ok []) (\<lambda>v. obind (tuple_at page' (slot_id v)) (g v))) =
            obind F (case_option (Ok []) (\<lambda>v. obind (tuple_at page (slot_id v)) (g v)))" 
          for g :: "Tid \<Rightarrow> u8 list option \<Rightarrow> (Tid \<times> Datum option list) list heap_result"
          by (cases F) (simp_all split: option.splits)
        then have "scan_slot page' pid columns snap gs s = scan_slot page pid columns snap gs s"
          by (simp add: scan_slot_def same d F Let_def)
        then show ?thesis using scan by simp
      qed
    qed
  qed
qed

lemma scan_slots_mono:
  assumes "\<And>s rows. s \<in> set slots \<Longrightarrow> scan_slot page pid columns snap gs s = Ok rows \<Longrightarrow> scan_slot page' pid columns snap gs s = Ok rows"
    and "scan_slots page pid columns snap gs slots = Ok rows"
  shows "scan_slots page' pid columns snap gs slots = Ok rows"
  using assms by (induction slots arbitrary: rows) auto

lemma scan_page_vacuumed:
  assumes "heap_ok page" and ok': "heap_ok page'" and "tuples page' = tuples page |` (- K)"
    and sc: "slot_count page' = slot_count page"
    and "hot_ok pid (hdr page)" and "\<And>a b. (a, b) \<in> hot_edges (hdr page) \<Longrightarrow> a \<in> K \<longleftrightarrow> b \<in> K"
    and "\<And>a. a \<in> K \<Longrightarrow> \<not> slot_visible gs snap (hdr page) a"
    and scan: "scan_page page pid columns snap gs = Ok rows"
  shows "scan_page page' pid columns snap gs = Ok rows"
proof -
  have "scan_slots page pid columns snap gs [0..<slot_count page] = Ok rows"
    using scan heap_not_fresh [OF assms(1)] by (simp add: scan_page_def)
  then have "scan_slots page' pid columns snap gs [0..<slot_count page] = Ok rows"
    by (rule scan_slots_mono [rotated]) (rule scan_slot_vacuumed [OF assms(1-7)], simp_all)
  then show ?thesis using heap_not_fresh [OF ok'] sc by (simp add: scan_page_def)
qed

section \<open>The life of a heap page\<close>

text \<open>
  Everything the access method does to a page it has latched.  New versions come from the tuple
  encoder, which leaves the link bit clear.
\<close>

definition fresh_version :: "u8 list \<Rightarrow> bool" where
  "fresh_version tuple \<longleftrightarrow> (\<exists>h. tuple_header_read tuple = Ok h \<and> \<not> hot_updated h)"

inductive heap_page_step :: "PageId \<Rightarrow> page \<Rightarrow> page \<Rightarrow> bool" for pid where
  insert_step: "fresh_version tuple \<Longrightarrow> stamp_xmin tuple xid = Ok bytes \<Longrightarrow> add_tuple_at p slot bytes = Ok p' \<Longrightarrow>
    heap_page_step pid p p'"
| delete_step: "stamp_deleted p tid xmax cid updated = Ok p' \<Longrightarrow> heap_page_step pid p p'"
| hot_update_step: "fresh_version tuple \<Longrightarrow> stamp_xmin tuple xid = Ok bytes \<Longrightarrow> stamp_hot_only bytes xid = Ok hot_tuple \<Longrightarrow>
    stamp_hot_update p tid xid cid \<lparr>page_id = pid, slot_id = new_slot\<rparr> = Ok q \<Longrightarrow>
    add_tuple_at q new_slot hot_tuple = Ok p' \<Longrightarrow> heap_page_step pid p p'"
| lock_step: "stamp_lock_only p tid locker cid shared = Ok p' \<Longrightarrow> heap_page_step pid p p'"
| vacuum_step: "(\<forall>t. t \<in> set dead \<longrightarrow> page_id t = pid \<longrightarrow> slot_id t \<in> set slots) \<Longrightarrow>
    classify_page p pid columns dead slots = Ok (keys, kills) \<Longrightarrow> compact p kills = Ok p' \<Longrightarrow> heap_page_step pid p p'"
| link_step: "set_next_page p nxt = Ok p' \<Longrightarrow> heap_page_step pid p p'"
| lsn_step: "heap_page_step pid p (heap_stamp_pd_lsn p lsn)"

definition heap_page_start :: "page \<Rightarrow> bool" where
  "heap_page_start p \<longleftrightarrow> p = init_with_special HEAP_SPECIAL_SIZE"

definition heap_page_inv :: "PageId \<Rightarrow> page \<Rightarrow> bool" where
  "heap_page_inv pid p \<longleftrightarrow> heap_ok p \<and> hot_ok pid (hdr p)"

lemma fresh_stamped:
  assumes "fresh_version tuple" and "stamp_xmin tuple xid = Ok bytes"
  obtains h where "tuple_header_read bytes = Ok h" and "\<not> hot_updated h" and "t_xmin h = xid"
proof -
  obtain h where "tuple_header_read tuple = Ok h" "\<not> hot_updated h" using assms(1) by (auto simp: fresh_version_def)
  then show ?thesis using that [of "h\<lparr>t_xmin := xid\<rparr>"] stamp_xmin_header [of tuple h xid] assms(2)
    by (auto simp: hot_updated_def)
qed

lemma word_bit_tests:
  "(w OR HEAP_ONLY_TUPLE) AND HEAP_HOT_UPDATED = w AND (HEAP_HOT_UPDATED :: u16)"
  "(w OR HEAP_ONLY_TUPLE) AND HEAP_ONLY_TUPLE = HEAP_ONLY_TUPLE"
  "(w OR HEAP_HOT_UPDATED) AND HEAP_HOT_UPDATED = HEAP_HOT_UPDATED"
  "(w OR HEAP_HOT_UPDATED) AND HEAP_ONLY_TUPLE = w AND HEAP_ONLY_TUPLE"
  "HEAP_ONLY_TUPLE \<noteq> 0" "HEAP_HOT_UPDATED \<noteq> 0"
  unfolding HEAP_ONLY_TUPLE_def HEAP_HOT_UPDATED_def bit.conj_disj_distrib2
  by (simp_all add: or.commute [of "w AND _"] del: of_nat_diff)

lemma hot_version:
  assumes "tuple_header_read bytes = Ok h" and "\<not> hot_updated h" and "stamp_hot_only bytes xid = Ok hot_tuple"
  obtains k where "tuple_header_read hot_tuple = Ok k" and "\<not> hot_updated k" and "heap_only k" and "t_xmin k = xid"
proof -
  let ?k = "h\<lparr>t_xmin := xid, t_infomask2 := t_infomask2 h OR HEAP_ONLY_TUPLE\<rparr>"
  have "tuple_header_read hot_tuple = Ok ?k" using stamp_hot_only_header [OF assms(1), of xid] assms(3) by auto
  moreover have "\<not> hot_updated ?k" "heap_only ?k"
    using assms(2) by (simp_all add: hot_updated_def heap_only_def word_bit_tests)
  ultimately show ?thesis using that by simp
qed

lemma hot_header_bits: "hot_updated (hot_header x c t h)" "heap_only (hot_header x c t h) = heap_only h"
  by (simp_all add: hot_updated_def heap_only_def word_bit_tests)

lemma heap_page_inv_stamp:
  assumes "heap_page_inv pid p" and "stamps p tid f p'" and "\<And>h. t_trace_id (f h) = t_trace_id h"
    and "\<And>h. t_infomask2 (f h) = t_infomask2 h" and "\<And>h. t_ctid (f h) = t_ctid h"
  shows "heap_page_inv pid p'"
proof -
  have ok: "heap_ok p" and hot: "hot_ok pid (hdr p)" using assms(1) by (simp_all add: heap_page_inv_def)
  obtain h where "hdr p (unat (slot_id tid)) = Some h" "heap_ok p'" "hdr p' = (hdr p)(unat (slot_id tid) \<mapsto> f h)"
    using stamps_effect [OF ok assms(2,3)] by metis
  then show ?thesis using hot_ok_same_links [OF hot _ assms(4,5)] by (simp add: heap_page_inv_def)
qed

lemma heap_page_inv_hot:
  assumes inv: "heap_page_inv pid p" and st: "stamp_hot_update p tid xid cid \<lparr>page_id = pid, slot_id = new_slot\<rparr> = Ok q"
    and k: "tuple_header_read hot_tuple = Ok k" "\<not> hot_updated k" "heap_only k" and add: "add_tuple_at q new_slot hot_tuple = Ok p'"
  shows "heap_page_inv pid p'"
proof -
  have ok: "heap_ok p" and hot: "hot_ok pid (hdr p)" using inv by (simp_all add: heap_page_inv_def)
  let ?s = "unat (slot_id tid)" and ?f = "hot_header xid cid \<lparr>page_id = pid, slot_id = new_slot\<rparr>"
  obtain h where h: "hdr p ?s = Some h" "heap_ok q" "hdr q = (hdr p)(?s \<mapsto> ?f h)"
    using stamps_effect [OF ok st [unfolded stamp_Ok_iff [OF ok]]] header_funs(2) by metis
  note a = heap_add [OF h(2) add k(1)]
  have free: "hdr p (unat new_slot) = None" using a(3) h(3) by (auto split: if_splits)
  have "hot_ok pid ((hdr p)(?s \<mapsto> ?f h, unat new_slot \<mapsto> k))"
    by (rule hot_ok_update [OF hot h(1) free _ _ _ _ k(2,3)]) (simp_all add: hot_header_bits)
  then show ?thesis using a(1,2) h(3) by (simp add: heap_page_inv_def)
qed

lemma heap_page_inv_vacuum:
  assumes inv: "heap_page_inv pid p" and slots: "\<And>t. t \<in> set dead \<Longrightarrow> page_id t = pid \<Longrightarrow> slot_id t \<in> set slots"
    and c: "classify_page p pid columns dead slots = Ok (keys, kills)" and k: "compact p kills = Ok p'"
  shows "heap_page_inv pid p'"
proof -
  have ok: "heap_ok p" and hot: "hot_ok pid (hdr p)" using inv by (simp_all add: heap_page_inv_def)
  have K: "unat ` set kills = {s. reclaimable pid (hdr p) dead s}" by (rule classify_page_correct(1) [OF ok hot c slots])
  have "hot_ok pid (hdr p |` (- {s. reclaimable pid (hdr p) dead s}))"
    by (rule hot_ok_restrict [OF hot]) (simp add: reclaimable_edge [OF hot])
  then show ?thesis using heap_compact [OF ok k] by (simp add: heap_page_inv_def K)
qed

lemma heap_page_inv_step:
  assumes inv: "heap_page_inv pid p" and step: "heap_page_step pid p q"
  shows "heap_page_inv pid q"
proof -
  have ok: "heap_ok p" and hot: "hot_ok pid (hdr p)" using inv by (simp_all add: heap_page_inv_def)
  from step show ?thesis
  proof cases
    case (insert_step tuple xid bytes slot)
    obtain h where h: "tuple_header_read bytes = Ok h" "\<not> hot_updated h" using fresh_stamped [OF insert_step(1,2)] .
    show ?thesis using heap_add [OF ok insert_step(3) h(1)] hot_ok_add [OF hot _ h(2)] by (simp add: heap_page_inv_def)
  next
    case (delete_step tid xmax cid updated)
    then show ?thesis using heap_page_inv_stamp [OF inv] by (simp add: stamp_Ok_iff [OF ok])
  next
    case (hot_update_step tuple xid bytes hot_tuple tid cid new_slot q')
    obtain h where h: "tuple_header_read bytes = Ok h" "\<not> hot_updated h" using fresh_stamped [OF hot_update_step(1,2)] .
    obtain k where "tuple_header_read hot_tuple = Ok k" "\<not> hot_updated k" "heap_only k"
      using hot_version [OF h hot_update_step(3)] .
    then show ?thesis using heap_page_inv_hot [OF inv hot_update_step(4)] hot_update_step(5) by blast
  next
    case (lock_step tid locker cid shared)
    then show ?thesis using heap_page_inv_stamp [OF inv] by (simp add: stamp_Ok_iff [OF ok])
  next
    case (vacuum_step dead slots columns keys kills)
    then show ?thesis using heap_page_inv_vacuum [OF inv] by blast
  next
    case (link_step nxt)
    then show ?thesis using heap_set_next [OF ok] hot by (simp add: heap_page_inv_def)
  next
    case (lsn_step lsn)
    then show ?thesis using heap_stamp_lsn [OF ok] hot by (simp add: heap_page_inv_def)
  qed
qed

lemma heap_page_inv_start: "heap_page_inv pid (init_with_special HEAP_SPECIAL_SIZE)"
proof -
  have t: "page_ok (init_with_special HEAP_SPECIAL_SIZE)" "tuples (init_with_special HEAP_SPECIAL_SIZE) = Map.empty"
    using init_with_special_ok [of HEAP_SPECIAL_SIZE] by (simp_all add: HEAP_SPECIAL_SIZE_def)
  have "hdr (init_with_special HEAP_SPECIAL_SIZE) = Map.empty" by (rule ext) (simp add: hdr_def t(2))
  then show ?thesis using t by (simp add: heap_page_inv_def heap_ok_def page_inv_def no_redirect_def hot_ok_def hot_edges_def acyclic_def)
qed

interpretation hp: step_invariant heap_page_start "heap_page_step pid" "heap_page_inv pid" for pid
  by unfold_locales (auto simp: heap_page_start_def heap_page_inv_start intro: heap_page_inv_step)

text \<open>What the encoder produces from a new header has the link bit clear.\<close>

lemma encoded_fresh:
  assumes "encode_tuple (tuple_header_new xmin xmax agent trace ctid cid) columns vals = Ok bytes"
    and "length trace = 16" and "\<forall>d. Some d \<in> set vals \<longrightarrow> datum_typed d"
  shows "fresh_version bytes"
proof -
  let ?h = "tuple_header_new xmin xmax agent trace ctid cid" and ?n = "length columns"
  have e: "encode_tuple_impl ?h columns vals None = Ok bytes" using assms(1) by (simp add: encode_tuple_def)
  have tr: "length (t_trace_id ?h) = 16" using assms(2) by (simp add: tuple_header_new_def)
  obtain flags where d: "decode_tuple bytes columns = Ok (encode_header ?h ?n flags (None \<noteq> (None :: u32 option)), vals)"
    using decode_encode [OF e tr assms(3)] .
  have n: "?n < 2048" using e by (auto simp: encode_tuple_impl_def MAX_NATTS_def split: if_splits)
  have t: "take_bit 11 (of_nat ?n :: u16) = of_nat ?n" using n by (simp add: take_bit_of_nat take_bit_nat_eq_self)
  have "\<not> bit (take_bit 11 (of_nat ?n :: u16)) 14" by (simp only: bit_take_bit_iff) simp
  then have "\<not> bit (of_nat ?n :: u16) 14" by (simp only: t not_False_eq_True)
  then have "\<not> hot_updated (encode_header ?h ?n flags False)"
    using and_u16_bit [of "t_infomask2 (encode_header ?h ?n flags False)" 14]
    by (cases flags) (simp add: encode_header_def hot_updated_def tuple_header_new_def HEAP_HOT_UPDATED_def Let_def
        bit_or_iff bit_and_iff)
  then show ?thesis using decode_tuple_header [OF d] by (auto simp: fresh_version_def)
qed

lemma dead_slots_correct:
  assumes ok: "heap_ok page" and "\<forall>s \<in> set slots. s < slot_count page"
  shows "dead_slots page pid oldest gs slots = Ok (map (\<lambda>s. \<lparr>page_id = pid, slot_id = of_nat s\<rparr>)
    (filter (\<lambda>s. \<exists>h. hdr page s = Some h \<and> header_dead gs oldest h) slots))"
  using assms(2)
proof (induction slots)
  case (Cons s slots)
  then have s: "s < slot_count page" "unat (of_nat s :: u16) = s"
    using slots_in_page(3) [OF heap_okD(3) [OF ok], of s] by simp_all
  have look: "tuple_at page (of_nat s) = Ok (map_option snd (tuples page s))"
    using heap_tuple_at [OF ok, of "of_nat s"] s by simp
  show ?case
  proof (cases "tuples page s")
    case None
    then show ?thesis using Cons look by (simp add: hdr_def)
  next
    case (Some fb)
    then obtain h where "tuple_header_read (snd fb) = Ok h" "hdr page s = Some h"
      using heap_okD(5) [OF ok, of s "fst fb" "snd fb"] by auto
    then show ?thesis using Cons look Some by simp
  qed
qed simp

lemma dead_of_page_correct:
  assumes "heap_ok page"
  shows "dead_of_page page pid oldest gs = Ok (map (\<lambda>s. \<lparr>page_id = pid, slot_id = of_nat s\<rparr>)
    (filter (\<lambda>s. \<exists>h. hdr page s = Some h \<and> header_dead gs oldest h) [0..<slot_count page]))"
  using dead_slots_correct [OF assms, of "[0..<slot_count page]"] heap_not_fresh [OF assms] by (simp add: dead_of_page_def)

text \<open>
  What vacuum calls dead, with the horizon of some state, no live snapshot of a running transaction
  sees in that state or any later one.
\<close>

lemma dead_header_invisible:
  assumes init: "txn_init clog_get_state s0" and run: "txn_steps clog_set_state s0 s" and later: "txn_steps clog_set_state s t"
    and snap: "snap \<in> set (taken t)" and own: "clog_get_state (clog (mgr t)) (current_xid snap) = InProgress"
    and dead: "header_dead (clog_get_state (clog (mgr s))) (oldest_snapshot_xmin (mgr s)) h"
  shows "\<not> header_visible (clog_get_state (clog (mgr t))) (snap\<lparr>curcid := k\<rparr>) h"
proof -
  note inv = mem_clog.txn.inv_reachable [OF init run]
  note final = mem_clog.terminal_state_final [OF later inv]
  show ?thesis
  proof (cases "clog_get_state (clog (mgr s)) (t_xmin h) = Aborted")
    case True
    then have "clog_get_state (clog (mgr t)) (t_xmin h) = Aborted" using final [of "t_xmin h"] by simp
    then show ?thesis using own by (auto simp: header_visible_def is_visible_iff sees_commit_def)
  next
    case False
    then have d: "t_infomask h AND HEAP_XMAX_LOCK_ONLY = 0" "t_xmax h \<noteq> TxnId_INVALID"
      "t_xmax h < oldest_snapshot_xmin (mgr s)" "clog_get_state (clog (mgr s)) (t_xmax h) = Committed"
      using dead by (auto simp: header_dead_def)
    have "clog_get_state (clog (mgr t)) (t_xmax h) = Committed" using final [of "t_xmax h"] d(4) by simp
    then have "current_xid snap \<noteq> t_xmax h" using own by auto
    then show ?thesis
      using mem_clog.dead_below_horizon_invisible [OF later inv snap d(2-4)] d(1)
      by (simp add: header_visible_def visibility_xmax_def)
  qed
qed

section \<open>A concrete page with a HOT chain\<close>

definition hp_header :: TupleHeader where
  "hp_header = (tuple_header_new 0 0 0 (replicate 16 0) \<lparr>page_id = 0, slot_id = 0\<rparr> 0)\<lparr>t_hoff := 64\<rparr>"

definition hp_tuple :: "u8 list" where
  "hp_tuple = tuple_header_bytes hp_header"

lemma hp_tuple_facts: "tuple_header_read hp_tuple = Ok hp_header" "length hp_tuple = 64" "fresh_version hp_tuple"
proof -
  have tr: "length (t_trace_id hp_header) = 16" by (simp add: hp_header_def tuple_header_new_def)
  show r: "tuple_header_read hp_tuple = Ok hp_header"
    using tuple_header_read_bytes [OF tr, of "[]"] by (simp add: hp_tuple_def)
  show "length hp_tuple = 64" using length_tuple_header_bytes [OF tr] by (simp add: hp_tuple_def)
  show "fresh_version hp_tuple"
    using r by (auto simp: fresh_version_def hot_updated_def hp_header_def tuple_header_new_def)
qed

lemma add_succeeds:
  assumes ok: "heap_ok page" and h: "tuple_header_read bytes = Ok h" and "unat slot = slot_count page"
    and room: "length bytes + 4 \<le> free_space page"
  shows "\<exists>page'. add_tuple_at page slot bytes = Ok page' \<and> free_space page' = free_space page - (length bytes + 4)"
proof -
  note g = heap_okD(3) [OF ok]
  have ne: "bytes \<noteq> []" using header_read_Ok(1) [OF h] by auto
  have guard: "add_guard page slot bytes" using assms(3) room ne by (simp add: add_guard_def used_def LINE_POINTER_SIZE_def)
  have "add_tuple_at page slot bytes = Ok (add_write page slot bytes)"
    using add_room(4) [OF g guard] guard by (simp add: add_tuple_at_Ok_iff [OF g])
  moreover have "free_space (add_write page slot bytes) = free_space page - (length bytes + 4)"
    using add_write_header [OF g guard] assms(3) by (simp add: free_space_def)
  ultimately show ?thesis by blast
qed

text \<open>Transaction 1 inserts a row in slot 0, transaction 2 updates it to slot 1.\<close>

lemma hp_example:
  obtains p h0 h1 where "(heap_page_step 9)\<^sup>*\<^sup>* (init_with_special HEAP_SPECIAL_SIZE) p"
    and "hdr p = [0 \<mapsto> h0, 1 \<mapsto> h1]" and "t_xmin h0 = 1" and "t_xmax h0 = 2" and "visibility_xmax h0 = 2" and "hot_updated h0"
    and "t_ctid h0 = \<lparr>page_id = 9, slot_id = 1\<rparr>" and "t_xmin h1 = 2" and "t_cid h1 = 0" and "visibility_xmax h1 = 0"
    and "\<not> hot_updated h1"
proof -
  let ?p0 = "init_with_special HEAP_SPECIAL_SIZE"
  have ok0: "heap_ok ?p0" using heap_page_inv_start [of 9] by (simp add: heap_page_inv_def)
  have sc0: "slot_count ?p0 = 0" "free_space ?p0 = 8144"
    using init_with_special_effect [of HEAP_SPECIAL_SIZE] page_ex_free by (simp_all add: HEAP_SPECIAL_SIZE_def)
  have hd0: "hdr ?p0 = Map.empty"
    using init_with_special_ok [of HEAP_SPECIAL_SIZE] by (intro ext) (simp add: hdr_def HEAP_SPECIAL_SIZE_def)
  obtain b1 where b1: "stamp_xmin hp_tuple 1 = Ok b1" "length b1 = 64" "tuple_header_read b1 = Ok (hp_header\<lparr>t_xmin := 1\<rparr>)"
    using stamp_xmin_header [OF hp_tuple_facts(1), of 1] hp_tuple_facts(2) by auto
  obtain p1 where p1: "add_tuple_at ?p0 0 b1 = Ok p1" "free_space p1 = 8076"
    using add_succeeds [OF ok0 b1(3), of 0] sc0 b1(2) by auto
  note a1 = heap_add [OF ok0 p1(1) b1(3)]
  have sc1: "slot_count p1 = 1" using a1(5) sc0 by simp
  have st1: "heap_page_step 9 ?p0 p1" by (rule insert_step [OF hp_tuple_facts(3) b1(1) p1(1)])
  obtain b2 where b2: "stamp_xmin hp_tuple 2 = Ok b2" "length b2 = 64" "tuple_header_read b2 = Ok (hp_header\<lparr>t_xmin := 2\<rparr>)"
    using stamp_xmin_header [OF hp_tuple_facts(1), of 2] hp_tuple_facts(2) by auto
  let ?h1 = "hp_header\<lparr>t_xmin := 2, t_infomask2 := HEAP_ONLY_TUPLE\<rparr>"
  obtain b3 where b3: "stamp_hot_only b2 2 = Ok b3" "length b3 = 64" "tuple_header_read b3 = Ok ?h1"
    using stamp_hot_only_header [OF b2(3), of 2] b2(2) by (auto simp: hp_header_def tuple_header_new_def)
  let ?n = "\<lparr>page_id = 9, slot_id = 1\<rparr>" and ?t = "\<lparr>page_id = 9, slot_id = 0\<rparr>"
  let ?h0 = "hot_header 2 0 ?n (hp_header\<lparr>t_xmin := 1\<rparr>)"
  have "\<exists>q. stamps p1 ?t (hot_header 2 0 ?n) q" using a1(2) by (simp add: stamps_def)
  then obtain q where q: "stamps p1 ?t (hot_header 2 0 ?n) q" by blast
  obtain h where h: "hdr p1 (unat (slot_id ?t)) = Some h" "heap_ok q"
    "hdr q = (hdr p1)(unat (slot_id ?t) \<mapsto> hot_header 2 0 ?n h)" "slot_count q = slot_count p1" "page_header q = page_header p1"
    using stamps_effect [OF a1(1) q header_funs(2)] by blast
  have h0: "h = hp_header\<lparr>t_xmin := 1\<rparr>" using h(1) a1(2) by simp
  have f: "heap_ok q" "hdr q = (hdr p1)(0 \<mapsto> ?h0)" "slot_count q = 1" "free_space q = 8076"
    using h(2-5) sc1 p1(2) by (simp_all add: h0 free_space_def)
  obtain p2 where p2: "add_tuple_at q 1 b3 = Ok p2"
    using add_succeeds [OF f(1) b3(3), of 1] f(3,4) b3(2) by auto
  note a2 = heap_add [OF f(1) p2 b3(3)]
  have "heap_page_step 9 p1 p2"
    by (rule hot_update_step [OF hp_tuple_facts(3) b2(1) b3(1) _ p2, of _ ?t 0]) (simp only: stamp_Ok_iff [OF a1(1)] q)
  then have run: "(heap_page_step 9)\<^sup>*\<^sup>* ?p0 p2" using st1 by (meson rtranclp.simps)
  have "hdr p2 = [0 \<mapsto> ?h0, 1 \<mapsto> ?h1]" using a2(2) f(2) a1(2) hd0 by simp
  moreover have "visibility_xmax ?h0 = 2" "visibility_xmax ?h1 = 0"
    by (simp_all add: visibility_xmax_def hot_header_def deleted_header_def clear_lock_bits_def hp_header_def
        tuple_header_new_def HEAP_XMAX_LOCK_ONLY_def HEAP_XMAX_IS_SHARE_def HEAP_UPDATED_def TxnId_INVALID_def)
  moreover have "\<not> hot_updated ?h1" "t_cid ?h1 = 0"
    by (simp_all add: hot_updated_def HEAP_ONLY_TUPLE_def HEAP_HOT_UPDATED_def hp_header_def tuple_header_new_def)
  ultimately show ?thesis using that [OF run] hot_header_bits by simp
qed

section \<open>Properties\<close>

text \<open>
  C5. HOT chains always lead somewhere.  On every page the access method can build, by any mix of
  inserts, deletes, HOT updates, row locks and vacuum, following the chain from any version returns
  without the corruption error: it returns a visible version of the chain, and none only if no
  version from there on is visible.
\<close>

theorem hot_chain_lookup:
  assumes "heap_page_start p0" and "(heap_page_step pid)\<^sup>*\<^sup>* p0 p" and "tuples p (unat slot) \<noteq> None"
  shows "\<exists>r. follow_hot_chain p pid \<lparr>page_id = pid, slot_id = slot\<rparr> snap gs = Ok r \<and>
    (case r of
       None \<Rightarrow> \<forall>b. (unat slot, b) \<in> (hot_edges (hdr p))\<^sup>* \<longrightarrow> \<not> slot_visible gs snap (hdr p) b
     | Some t \<Rightarrow> page_id t = pid \<and> (unat slot, unat (slot_id t)) \<in> (hot_edges (hdr p))\<^sup>* \<and>
         slot_visible gs snap (hdr p) (unat (slot_id t)))"
proof -
  have inv: "heap_ok p" "hot_ok pid (hdr p)" using hp.inv_reachable [OF assms(1,2)] by (simp_all add: heap_page_inv_def)
  then have "hdr p (unat slot) \<noteq> None" using assms(3) by (simp add: hdr_None_iff)
  then obtain r where r: "follow_hot_chain p pid \<lparr>page_id = pid, slot_id = slot\<rparr> snap gs = Ok r"
    "case r of None \<Rightarrow> \<forall>b \<in> (hot_edges (hdr p))\<^sup>* `` {unat slot}. \<not> slot_visible gs snap (hdr p) b
     | Some t \<Rightarrow> page_id t = pid \<and> unat (slot_id t) \<in> (hot_edges (hdr p))\<^sup>* `` {unat slot} \<and>
         slot_visible gs snap (hdr p) (unat (slot_id t))"
    using follow_hot_chain_correct [OF inv, of "\<lparr>page_id = pid, slot_id = slot\<rparr>" snap gs, unfolded Tid.select_convs] by blast
  then show ?thesis by (intro exI [of _ r]) (cases r; simp)
qed

theorem hot_chain_lookup_witness:
  "\<exists>p r. (heap_page_step 9)\<^sup>*\<^sup>* (init_with_special HEAP_SPECIAL_SIZE) p \<and>
     follow_hot_chain p 9 \<lparr>page_id = 9, slot_id = 0\<rparr> everything noop_get_state = Ok (Some r) \<and> unat (slot_id r) = 1"
proof -
  obtain p h0 h1 where p: "(heap_page_step 9)\<^sup>*\<^sup>* (init_with_special HEAP_SPECIAL_SIZE) p" "hdr p = [0 \<mapsto> h0, 1 \<mapsto> h1]"
    "t_xmin h0 = 1" "visibility_xmax h0 = 2" "hot_updated h0" "t_ctid h0 = \<lparr>page_id = 9, slot_id = 1\<rparr>"
    "t_xmin h1 = 2" "visibility_xmax h1 = 0" "\<not> hot_updated h1"
    using hp_example by metis
  have st: "heap_page_start (init_with_special HEAP_SPECIAL_SIZE)" by (simp add: heap_page_start_def)
  have "tuples p 0 \<noteq> None" using p(2) by (auto simp: hdr_def fun_eq_iff split: option.splits dest: spec [of _ 0])
  then have u: "tuples p (unat (0 :: u16)) \<noteq> None" by simp
  have v: "slot_visible noop_get_state everything (hdr p) b \<longleftrightarrow> b = 1" for b
    using p by (auto simp: slot_visible_def header_visible_def is_visible_iff sees_commit_def everything_def noop_get_state_def
        TxnId_INVALID_def split: if_splits)
  have "(0, 1) \<in> hot_edges (hdr p)" using p(2,5,6) by (simp add: hot_edges_def)
  then have e: "(0, 1) \<in> (hot_edges (hdr p))\<^sup>*" by blast
  obtain r where r: "follow_hot_chain p 9 \<lparr>page_id = 9, slot_id = 0\<rparr> everything noop_get_state = Ok r"
    "case r of None \<Rightarrow> \<forall>b. (unat (0 :: u16), b) \<in> (hot_edges (hdr p))\<^sup>* \<longrightarrow> b \<noteq> 1
     | Some t \<Rightarrow> page_id t = 9 \<and> (unat (0 :: u16), unat (slot_id t)) \<in> (hot_edges (hdr p))\<^sup>* \<and> unat (slot_id t) = 1"
    using hot_chain_lookup [OF st p(1) u, of everything noop_get_state] unfolding v by blast
  then obtain t where "r = Some t" "unat (slot_id t) = 1" using e by (cases r) auto
  then show ?thesis using p(1) r(1) by blast
qed

end
