(* ===== verification/Heap_Am.thy ===== *)
theory Heap_Am
  imports Heap_Page
begin

unbundle bit_operations_syntax

text \<open>
  The heap access method of \<^verbatim>\<open>pg-am-heap/src/heap_am.rs\<close>: the page lists of relations, insertion,
  scanning, the row-lock gate with deletion, update and row locks behind it, and vacuum.

  The state is the \<^verbatim>\<open>HeapAM\<close> struct.  The buffer pool appears as the page images it serves; a change of
  a page is stored at once, so an error leaves behind what the code leaves behind.  The WAL writer and
  the page allocator are the state \<open>'e\<close> with the operations \<open>am_env\<close>.  The row waiter is the transaction
  manager.  A pass is one round of a restart loop, under the page latches the code takes; when the
  gate answers \<open>Wait\<close> the pass is \<open>Blocked\<close>, the caller sleeps in \<^verbatim>\<open>wait_for\<close> and starts the next pass.
  The commit log enters as its lookup function; \<open>get_state'\<close> is the log at the gate's second read.
\<close>

section \<open>State\<close>

datatype heap_wal =
    FullPageImage PageId page
  | HeapInsert PageId u16 "u8 list" TxnId
  | HeapUpdate Tid Tid TxnId "u8 list" TxnId
  | HeapDelete Tid TxnId TxnId
  | HeapHotUpdate PageId u16 u16 "u8 list" TxnId TxnId
  | HeapCleanup PageId "u16 list" PageId PageId

record 'e am_env =
  env_append :: "heap_wal \<Rightarrow> ('e, Lsn) io"
  env_alloc_page :: "('e, PageId) io"
  env_free_page :: "PageId \<Rightarrow> ('e, unit) io"

type_synonym pool = "(PageId, page) hmap"

record ('c, 'e) HeapAM =
  buffer_pool :: pool
  environment :: 'e
  rel_pages :: "(Oid, PageId list) hmap"
  row_waiter :: "'c TxnManager option"
  share_locks :: "(PageId \<times> u16, TxnId list) hmap"
  page_allocator :: bool

type_synonym ('c, 'e, 'a) am = "(('c, 'e) HeapAM, 'a, HeapError) sio"

record RelationDesc =
  rel_oid :: Oid
  first_page :: PageId
  rel_columns :: "ColumnType list"

definition heap_am_new :: "pool \<Rightarrow> 'e \<Rightarrow> ('c, 'e) HeapAM" where
  "heap_am_new pool env = \<lparr>buffer_pool = pool, environment = env, rel_pages = [], row_waiter = None,
     share_locks = [], page_allocator = False\<rparr>"

definition set_row_waiter :: "'c TxnManager \<Rightarrow> ('c, 'e) HeapAM \<Rightarrow> ('c, 'e) HeapAM" where
  "set_row_waiter waiter am = am\<lparr>row_waiter := Some waiter\<rparr>"

definition set_page_allocator :: "('c, 'e) HeapAM \<Rightarrow> ('c, 'e) HeapAM" where
  "set_page_allocator am = am\<lparr>page_allocator := True\<rparr>"

text \<open>Pages of the pool, results of page functions, and calls of the environment.\<close>

definition lift :: "'a heap_result \<Rightarrow> ('c, 'e, 'a) am" where
  "lift r am = (r, am)"

definition pin :: "PageId \<Rightarrow> ('c, 'e, page) am" where
  "pin pid am =
     (case hm_get (buffer_pool am) pid of
        Some page \<Rightarrow> (Ok page, am)
      | None \<Rightarrow> (Err (HeapStorage (PageNotFound pid)), am))"

definition put :: "PageId \<Rightarrow> page \<Rightarrow> ('c, 'e, unit) am" where
  "put pid page am = (Ok (), am\<lparr>buffer_pool := hm_insert pid page (buffer_pool am)\<rparr>)"

definition modify :: "PageId \<Rightarrow> (page \<Rightarrow> page heap_result) \<Rightarrow> ('c, 'e, unit) am" where
  "modify pid f = sbind (pin pid) (\<lambda>page. sbind (lift (f page)) (put pid))"

fun storage_err :: "('a, StorageError) outcome \<Rightarrow> 'a heap_result" where
  "storage_err (Ok x) = Ok x"
| "storage_err (Err e) = Err (HeapStorage e)"
| "storage_err Panic = Panic"

definition env_call :: "('e, 'a) io \<Rightarrow> ('c, 'e, 'a) am" where
  "env_call f am = (case f (environment am) of (r, env) \<Rightarrow> (storage_err r, am\<lparr>environment := env\<rparr>))"

definition wal_append :: "'e am_env \<Rightarrow> heap_wal \<Rightarrow> ('c, 'e, Lsn) am" where
  "wal_append ops rec = env_call (env_append ops rec)"

text \<open>\<^verbatim>\<open>BufferPool::new_page\<close>: an allocated page, zero-filled.\<close>

definition new_page :: "'e am_env \<Rightarrow> ('c, 'e, PageId) am" where
  "new_page ops =
     sbind (env_call (env_alloc_page ops)) (\<lambda>pid. sbind (put pid (replicate PAGE_SIZE 0)) (\<lambda>_. sret pid))"

definition stamp_lsn :: "PageId \<Rightarrow> Lsn \<Rightarrow> ('c, 'e, unit) am" where
  "stamp_lsn pid lsn = modify pid (\<lambda>page. Ok (heap_stamp_pd_lsn page lsn))"

section \<open>The pages of a relation\<close>

definition log_page_init :: "'e am_env \<Rightarrow> PageId \<Rightarrow> ('c, 'e, unit) am" where
  "log_page_init ops pid =
     sbind (pin pid) (\<lambda>image. sbind (wal_append ops (FullPageImage pid image)) (stamp_lsn pid))"

definition create_heap :: "'e am_env \<Rightarrow> Oid \<Rightarrow> ('c, 'e, PageId) am" where
  "create_heap ops oid =
     sbind (new_page ops) (\<lambda>pid.
     sbind (put pid (init_with_special HEAP_SPECIAL_SIZE)) (\<lambda>_.
     sbind (log_page_init ops pid) (\<lambda>_ am.
       (Ok pid, am\<lparr>rel_pages := hm_insert oid [pid] (rel_pages am)\<rparr>))))"

text \<open>The loop of \<^verbatim>\<open>seed_from_chain\<close>: \<open>seen\<close> are the pages before \<open>current\<close>.\<close>

function seed_loop :: "pool \<Rightarrow> PageId list \<Rightarrow> PageId \<Rightarrow> PageId list heap_result" where
  "seed_loop pool seen current =
     (case hm_get pool current of
        None \<Rightarrow> Err (HeapStorage (PageNotFound current))
      | Some page \<Rightarrow>
          let pages = seen @ [current] in
          if pd_upper (page_header page) = 0 then Ok pages
          else (case next_page page of
                  Err e \<Rightarrow> Err e
                | Panic \<Rightarrow> Panic
                | Ok None \<Rightarrow> Ok pages
                | Ok (Some nxt) \<Rightarrow> if nxt \<in> set pages then Err Corrupted else seed_loop pool pages nxt))"
  by pat_completeness auto

termination
proof (relation "measure (\<lambda>(pool, seen, current).
    2 * card (fst ` set pool - set seen) + (if current \<in> set seen then 1 else 0))")
  fix pool :: pool and seen current page pages x2 x1 nxt
  assume "hm_get pool current = Some page" and pages: "pages = seen @ [current]" and n: "nxt \<notin> set pages"
  then have "current \<in> fst ` set pool" by (metis image_eqI fst_conv map_of_SomeD)
  then have "current \<notin> set seen \<Longrightarrow> card (fst ` set pool - set pages) < card (fst ` set pool - set seen)"
    unfolding pages by (intro psubset_card_mono) auto
  moreover have "card (fst ` set pool - set pages) \<le> card (fst ` set pool - set seen)"
    unfolding pages by (intro card_mono) auto
  ultimately show "((pool, pages, nxt), pool, seen, current) \<in> measure (\<lambda>(pool, seen, current).
      2 * card (fst ` set pool - set seen) + (if current \<in> set seen then 1 else 0))"
    using n by (cases "current \<in> set seen") (auto simp: less_Suc_eq_le)
qed simp

declare seed_loop.simps [simp del]

definition seed_from_chain :: "PageId \<Rightarrow> ('c, 'e, PageId list) am" where
  "seed_from_chain first am = (seed_loop (buffer_pool am) [] first, am)"

definition relation_pages :: "RelationDesc \<Rightarrow> ('c, 'e, PageId list) am" where
  "relation_pages rel am =
     (case hm_get (rel_pages am) (rel_oid rel) of
        Some pages \<Rightarrow> (Ok pages, am)
      | None \<Rightarrow>
          sbind (seed_from_chain (first_page rel)) (\<lambda>seeded am.
            (Ok seeded, am\<lparr>rel_pages := hm_insert (rel_oid rel) seeded (rel_pages am)\<rparr>)) am)"

definition track_page :: "Oid \<Rightarrow> PageId \<Rightarrow> ('c, 'e) HeapAM \<Rightarrow> ('c, 'e) HeapAM" where
  "track_page oid pid am =
     (let pages = (case hm_get (rel_pages am) oid of None \<Rightarrow> [] | Some pages \<Rightarrow> pages)
      in am\<lparr>rel_pages := hm_insert oid (if pid \<in> set pages then pages else pages @ [pid]) (rel_pages am)\<rparr>)"

definition drop_relation :: "Oid \<Rightarrow> ('c, 'e) HeapAM \<Rightarrow> ('c, 'e) HeapAM" where
  "drop_relation oid am = am\<lparr>rel_pages := hm_remove oid (rel_pages am)\<rparr>"

definition evict_page :: "Oid \<Rightarrow> PageId \<Rightarrow> ('c, 'e) HeapAM \<Rightarrow> ('c, 'e) HeapAM" where
  "evict_page oid pid am =
     (case hm_get (rel_pages am) oid of
        None \<Rightarrow> am
      | Some pages \<Rightarrow> am\<lparr>rel_pages := hm_insert oid (filter (\<lambda>p. p \<noteq> pid) pages) (rel_pages am)\<rparr>)"

definition init_fresh :: "PageId \<Rightarrow> ('c, 'e, page) am" where
  "init_fresh pid =
     sbind (modify pid (\<lambda>page. Ok (init_if_fresh_with_special page HEAP_SPECIAL_SIZE))) (\<lambda>_. pin pid)"

fun room_loop :: "PageId list \<Rightarrow> nat \<Rightarrow> PageId \<Rightarrow> ('c, 'e, PageId option) am" where
  "room_loop [] needed exclude = sret None"
| "room_loop (pid # pids) needed exclude =
     (if pid = exclude then room_loop pids needed exclude
      else sbind (init_fresh pid) (\<lambda>page.
        if needed \<le> free_space page then sret (Some pid) else room_loop pids needed exclude))"

definition extend_chain :: "'e am_env \<Rightarrow> RelationDesc \<Rightarrow> nat \<Rightarrow> PageId \<Rightarrow> ('c, 'e, PageId) am" where
  "extend_chain ops rel needed exclude =
     sbind (relation_pages rel) (\<lambda>pages.
     if pages = [] then lift Panic
     else let tail = last pages in
     sbind (room_loop [tail] needed exclude) (\<lambda>found.
     case found of
       Some pid \<Rightarrow> sret pid
     | None \<Rightarrow>
         sbind (new_page ops) (\<lambda>new_page_id.
         sbind (put new_page_id (init_with_special HEAP_SPECIAL_SIZE)) (\<lambda>_.
         sbind (log_page_init ops new_page_id) (\<lambda>_.
         sbind (init_fresh tail) (\<lambda>_.
         sbind (modify tail (\<lambda>page. set_next_page page (Some new_page_id))) (\<lambda>_.
         sbind (log_page_init ops tail) (\<lambda>_ am.
           (Ok new_page_id, track_page (rel_oid rel) new_page_id am)))))))))"

definition acquire_page_with_room :: "'e am_env \<Rightarrow> RelationDesc \<Rightarrow> nat \<Rightarrow> PageId \<Rightarrow> ('c, 'e, PageId) am" where
  "acquire_page_with_room ops rel needed exclude =
     sbind (relation_pages rel) (\<lambda>pages.
     sbind (room_loop (rev pages) needed exclude) (\<lambda>found.
     case found of
       Some pid \<Rightarrow> sret pid
     | None \<Rightarrow> extend_chain ops rel needed exclude))"

section \<open>Insert and scan\<close>

definition choose_slot :: "page \<Rightarrow> u16" where
  "choose_slot page = (case first_fit_slot page of Some slot \<Rightarrow> slot | None \<Rightarrow> of_nat (slot_count page))"

definition heap_insert :: "'e am_env \<Rightarrow> RelationDesc \<Rightarrow> Snapshot \<Rightarrow> u8 list \<Rightarrow> ('c, 'e, Tid) am" where
  "heap_insert ops rel snapshot tuple =
     sbind (lift (validate_tuple_len tuple)) (\<lambda>_.
     sbind (lift (stamp_xmin tuple (current_xid snapshot))) (\<lambda>tuple.
     let needed = length tuple + LINE_POINTER_SIZE in
     sbind (acquire_page_with_room ops rel needed PageId_INVALID) (\<lambda>pid.
     sbind (pin pid) (\<lambda>page.
     let slot = choose_slot page in
     sbind (wal_append ops (HeapInsert pid slot tuple (current_xid snapshot))) (\<lambda>lsn.
     sbind (modify pid (\<lambda>page. add_tuple_at page slot tuple)) (\<lambda>_.
     sbind (stamp_lsn pid lsn) (\<lambda>_.
     sret \<lparr>page_id = pid, slot_id = slot\<rparr>)))))))"

fun scan_pages ::
    "RelationDesc \<Rightarrow> Snapshot \<Rightarrow> (TxnId \<Rightarrow> TxnState) \<Rightarrow> PageId list \<Rightarrow> ('c, 'e, (Tid \<times> Datum option list) list) am" where
  "scan_pages rel snap get_state [] = sret []"
| "scan_pages rel snap get_state (pid # pids) =
     sbind (pin pid) (\<lambda>page.
     sbind (lift (scan_page page pid (rel_columns rel) snap get_state)) (\<lambda>rows.
     sbind (scan_pages rel snap get_state pids) (\<lambda>more. sret (rows @ more))))"

definition heap_scan ::
    "RelationDesc \<Rightarrow> Snapshot \<Rightarrow> (TxnId \<Rightarrow> TxnState) \<Rightarrow> ('c, 'e, (Tid \<times> Datum option list) list) am" where
  "heap_scan rel snap get_state = sbind (relation_pages rel) (scan_pages rel snap get_state)"

section \<open>The row-lock gate\<close>

datatype RowLockGate = Proceed | ProceedNoStamp | Wait TxnId

datatype LockRequest = Writer | Exclusive | Shared

text \<open>A \<^verbatim>\<open>BTreeSet\<close> of transactions is an ascending list.\<close>

definition bset_insert :: "TxnId \<Rightarrow> TxnId list \<Rightarrow> TxnId list" where
  "bset_insert x xs = (if x \<in> set xs then xs else insort x xs)"

definition lock_key :: "Tid \<Rightarrow> PageId \<times> u16" where
  "lock_key tid = (page_id tid, slot_id tid)"

definition share_holders :: "Tid \<Rightarrow> ('c, 'e) HeapAM \<Rightarrow> TxnId list" where
  "share_holders tid am = (case hm_get (share_locks am) (lock_key tid) of None \<Rightarrow> [] | Some hs \<Rightarrow> hs)"

fun live_loop ::
    "(TxnId \<Rightarrow> TxnState) \<Rightarrow> 'c TxnManager option \<Rightarrow> Tid \<Rightarrow> TxnId list \<Rightarrow> TxnId list heap_result" where
  "live_loop get_state waiter tid [] = Ok []"
| "live_loop get_state waiter tid (h # hs) =
     (if get_state h = Committed \<or> get_state h = Aborted then live_loop get_state waiter tid hs
      else case waiter of
        None \<Rightarrow> Err (TupleNotFound tid)
      | Some w \<Rightarrow>
          if is_active w h then obind (live_loop get_state waiter tid hs) (\<lambda>live. Ok (h # live))
          else live_loop get_state waiter tid hs)"

definition live_share_holders ::
    "Tid \<Rightarrow> TxnId \<Rightarrow> (TxnId \<Rightarrow> TxnState) \<Rightarrow> ('c, 'e, TxnId list) am" where
  "live_share_holders tid stamp_xmax get_state am =
     sbind (lift (live_loop get_state (row_waiter am) tid (bset_insert stamp_xmax (share_holders tid am)))) (\<lambda>live am.
       (Ok live, am\<lparr>share_locks := (if live = [] then hm_remove (lock_key tid) (share_locks am)
                                  else hm_insert (lock_key tid) live (share_locks am))\<rparr>)) am"

definition note_stamp_overwrite :: "Tid \<Rightarrow> TxnId \<Rightarrow> LockRequest \<Rightarrow> ('c, 'e, unit) am" where
  "note_stamp_overwrite tid self_xid request am =
     (Ok (), am\<lparr>share_locks := (if request = Shared then hm_insert (lock_key tid) [self_xid] (share_locks am)
                               else hm_remove (lock_key tid) (share_locks am))\<rparr>)"

definition register_share_holder :: "Tid \<Rightarrow> TxnId \<Rightarrow> ('c, 'e, unit) am" where
  "register_share_holder tid xid am =
     (Ok (), am\<lparr>share_locks := hm_insert (lock_key tid) (bset_insert xid (share_holders tid am)) (share_locks am)\<rparr>)"

definition register_wait_edge :: "TxnId \<Rightarrow> TxnId \<Rightarrow> ('c, 'e, unit) am" where
  "register_wait_edge self_xid blocking am =
     (case row_waiter am of
        None \<Rightarrow> (Panic, am)
      | Some w \<Rightarrow> (Ok (), am\<lparr>row_waiter := Some (register_row_wait self_xid blocking w)\<rparr>))"

definition overwrite :: "Tid \<Rightarrow> TxnId \<Rightarrow> LockRequest \<Rightarrow> ('c, 'e, RowLockGate) am" where
  "overwrite tid self_xid request = sbind (note_stamp_overwrite tid self_xid request) (\<lambda>_. sret Proceed)"

definition wait_on :: "TxnId \<Rightarrow> TxnId \<Rightarrow> ('c, 'e, RowLockGate) am" where
  "wait_on self_xid blocking = sbind (register_wait_edge self_xid blocking) (\<lambda>_. sret (Wait blocking))"

definition join_share :: "Tid \<Rightarrow> TxnId \<Rightarrow> ('c, 'e, RowLockGate) am" where
  "join_share tid self_xid = sbind (register_share_holder tid self_xid) (\<lambda>_. sret ProceedNoStamp)"

text \<open>Wait for the first holder other than the requester, or overwrite the stamp.\<close>

definition wait_or_overwrite ::
    "Tid \<Rightarrow> TxnId \<Rightarrow> LockRequest \<Rightarrow> TxnId list \<Rightarrow> ('c, 'e, RowLockGate) am" where
  "wait_or_overwrite tid self_xid request live =
     (case find (\<lambda>h. h \<noteq> self_xid) live of
        Some blocking \<Rightarrow> wait_on self_xid blocking
      | None \<Rightarrow> overwrite tid self_xid request)"

definition share_stamp_gate ::
    "Tid \<Rightarrow> TxnId \<Rightarrow> TxnId \<Rightarrow> (TxnId \<Rightarrow> TxnState) \<Rightarrow> LockRequest \<Rightarrow> ('c, 'e, RowLockGate) am" where
  "share_stamp_gate tid self_xid stamp_xmax get_state request =
     sbind (live_share_holders tid stamp_xmax get_state) (\<lambda>live.
       if self_xid \<in> set live
       then if request = Shared then join_share tid self_xid
            else wait_or_overwrite tid self_xid request live
       else if request = Shared
       then if live = [] then overwrite tid self_xid request else join_share tid self_xid
       else case live of
         blocking # _ \<Rightarrow> wait_on self_xid blocking
       | [] \<Rightarrow> overwrite tid self_xid request)"

text \<open>The gate's verdict on a stamp whose transaction is not running, or on one that has ended.\<close>

definition settled_gate ::
    "Tid \<Rightarrow> TxnId \<Rightarrow> bool \<Rightarrow> TxnState \<Rightarrow> LockRequest \<Rightarrow> ('c, 'e, RowLockGate) am" where
  "settled_gate tid self_xid lock_only st request am =
     (if st = Committed \<and> \<not> lock_only
      then (Err (if row_waiter am = None then TupleNotFound tid else TupleConcurrentlyUpdated tid), am)
      else overwrite tid self_xid request am)"

definition row_lock_gate ::
    "page \<Rightarrow> Tid \<Rightarrow> TxnId \<Rightarrow> (TxnId \<Rightarrow> TxnState) \<Rightarrow> (TxnId \<Rightarrow> TxnState) \<Rightarrow> LockRequest \<Rightarrow> ('c, 'e, RowLockGate) am" where
  "row_lock_gate page tid self_xid get_state get_state' request =
     sbind (lift (slot_header page tid)) (\<lambda>(_, header) am.
       let xmax = t_xmax header;
           lock_only = (t_infomask header AND HEAP_XMAX_LOCK_ONLY \<noteq> 0);
           is_share = (t_infomask header AND HEAP_XMAX_IS_SHARE \<noteq> 0)
       in if xmax = TxnId_INVALID then overwrite tid self_xid request am
          else if xmax = self_xid
          then if \<not> lock_only
               then if request \<noteq> Writer then (Err InvalidArgument, am) else (Ok Proceed, am)
               else if is_share
               then if request = Shared then join_share tid self_xid am
                    else sbind (live_share_holders tid xmax get_state) (wait_or_overwrite tid self_xid request) am
               else if request = Shared then (Ok ProceedNoStamp, am) else (Ok Proceed, am)
          else if is_share then share_stamp_gate tid self_xid xmax get_state request am
          else let st = get_state xmax in
          if st = InProgress \<or> st = SubCommitted
          then case row_waiter am of
                 None \<Rightarrow> (Err (TupleNotFound tid), am)
               | Some w \<Rightarrow>
                   if is_active w xmax then wait_on self_xid xmax am
                   else settled_gate tid self_xid lock_only (get_state' xmax) request am
          else settled_gate tid self_xid lock_only st request am)"

datatype 'a pass = Done 'a | Blocked TxnId | Restart

text \<open>
  \<^verbatim>\<open>wait_row_lock\<close> on one pass of \<^verbatim>\<open>wait_for\<close>; \<open>None\<close> is a waiter still asleep.
\<close>

definition wait_row_lock ::
    "TxnId \<Rightarrow> TxnId \<Rightarrow> 'c TxnManager \<Rightarrow> unit heap_result option \<times> 'c TxnManager" where
  "wait_row_lock self_xid blocking tm =
     (case wait_for_iter self_xid blocking tm of
        (tm', WaitDone) \<Rightarrow> (Some (Ok ()), tm')
      | (tm', WaitVictim _) \<Rightarrow> (Some (Err HeapDeadlockVictim), unregister_row_wait self_xid tm')
      | (tm', SelfWait _) \<Rightarrow> (Some (Err InvalidArgument), unregister_row_wait self_xid tm')
      | (tm', Sleeping) \<Rightarrow> (None, tm'))"

definition gate_at ::
    "Tid \<Rightarrow> TxnId \<Rightarrow> (TxnId \<Rightarrow> TxnState) \<Rightarrow> (TxnId \<Rightarrow> TxnState) \<Rightarrow> LockRequest \<Rightarrow> ('c, 'e, RowLockGate) am" where
  "gate_at tid self_xid get_state get_state' request =
     sbind (pin (page_id tid)) (\<lambda>page. row_lock_gate page tid self_xid get_state get_state' request)"

definition lock_tuple ::
    "Tid \<Rightarrow> Snapshot \<Rightarrow> (TxnId \<Rightarrow> TxnState) \<Rightarrow> (TxnId \<Rightarrow> TxnState) \<Rightarrow> ('c, 'e, unit pass) am" where
  "lock_tuple tid snapshot get_state get_state' =
     sbind (gate_at tid (current_xid snapshot) get_state get_state' Exclusive) (\<lambda>gate.
       case gate of
         Proceed \<Rightarrow>
           sbind (modify (page_id tid) (\<lambda>page. stamp_lock_only page tid (current_xid snapshot) (curcid snapshot) False))
             (\<lambda>_. sret (Done ()))
       | ProceedNoStamp \<Rightarrow> lift Panic
       | Wait blocking \<Rightarrow> sret (Blocked blocking))"

definition lock_tuple_shared ::
    "Tid \<Rightarrow> Snapshot \<Rightarrow> (TxnId \<Rightarrow> TxnState) \<Rightarrow> (TxnId \<Rightarrow> TxnState) \<Rightarrow> ('c, 'e, unit pass) am" where
  "lock_tuple_shared tid snapshot get_state get_state' =
     sbind (gate_at tid (current_xid snapshot) get_state get_state' Shared) (\<lambda>gate.
       case gate of
         Proceed \<Rightarrow>
           sbind (modify (page_id tid) (\<lambda>page. stamp_lock_only page tid (current_xid snapshot) (curcid snapshot) True))
             (\<lambda>_. sret (Done ()))
       | ProceedNoStamp \<Rightarrow> sret (Done ())
       | Wait blocking \<Rightarrow> sret (Blocked blocking))"

section \<open>Delete and update\<close>

definition heap_delete ::
    "'e am_env \<Rightarrow> Tid \<Rightarrow> Snapshot \<Rightarrow> (TxnId \<Rightarrow> TxnState) \<Rightarrow> (TxnId \<Rightarrow> TxnState) \<Rightarrow> ('c, 'e, unit pass) am" where
  "heap_delete ops tid snapshot get_state get_state' =
     (let xmax = current_xid snapshot in
      sbind (gate_at tid xmax get_state get_state' Writer) (\<lambda>gate.
        case gate of
          Wait blocking \<Rightarrow> sret (Blocked blocking)
        | _ \<Rightarrow>
            sbind (wal_append ops (HeapDelete tid xmax xmax)) (\<lambda>lsn.
            sbind (modify (page_id tid) (\<lambda>page. stamp_deleted page tid xmax (curcid snapshot) False)) (\<lambda>_.
            sbind (stamp_lsn (page_id tid) lsn) (\<lambda>_. sret (Done ()))))))"

text \<open>The new version fits on the page of the old one.\<close>

definition update_same_page ::
    "'e am_env \<Rightarrow> Tid \<Rightarrow> Snapshot \<Rightarrow> u8 list \<Rightarrow> bool \<Rightarrow> page \<Rightarrow> ('c, 'e, Tid) am" where
  "update_same_page ops old_tid snapshot new_tuple hot_eligible old_page =
     (let xmax = current_xid snapshot; pid = page_id old_tid; new_slot = choose_slot old_page;
          new_tid = \<lparr>page_id = pid, slot_id = new_slot\<rparr>
      in if hot_eligible
         then sbind (lift (stamp_hot_only new_tuple xmax)) (\<lambda>hot_tuple.
              sbind (wal_append ops (HeapHotUpdate pid (slot_id old_tid) new_slot hot_tuple xmax xmax)) (\<lambda>lsn.
              sbind (modify pid (\<lambda>page. stamp_hot_update page old_tid xmax (curcid snapshot) new_tid)) (\<lambda>_.
              sbind (modify pid (\<lambda>page. add_tuple_at page new_slot hot_tuple)) (\<lambda>_.
              sbind (stamp_lsn pid lsn) (\<lambda>_. sret new_tid)))))
         else sbind (wal_append ops (HeapUpdate old_tid new_tid xmax new_tuple xmax)) (\<lambda>lsn.
              sbind (modify pid (\<lambda>page. stamp_deleted page old_tid xmax (curcid snapshot) True)) (\<lambda>_.
              sbind (modify pid (\<lambda>page. add_tuple_at page new_slot new_tuple)) (\<lambda>_.
              sbind (stamp_lsn pid lsn) (\<lambda>_. sret new_tid)))))"

text \<open>The new version goes to another page, after the gate has been run again.\<close>

definition update_cross_page ::
    "'e am_env \<Rightarrow> Tid \<Rightarrow> PageId \<Rightarrow> Snapshot \<Rightarrow> u8 list \<Rightarrow> (TxnId \<Rightarrow> TxnState) \<Rightarrow> (TxnId \<Rightarrow> TxnState) \<Rightarrow>
     ('c, 'e, Tid pass) am" where
  "update_cross_page ops old_tid new_page_id snapshot new_tuple get_state get_state' =
     (let xmax = current_xid snapshot; old_pid = page_id old_tid in
      sbind (gate_at old_tid xmax get_state get_state' Writer) (\<lambda>gate.
        case gate of
          Wait blocking \<Rightarrow> sret (Blocked blocking)
        | _ \<Rightarrow>
            sbind (pin new_page_id) (\<lambda>page.
            let new_slot = choose_slot page; new_tid = \<lparr>page_id = new_page_id, slot_id = new_slot\<rparr> in
            sbind (wal_append ops (HeapUpdate old_tid new_tid xmax new_tuple xmax)) (\<lambda>lsn.
            sbind (modify old_pid (\<lambda>page. stamp_deleted page old_tid xmax (curcid snapshot) True)) (\<lambda>_.
            sbind (stamp_lsn old_pid lsn) (\<lambda>_.
            sbind (modify new_page_id (\<lambda>page. add_tuple_at page new_slot new_tuple)) (\<lambda>_.
            sbind (stamp_lsn new_page_id lsn) (\<lambda>_. sret (Done new_tid)))))))))"

definition heap_update ::
    "'e am_env \<Rightarrow> RelationDesc \<Rightarrow> Snapshot \<Rightarrow> Tid \<Rightarrow> u8 list \<Rightarrow> bool \<Rightarrow> (TxnId \<Rightarrow> TxnState) \<Rightarrow> (TxnId \<Rightarrow> TxnState) \<Rightarrow>
     ('c, 'e, Tid pass) am" where
  "heap_update ops rel snapshot old_tid new_tuple hot_eligible get_state get_state' =
     sbind (lift (validate_tuple_len new_tuple)) (\<lambda>_.
     sbind (lift (stamp_xmin new_tuple (current_xid snapshot))) (\<lambda>new_tuple.
     let needed = length new_tuple + LINE_POINTER_SIZE in
     sbind (gate_at old_tid (current_xid snapshot) get_state get_state' Writer) (\<lambda>gate.
     case gate of
       Wait blocking \<Rightarrow> sret (Blocked blocking)
     | _ \<Rightarrow>
         sbind (pin (page_id old_tid)) (\<lambda>old_page.
         if needed \<le> free_space old_page
         then sbind (update_same_page ops old_tid snapshot new_tuple hot_eligible old_page) (\<lambda>tid. sret (Done tid))
         else sbind (acquire_page_with_room ops rel needed (page_id old_tid)) (\<lambda>new_page_id.
              sbind (pin new_page_id) (\<lambda>new_page.
              if page_id old_tid < new_page_id \<and> \<not> needed \<le> free_space new_page then sret Restart
              else update_cross_page ops old_tid new_page_id snapshot new_tuple get_state get_state'))))))"

section \<open>Vacuum\<close>

definition MAX_HEAP_CLEANUP_SLOTS :: nat where
  "MAX_HEAP_CLEANUP_SLOTS = (PAGE_SIZE - 32 - 16) div 4"

definition heap_cleanup_record :: "PageId \<Rightarrow> u16 list \<Rightarrow> PageId \<Rightarrow> PageId \<Rightarrow> heap_wal heap_result" where
  "heap_cleanup_record pid dead prev nxt =
     (if \<not> successively (<) dead then Err (HeapStorage Serialize)
      else if MAX_HEAP_CLEANUP_SLOTS < length dead then Err (HeapStorage Serialize)
      else Ok (HeapCleanup pid dead prev nxt))"

definition page_link :: "PageId \<Rightarrow> PageId option" where
  "page_link pid = (if pid = PageId_INVALID then None else Some pid)"

definition compact_page ::
    "'e am_env \<Rightarrow> PageId \<Rightarrow> u16 list \<Rightarrow> PageId \<Rightarrow> PageId \<Rightarrow> ('c, 'e, Lsn) am" where
  "compact_page ops pid dead unlink_prev_page unlink_next_page =
     sbind (if unlink_prev_page \<noteq> PageId_INVALID then sbind (pin unlink_prev_page) (\<lambda>_. sret ()) else sret ()) (\<lambda>_.
     sbind (pin pid) (\<lambda>_.
     sbind (lift (heap_cleanup_record pid dead unlink_prev_page unlink_next_page)) (\<lambda>rec.
     sbind (wal_append ops rec) (\<lambda>lsn.
     sbind (modify pid (\<lambda>page. compact page dead)) (\<lambda>_.
     sbind (stamp_lsn pid lsn) (\<lambda>_.
     sbind (if unlink_prev_page \<noteq> PageId_INVALID
            then sbind (modify unlink_prev_page (\<lambda>prev. set_next_page prev (page_link unlink_next_page)))
                   (\<lambda>_. stamp_lsn unlink_prev_page lsn)
            else sret ()) (\<lambda>_. sret lsn)))))))"

record DeadClassification =
  index_keys :: "(Tid \<times> Datum option list) list"
  kills :: "(PageId \<times> u16 list) list"

fun classify_pages ::
    "RelationDesc \<Rightarrow> Tid list \<Rightarrow> PageId list \<Rightarrow> ('c, 'e, DeadClassification) am" where
  "classify_pages rel dead [] = sret \<lparr>index_keys = [], kills = []\<rparr>"
| "classify_pages rel dead (pid # pids) =
     sbind (pin pid) (\<lambda>page.
     sbind (lift (classify_page page pid (rel_columns rel) dead
              (map slot_id (filter (\<lambda>t. page_id t = pid) dead)))) (\<lambda>(keys, ks).
     sbind (classify_pages rel dead pids) (\<lambda>out.
     sret \<lparr>index_keys = keys @ index_keys out, kills = (if ks = [] then kills out else (pid, ks) # kills out)\<rparr>)))"

definition classify_dead_tuples :: "RelationDesc \<Rightarrow> Tid list \<Rightarrow> ('c, 'e, DeadClassification) am" where
  "classify_dead_tuples rel dead = classify_pages rel dead (sort (remdups (map page_id dead)))"

fun dead_of_pages ::
    "TxnId \<Rightarrow> (TxnId \<Rightarrow> TxnState) \<Rightarrow> PageId list \<Rightarrow> ('c, 'e, Tid list) am" where
  "dead_of_pages oldest_xmin get_state [] = sret []"
| "dead_of_pages oldest_xmin get_state (pid # pids) =
     sbind (pin pid) (\<lambda>page.
     sbind (lift (dead_of_page page pid oldest_xmin get_state)) (\<lambda>tids.
     sbind (dead_of_pages oldest_xmin get_state pids) (\<lambda>more. sret (tids @ more))))"

definition scan_dead_tuples ::
    "RelationDesc \<Rightarrow> TxnId \<Rightarrow> (TxnId \<Rightarrow> TxnState) \<Rightarrow> ('c, 'e, Tid list) am" where
  "scan_dead_tuples rel oldest_xmin get_state =
     sbind (relation_pages rel) (dead_of_pages oldest_xmin get_state)"

definition collect_index_keys :: "RelationDesc \<Rightarrow> Tid list \<Rightarrow> ('c, 'e, (Tid \<times> Datum option list) list) am" where
  "collect_index_keys rel dead = sbind (classify_dead_tuples rel dead) (\<lambda>out. sret (index_keys out))"

fun count_live :: "page \<Rightarrow> nat list \<Rightarrow> nat heap_result" where
  "count_live page [] = Ok 0"
| "count_live page (slot # slots) =
     obind (line_pointer page (of_nat slot)) (\<lambda>lp.
     obind (count_live page slots) (\<lambda>live. Ok (if lp_flags lp \<noteq> Unused then live + 1 else live)))"

definition becomes_empty :: "page \<Rightarrow> u16 list \<Rightarrow> (bool \<times> PageId option) heap_result" where
  "becomes_empty page ks =
     obind (count_live page [0..<slot_count page]) (\<lambda>live. obind (next_page page) (\<lambda>nxt. Ok (live = length ks, nxt)))"

text \<open>The nearest page left of \<open>pid\<close> in the chain that has not been removed.\<close>

definition chain_prev :: "PageId list \<Rightarrow> PageId list \<Rightarrow> PageId \<Rightarrow> PageId option" where
  "chain_prev chain_pages removed pid =
     find (\<lambda>p. p \<notin> set removed) (rev (takeWhile (\<lambda>p. p \<noteq> pid) chain_pages))"

text \<open>Unlink an emptied page from the chain, forget it, and free it, in this order.\<close>

definition release_page ::
    "'e am_env \<Rightarrow> RelationDesc \<Rightarrow> PageId \<Rightarrow> u16 list \<Rightarrow> PageId \<Rightarrow> PageId option \<Rightarrow> ('c, 'e, unit) am" where
  "release_page ops rel pid ks prev nxt am =
     (if \<not> page_allocator am then (Err InvalidArgument, am)
      else sbind (compact_page ops pid ks prev (case nxt of None \<Rightarrow> PageId_INVALID | Some n \<Rightarrow> n)) (\<lambda>_ am.
           env_call (env_free_page ops pid) (evict_page (rel_oid rel) pid am)) am)"

text \<open>One iteration of the loop of \<^verbatim>\<open>reclaim\<close>; the result is the set of removed pages.\<close>

definition reclaim_page ::
    "'e am_env \<Rightarrow> RelationDesc \<Rightarrow> PageId list \<Rightarrow> PageId list \<Rightarrow> PageId \<Rightarrow> u16 list \<Rightarrow> ('c, 'e, PageId list) am" where
  "reclaim_page ops rel chain_pages removed pid ks =
     sbind (pin pid) (\<lambda>page.
     sbind (lift (becomes_empty page ks)) (\<lambda>(emptied, nxt).
     if emptied \<and> pid \<noteq> first_page rel
     then if pid \<notin> set chain_pages then lift (Err Corrupted)
          else case chain_prev chain_pages removed pid of
            None \<Rightarrow> lift (Err Corrupted)
          | Some prev \<Rightarrow> sbind (release_page ops rel pid ks prev nxt) (\<lambda>_. sret (pid # removed))
     else sbind (compact_page ops pid ks PageId_INVALID PageId_INVALID) (\<lambda>_. sret removed)))"

fun reclaim_pages ::
    "'e am_env \<Rightarrow> RelationDesc \<Rightarrow> PageId list \<Rightarrow> PageId list \<Rightarrow> (PageId \<times> u16 list) list \<Rightarrow> ('c, 'e, unit) am" where
  "reclaim_pages ops rel chain_pages removed [] = sret ()"
| "reclaim_pages ops rel chain_pages removed ((pid, ks) # rest) =
     sbind (reclaim_page ops rel chain_pages removed pid ks) (\<lambda>removed.
       reclaim_pages ops rel chain_pages removed rest)"

definition reclaim :: "'e am_env \<Rightarrow> RelationDesc \<Rightarrow> Tid list \<Rightarrow> ('c, 'e, unit) am" where
  "reclaim ops rel dead =
     sbind (classify_dead_tuples rel dead) (\<lambda>c.
     if kills c = [] then sret ()
     else sbind (relation_pages rel) (\<lambda>chain_pages. reclaim_pages ops rel chain_pages [] (kills c)))"

end
