(* ===== verification/Heap_Vacuum.thy ===== *)
theory Heap_Vacuum
  imports Heap_Am
begin

text \<open>
  Vacuum and the rest of the system.  \<^verbatim>\<open>scan_dead_tuples\<close> with the horizon of the transaction manager,
  then \<^verbatim>\<open>reclaim\<close>, change no scan of a live snapshot; and reclaiming keeps the page chain on disk and the
  page list in memory the same list.
\<close>

section \<open>Effects of the state operations\<close>

lemma lift_Ok [simp]: "lift r am = (Ok x, am') \<longleftrightarrow> r = Ok x \<and> am' = am"
  by (auto simp: lift_def)

lemma pin_Ok [simp]: "pin pid am = (Ok page, am') \<longleftrightarrow> hm_get (buffer_pool am) pid = Some page \<and> am' = am"
  by (auto simp: pin_def split: option.splits)

lemma modify_Ok:
  "modify pid f am = (Ok u, am') \<longleftrightarrow> (\<exists>page page'. hm_get (buffer_pool am) pid = Some page \<and> f page = Ok page' \<and>
     am' = am\<lparr>buffer_pool := hm_insert pid page' (buffer_pool am)\<rparr>)"
  by (auto simp: modify_def sbind_eq_Ok put_def)

lemma stamp_lsn_Ok:
  "stamp_lsn pid lsn am = (Ok u, am') \<longleftrightarrow> (\<exists>page. hm_get (buffer_pool am) pid = Some page \<and>
     am' = am\<lparr>buffer_pool := hm_insert pid (heap_stamp_pd_lsn page lsn) (buffer_pool am)\<rparr>)"
  by (auto simp: stamp_lsn_def modify_Ok)

lemma env_call_frame:
  assumes "env_call f am = (r, am')"
  shows "buffer_pool am' = buffer_pool am" and "rel_pages am' = rel_pages am" and "page_allocator am' = page_allocator am"
    and "row_waiter am' = row_waiter am" and "share_locks am' = share_locks am"
  using assms by (auto simp: env_call_def split: prod.splits)

lemma relation_pages_Ok:
  assumes "relation_pages rel am = (Ok pages, am')"
  shows "buffer_pool am' = buffer_pool am" and "hm_get (rel_pages am') (rel_oid rel) = Some pages"
    and "relation_pages rel am' = (Ok pages, am')" and "page_allocator am' = page_allocator am"
    and "hm_get (rel_pages am) (rel_oid rel) = Some pages \<or>
      hm_get (rel_pages am) (rel_oid rel) = None \<and> seed_loop (buffer_pool am) [] (first_page rel) = Ok pages"
  using assms by (auto simp: relation_pages_def seed_from_chain_def sbind_def hmap_simps split: option.splits outcome.splits)

section \<open>Scanning several pages\<close>

lemma scan_pages_state: "scan_pages rel snap gs pids am = (r, am') \<Longrightarrow> am' = am"
proof (induction pids arbitrary: r am')
  case (Cons pid pids)
  then show ?case by (auto simp: sbind_def pin_def lift_def sret_def split: prod.splits outcome.splits option.splits)
qed (simp add: sret_def)

text \<open>
  Replacing pages by pages that scan the same, and leaving out pages whose scan is empty, gives the
  same rows.
\<close>

lemma scan_pages_mono:
  assumes "scan_pages rel snap gs pids am = (Ok rows, am)"
    and "\<And>pid page rows. pid \<in> set pids \<Longrightarrow> hm_get (buffer_pool am) pid = Some page \<Longrightarrow>
      scan_page page pid (rel_columns rel) snap gs = Ok rows \<Longrightarrow>
      (if pid \<in> R then rows = [] else \<exists>page'. hm_get (buffer_pool am') pid = Some page' \<and>
         scan_page page' pid (rel_columns rel) snap gs = Ok rows)"
  shows "scan_pages rel snap gs (filter (\<lambda>p. p \<notin> R) pids) am' = (Ok rows, am')"
  using assms
proof (induction pids arbitrary: rows)
  case (Cons pid pids)
  obtain page r1 r2 where p: "hm_get (buffer_pool am) pid = Some page"
    "scan_page page pid (rel_columns rel) snap gs = Ok r1" "scan_pages rel snap gs pids am = (Ok r2, am)" "rows = r1 @ r2"
    using Cons.prems(1) by (auto simp: sbind_eq_Ok dest: scan_pages_state)
  have more: "scan_pages rel snap gs (filter (\<lambda>p. p \<notin> R) pids) am' = (Ok r2, am')"
    using Cons.IH [OF p(3)] Cons.prems(2) by auto
  have here: "if pid \<in> R then r1 = [] else \<exists>page'. hm_get (buffer_pool am') pid = Some page' \<and>
      scan_page page' pid (rel_columns rel) snap gs = Ok r1"
    using Cons.prems(2) [OF _ p(1,2)] by simp
  show ?case
  proof (cases "pid \<in> R")
    case True
    then show ?thesis using more here p(4) by simp
  next
    case False
    then obtain page' where "hm_get (buffer_pool am') pid = Some page'" "scan_page page' pid (rel_columns rel) snap gs = Ok r1"
      using here by auto
    then show ?thesis using False more p(4) by (simp add: sbind_def pin_def lift_def sret_def)
  qed
qed (simp add: sret_def)

section \<open>Dead tuples of a relation\<close>

text \<open>A page of a relation: one that was never used, or a heap page.\<close>

definition rel_page_ok :: "PageId \<Rightarrow> page \<Rightarrow> bool" where
  "rel_page_ok pid page \<longleftrightarrow> pd_upper (page_header page) = 0 \<or> heap_page_inv pid page"

definition pool_ok :: "pool \<Rightarrow> PageId list \<Rightarrow> bool" where
  "pool_ok pool pages \<longleftrightarrow> distinct pages \<and> PageId_INVALID \<notin> set pages \<and>
     (\<forall>pid \<in> set pages. \<forall>page. hm_get pool pid = Some page \<longrightarrow> rel_page_ok pid page)"

lemma heap_page_invD:
  assumes "heap_page_inv pid page"
  shows "heap_ok page" and "hot_ok pid (hdr page)" and "pd_upper (page_header page) \<noteq> 0"
  using assms heap_not_fresh [of page] by (simp_all add: heap_page_inv_def)

text \<open>What \<^verbatim>\<open>scan_dead_tuples\<close> lists: tuples of the relation that the horizon calls dead.\<close>

lemma dead_of_pages_Ok:
  assumes "dead_of_pages oldest gs pids am = (Ok dead, am')"
    and "\<And>pid page. pid \<in> set pids \<Longrightarrow> hm_get (buffer_pool am) pid = Some page \<Longrightarrow> rel_page_ok pid page"
  shows "am' = am \<and> (\<forall>t \<in> set dead. page_id t \<in> set pids \<and> (\<exists>page h.
    hm_get (buffer_pool am) (page_id t) = Some page \<and> heap_page_inv (page_id t) page \<and>
    hdr page (unat (slot_id t)) = Some h \<and> header_dead gs oldest h))"
  using assms
proof (induction pids arbitrary: dead)
  case (Cons pid pids)
  obtain page d1 d2 where p: "hm_get (buffer_pool am) pid = Some page" "dead_of_page page pid oldest gs = Ok d1"
    "dead_of_pages oldest gs pids am = (Ok d2, am')" "dead = d1 @ d2"
    using Cons.prems(1) by (auto simp: sbind_eq_Ok)
  have "\<exists>page h. hm_get (buffer_pool am) (page_id t) = Some page \<and> heap_page_inv (page_id t) page \<and>
      hdr page (unat (slot_id t)) = Some h \<and> header_dead gs oldest h \<and> page_id t = pid" if t: "t \<in> set d1" for t
  proof -
    have inv: "heap_page_inv pid page"
      using Cons.prems(2) [of pid page] p(1,2) t by (auto simp: rel_page_ok_def dead_of_page_def)
    note ok = heap_page_invD(1) [OF inv]
    obtain s h where s: "t = \<lparr>page_id = pid, slot_id = of_nat s\<rparr>" "hdr page s = Some h" "header_dead gs oldest h"
      using p(2) t unfolding dead_of_page_correct [OF ok] by auto
    have "unat (slot_id t) = s" using s(1) slots_in_page(3) [OF heap_okD(3) [OF ok] hdr_slot [OF s(2)]] by simp
    then show ?thesis using p(1) inv s by auto
  qed
  then show ?case using Cons.IH [OF p(3)] Cons.prems(2) p(4) by fastforce
qed simp

section \<open>The kill lists\<close>

definition dead_slots_of :: "Tid list \<Rightarrow> PageId \<Rightarrow> u16 list" where
  "dead_slots_of dead pid = map slot_id (filter (\<lambda>t. page_id t = pid) dead)"

lemma classify_pages_Ok:
  assumes "classify_pages rel dead pids am = (Ok c, am')"
  shows "am' = am \<and> set (map fst (kills c)) \<subseteq> set pids \<and> (distinct pids \<longrightarrow> distinct (map fst (kills c))) \<and>
    (\<forall>(pid, ks) \<in> set (kills c). ks \<noteq> [] \<and> (\<exists>page keys. hm_get (buffer_pool am) pid = Some page \<and>
       classify_page page pid (rel_columns rel) dead (dead_slots_of dead pid) = Ok (keys, ks)))"
  using assms
proof (induction pids arbitrary: c)
  case (Cons pid pids)
  obtain page keys ks c' where p: "hm_get (buffer_pool am) pid = Some page"
    "classify_page page pid (rel_columns rel) dead (dead_slots_of dead pid) = Ok (keys, ks)"
    "classify_pages rel dead pids am = (Ok c', am')"
    "kills c = (if ks = [] then kills c' else (pid, ks) # kills c')"
    using Cons.prems by (auto simp: sbind_eq_Ok dead_slots_of_def split: if_splits)
  show ?case using Cons.IH [OF p(3)] p(1,2,4) by auto
qed simp

text \<open>The kill list of a page: the reclaimable slots, ascending, closed under the links, not empty.\<close>

definition kill_ok :: "PageId \<Rightarrow> page \<Rightarrow> Tid list \<Rightarrow> u16 list \<Rightarrow> bool" where
  "kill_ok pid page dead ks \<longleftrightarrow> heap_page_inv pid page \<and> ks \<noteq> [] \<and> sorted_wrt (<) ks \<and>
     unat ` set ks = {s. reclaimable pid (hdr page) dead s}"

lemma classified_kill_ok:
  assumes "rel_page_ok pid page" and "classify_page page pid columns dead (dead_slots_of dead pid) = Ok (keys, ks)" and "ks \<noteq> []"
  shows "kill_ok pid page dead ks"
proof -
  have inv: "heap_page_inv pid page" using assms by (auto simp: rel_page_ok_def classify_page_def)
  have "unat ` set ks = {s. reclaimable pid (hdr page) dead s}" "sorted_wrt (<) ks"
    by (rule classify_page_correct [OF heap_page_invD(1,2) [OF inv] assms(2)], simp add: dead_slots_of_def image_iff, blast)+
  then show ?thesis using inv assms(3) by (simp add: kill_ok_def)
qed

lemma kill_okD:
  assumes "kill_ok pid page dead ks"
  shows "heap_ok page" and "hot_ok pid (hdr page)" and "s \<in> unat ` set ks \<Longrightarrow> hdr page s \<noteq> None"
    and "(a, b) \<in> hot_edges (hdr page) \<Longrightarrow> a \<in> unat ` set ks \<longleftrightarrow> b \<in> unat ` set ks"
    and "card (unat ` set ks) = length ks"
    and "s \<in> unat ` set ks \<Longrightarrow> \<exists>t \<in> set dead. page_id t = pid \<and> unat (slot_id t) = s"
proof -
  have k: "heap_page_inv pid page" "sorted_wrt (<) ks" "unat ` set ks = {s. reclaimable pid (hdr page) dead s}"
    using assms by (simp_all add: kill_ok_def)
  show ok: "heap_ok page" and hot: "hot_ok pid (hdr page)" using heap_page_invD [OF k(1)] by simp_all
  show "hdr page s \<noteq> None" if "s \<in> unat ` set ks" using that unfolding k(3) by (simp add: reclaimable_def)
  show "a \<in> unat ` set ks \<longleftrightarrow> b \<in> unat ` set ks" if "(a, b) \<in> hot_edges (hdr page)"
    unfolding k(3) using reclaimable_edge [OF hot that] by simp
  have "inj_on unat (set ks)" by (rule inj_onI) (simp add: word_unat_eq_iff)
  then show "card (unat ` set ks) = length ks"
    using k(2) by (simp add: card_image distinct_card strict_sorted_iff)
  show "\<exists>t \<in> set dead. page_id t = pid \<and> unat (slot_id t) = s" if "s \<in> unat ` set ks"
    using that chain_of_self unfolding k(3) by (fastforce simp: reclaimable_def)
qed

section \<open>What vacuum makes of a page\<close>

definition vac_page :: "nat set \<Rightarrow> page \<Rightarrow> page \<Rightarrow> bool" where
  "vac_page K p p' \<longleftrightarrow> K = {} \<and> p' = p \<or>
     heap_ok p \<and> heap_ok p' \<and> tuples p' = tuples p |` (- K) \<and> slot_count p' = slot_count p"

lemma restrict_map_UNIV [simp]: "m |` UNIV = m"
  by (rule ext) simp

lemma vac_page_refl: "vac_page {} p p"
  by (simp add: vac_page_def)

lemma vac_page_heap: "vac_page K p p' \<Longrightarrow> heap_ok p \<Longrightarrow> heap_ok p' \<and> tuples p' = tuples p |` (- K) \<and> slot_count p' = slot_count p"
  by (auto simp: vac_page_def)

lemma vac_page_back: "vac_page K p p' \<Longrightarrow> heap_ok p' \<Longrightarrow> heap_ok p"
  by (auto simp: vac_page_def)

lemma vac_page_step:
  assumes "vac_page K p p'" and "heap_ok p'" and "heap_ok q" and "tuples q = tuples p'" and "slot_count q = slot_count p'"
  shows "vac_page K p q"
  using assms vac_page_heap [OF assms(1) vac_page_back [OF assms(1,2)]] vac_page_back [OF assms(1,2)] by (simp add: vac_page_def)

lemma vac_page_compact:
  assumes v: "vac_page {} p p1" and ok: "heap_ok p" and c: "compact p1 ks = Ok p2"
  shows "vac_page (unat ` set ks) p (heap_stamp_pd_lsn p2 lsn)" and "next_page (heap_stamp_pd_lsn p2 lsn) = next_page p1"
    and "heap_ok (heap_stamp_pd_lsn p2 lsn)"
proof -
  have p1: "heap_ok p1" "tuples p1 = tuples p" "slot_count p1 = slot_count p" using vac_page_heap [OF v ok] by simp_all
  note k = heap_compact [OF p1(1) c]
  note l = heap_stamp_lsn [OF k(1), of lsn]
  show "vac_page (unat ` set ks) p (heap_stamp_pd_lsn p2 lsn)" using ok l k p1 by (simp add: vac_page_def)
  show "next_page (heap_stamp_pd_lsn p2 lsn) = next_page p1" using l(6) compact_next_page [OF heap_okD(2) [OF p1(1)] c] by simp
  show "heap_ok (heap_stamp_pd_lsn p2 lsn)" by (rule l(1))
qed

lemma count_live_eq:
  assumes g: "geometry_ok page" and "\<forall>s \<in> set slots. s < slot_count page"
  shows "count_live page slots = Ok (length (filter (used page) slots))"
  using assms(2)
proof (induction slots)
  case (Cons s slots)
  then show ?case using slots_in_page(3) [OF g, of s] by (simp add: line_pointer_ok [OF g] used_def)
qed simp

text \<open>A page that becomes empty is one whose tuples are all killed.\<close>

lemma becomes_empty_correct:
  assumes k: "kill_ok pid p dead ks" and v: "vac_page {} p p1" and e: "becomes_empty p1 ks = Ok (emp, nxt)"
  shows "next_page p1 = Ok nxt" and "emp \<Longrightarrow> used p s \<Longrightarrow> s \<in> unat ` set ks"
proof -
  have p1: "heap_ok p1" "tuples p1 = tuples p" using vac_page_heap [OF v kill_okD(1) [OF k]] by simp_all
  have us: "used p1 t = used p t" for t
    using p1(2) by (metis option.distinct(1) tuples_def)
  have n: "next_page p1 = Ok nxt" and len: "emp \<longleftrightarrow> length (filter (used p1) [0..<slot_count p1]) = length ks"
    using e count_live_eq [OF heap_okD(3) [OF p1(1)], of "[0..<slot_count p1]"] by (auto simp: becomes_empty_def)
  show "next_page p1 = Ok nxt" by (rule n)
  let ?U = "set (filter (used p1) [0..<slot_count p1])"
  have U: "?U = {s. used p s}" using us by (auto simp: used_def)
  show "s \<in> unat ` set ks" if em: emp and u: "used p s"
  proof -
    have "unat ` set ks \<subseteq> ?U"
    proof
      fix x assume "x \<in> unat ` set ks"
      then obtain h where "hdr p x = Some h" using kill_okD(3) [OF k] by blast
      then show "x \<in> ?U" using hdr_Some_used U by blast
    qed
    moreover have "card ?U = length (filter (used p1) [0..<slot_count p1])" by (rule distinct_card) simp
    then have "card ?U = card (unat ` set ks)" using len em kill_okD(5) [OF k] by simp
    ultimately have "unat ` set ks = ?U" by (intro card_subset_eq) simp_all
    then show ?thesis using u U by blast
  qed
qed

section \<open>The chain of pages\<close>

fun linked :: "pool \<Rightarrow> PageId list \<Rightarrow> bool" where
  "linked pool [] = False"
| "linked pool [p] = (\<exists>page. hm_get pool p = Some page \<and> (pd_upper (page_header page) = 0 \<or> next_page page = Ok None))"
| "linked pool (p # q # ps) =
     ((\<exists>page. hm_get pool p = Some page \<and> pd_upper (page_header page) \<noteq> 0 \<and> next_page page = Ok (Some q)) \<and>
      linked pool (q # ps))"

text \<open>The walk of \<^verbatim>\<open>seed_from_chain\<close> returns the linked pages.\<close>

lemma seed_loop_linked:
  "seed_loop pool seen cur = Ok pages \<Longrightarrow> distinct (seen @ [cur]) \<Longrightarrow>
    \<exists>rest. pages = seen @ cur # rest \<and> linked pool (cur # rest) \<and> distinct pages"
proof (induction pool seen cur arbitrary: pages rule: seed_loop.induct)
  case (1 pool seen cur)
  obtain page where p: "hm_get pool cur = Some page" using 1(2) by (auto simp: seed_loop.simps [of pool seen] split: option.splits)
  show ?case
  proof (cases "pd_upper (page_header page) = 0 \<or> next_page page = Ok None")
    case True
    then have "pages = seen @ [cur]" using 1(2) p by (auto simp: seed_loop.simps [of pool seen] Let_def split: if_splits)
    then show ?thesis using True p 1(3) by (intro exI [of _ "[]"]) auto
  next
    case False
    obtain nxt where n: "next_page page = Ok (Some nxt)" "nxt \<notin> set (seen @ [cur])" "seed_loop pool (seen @ [cur]) nxt = Ok pages"
      using 1(2) False p by (auto simp: seed_loop.simps [of pool seen] Let_def split: outcome.splits option.splits if_splits)
    then obtain rest where "pages = (seen @ [cur]) @ nxt # rest" "linked pool (nxt # rest)" "distinct pages"
      using 1(1) [OF p refl _ n(1) refl n(2) n(3)] 1(3) False by auto
    then show ?thesis using p n(1) False by (intro exI [of _ "nxt # rest"]) simp
  qed
qed

lemma linked_seed_loop:
  "linked pool (cur # rest) \<Longrightarrow> distinct (seen @ cur # rest) \<Longrightarrow> seed_loop pool seen cur = Ok (seen @ cur # rest)"
proof (induction rest arbitrary: seen cur)
  case Nil
  then show ?case by (auto simp: seed_loop.simps [of pool seen] Let_def)
next
  case (Cons q rest)
  obtain page where p: "hm_get pool cur = Some page" "pd_upper (page_header page) \<noteq> 0" "next_page page = Ok (Some q)"
    and l: "linked pool (q # rest)"
    using Cons.prems(1) by auto
  have "seed_loop pool (seen @ [cur]) q = Ok ((seen @ [cur]) @ q # rest)" using Cons.IH [OF l, of "seen @ [cur]"] Cons.prems(2) by simp
  then show ?case using p Cons.prems(2) by (auto simp: seed_loop.simps [of pool seen] Let_def)
qed

text \<open>A pool with the same links on the pages of the list.\<close>

definition same_link :: "page \<Rightarrow> page \<Rightarrow> bool" where
  "same_link page page' \<longleftrightarrow> (if pd_upper (page_header page) = 0 then page' = page
     else pd_upper (page_header page') \<noteq> 0 \<and> next_page page' = next_page page)"

lemma linked_cong:
  assumes "linked pool ps"
    and same: "\<And>p page. p \<in> set ps \<Longrightarrow> hm_get pool p = Some page \<Longrightarrow> \<exists>page'. hm_get pool' p = Some page' \<and> same_link page page'"
  shows "linked pool' ps"
  using assms
proof (induction pool ps rule: linked.induct)
  case (2 pool p)
  obtain page where p: "hm_get pool p = Some page" "pd_upper (page_header page) = 0 \<or> next_page page = Ok None"
    using 2(1) by auto
  obtain page' where "hm_get pool' p = Some page'" "same_link page page'" using 2(2) [OF _ p(1)] by auto
  then show ?case using p(2) by (auto simp: same_link_def split: if_splits)
next
  case (3 pool p q ps)
  obtain page where p: "hm_get pool p = Some page" "pd_upper (page_header page) \<noteq> 0" "next_page page = Ok (Some q)"
    and l: "linked pool (q # ps)"
    using 3(2) by auto
  obtain page' where "hm_get pool' p = Some page'" "same_link page page'" using 3(3) [OF _ p(1)] by auto
  moreover have "linked pool' (q # ps)" using 3(1) [OF l] 3(3) by simp
  ultimately show ?case using p(2,3) by (auto simp: same_link_def)
qed simp

lemma same_link_refl [simp]: "same_link page page"
  by (simp add: same_link_def)

text \<open>Splicing a page out.\<close>

lemma linked_splice:
  assumes "linked pool (xs @ prev # pid # ys)" and "distinct (xs @ prev # pid # ys)"
    and p: "hm_get pool pid = Some page" "next_page page = Ok nxt" "pd_upper (page_header page) \<noteq> 0"
    and q: "hm_get pool' prev = Some q" "pd_upper (page_header q) \<noteq> 0" "next_page q = Ok nxt"
    and same: "\<And>x. x \<in> set (xs @ ys) \<Longrightarrow> hm_get pool' x = hm_get pool x"
  shows "linked pool' (xs @ prev # ys)"
  using assms(1,2) same
proof (induction xs)
  case Nil
  have l: "linked pool (pid # ys)" using Nil.prems(1) by simp
  show ?case
  proof (cases ys)
    case Nil
    then have "nxt = None" using l p by simp
    then show ?thesis using Nil q by simp
  next
    case (Cons y ys')
    then have n: "nxt = Some y" and l': "linked pool ys" using l p by auto
    have "linked pool' ys"
    proof (rule linked_cong [OF l'])
      show "\<exists>page'. hm_get pool' p = Some page' \<and> same_link page page'" if "p \<in> set ys" "hm_get pool p = Some page" for p page
        using that Nil.prems(3) by simp
    qed
    then show ?thesis using Cons n q by simp
  qed
next
  case (Cons x xs)
  have "linked pool (xs @ prev # pid # ys)" using Cons.prems(1) by (cases xs) auto
  then have IH: "linked pool' (xs @ prev # ys)" using Cons by simp
  show ?case using Cons.prems(1,3) IH by (cases xs) auto
qed

lemma find_filter: "find P xs = Some y \<Longrightarrow> \<exists>ys. filter P xs = y # ys"
  by (induction xs) (auto split: if_splits)

lemma chain_prev_split:
  assumes "distinct pages" and "pid \<in> set pages" and "pid \<notin> set removed" and c: "chain_prev pages removed pid = Some prev"
  obtains xs ys where "filter (\<lambda>p. p \<notin> set removed) pages = xs @ prev # pid # ys" and "prev \<noteq> pid" and "hd pages \<noteq> pid"
proof -
  obtain A B where pages: "pages = A @ pid # B" "pid \<notin> set A" using assms(2) split_list_first by metis
  have tw: "takeWhile (\<lambda>p. p \<noteq> pid) pages = A" unfolding pages(1) using pages(2) by (subst takeWhile_append2) auto
  let ?f = "filter (\<lambda>p. p \<notin> set removed)"
  have "find (\<lambda>p. p \<notin> set removed) (rev A) = Some prev" using c by (simp add: chain_prev_def tw)
  then obtain zs where "?f (rev A) = prev # zs" using find_filter by metis
  then have "rev (?f A) = prev # zs" by (simp add: rev_filter)
  then have xs: "?f A = rev zs @ [prev]" by (metis rev.simps(2) rev_rev_ident)
  then have "prev \<in> set (?f A)" by simp
  then have "prev \<noteq> pid" "hd pages \<noteq> pid" using pages by (auto simp: hd_append)
  then show ?thesis using that [of "rev zs" "?f B"] pages(1) xs assms(3) by simp
qed

section \<open>Reclaiming a page\<close>

lemma compact_page_Ok:
  assumes c: "compact_page ops pid ks prev nxt am = (Ok lsn, am')" and ne: "prev \<noteq> pid"
  obtains p p' where "hm_get (buffer_pool am) pid = Some p" and "compact p ks = Ok p'"
    and "hm_get (buffer_pool am') pid = Some (heap_stamp_pd_lsn p' lsn)"
    and "prev \<noteq> PageId_INVALID \<Longrightarrow> \<exists>q q'. hm_get (buffer_pool am) prev = Some q \<and> set_next_page q (page_link nxt) = Ok q' \<and>
      hm_get (buffer_pool am') prev = Some (heap_stamp_pd_lsn q' lsn)"
    and "\<And>x. x \<noteq> pid \<Longrightarrow> prev = PageId_INVALID \<or> x \<noteq> prev \<Longrightarrow> hm_get (buffer_pool am') x = hm_get (buffer_pool am) x"
    and "rel_pages am' = rel_pages am" and "page_allocator am' = page_allocator am"
proof -
  obtain rec am1 p p' where a: "wal_append ops rec am = (Ok lsn, am1)" and p: "hm_get (buffer_pool am1) pid = Some p" "compact p ks = Ok p'"
    and am': "if prev \<noteq> PageId_INVALID
       then \<exists>q q'. hm_get (buffer_pool am1) prev = Some q \<and> set_next_page q (page_link nxt) = Ok q' \<and>
         am' = am1\<lparr>buffer_pool := hm_insert prev (heap_stamp_pd_lsn q' lsn) (hm_insert prev q'
           (hm_insert pid (heap_stamp_pd_lsn p' lsn) (hm_insert pid p' (buffer_pool am1))))\<rparr>
       else am' = am1\<lparr>buffer_pool := hm_insert pid (heap_stamp_pd_lsn p' lsn) (hm_insert pid p' (buffer_pool am1))\<rparr>"
    using c ne unfolding compact_page_def
    by (auto simp: sbind_eq_Ok modify_Ok stamp_lsn_Ok hmap_simps split: if_splits)
  note f = env_call_frame [OF a [unfolded wal_append_def]]
  show ?thesis
    by (rule that [of p p']) (use p am' ne f in \<open>auto simp: hmap_simps split: if_splits\<close>)
qed

text \<open>
  The state of \<^verbatim>\<open>reclaim\<close> between two pages, against the images \<open>P\<close> it started from: which pages have been
  compacted, which have been removed, and what is left of the chain.
\<close>

definition kill_set :: "(PageId \<times> u16 list) list \<Rightarrow> PageId \<Rightarrow> nat set" where
  "kill_set KL pid = (case map_of KL pid of None \<Rightarrow> {} | Some ks \<Rightarrow> unat ` set ks)"

definition vac_inv ::
    "(PageId \<Rightarrow> page option) \<Rightarrow> (PageId \<times> u16 list) list \<Rightarrow> PageId list \<Rightarrow> Oid \<Rightarrow> bool \<Rightarrow> PageId set \<Rightarrow> PageId list \<Rightarrow>
     ('c, 'e) HeapAM \<Rightarrow> bool" where
  "vac_inv P KL pages oid chained dn removed am \<longleftrightarrow>
     (\<forall>pid \<in> set pages. \<exists>p p'. P pid = Some p \<and> hm_get (buffer_pool am) pid = Some p' \<and>
        vac_page (if pid \<in> dn then kill_set KL pid else {}) p p') \<and>
     hm_get (rel_pages am) oid = Some (filter (\<lambda>p. p \<notin> set removed) pages) \<and> set removed \<subseteq> dn \<and> hd pages \<notin> set removed \<and>
     (\<forall>pid \<in> set removed. \<forall>p s. P pid = Some p \<longrightarrow> used p s \<longrightarrow> s \<in> kill_set KL pid) \<and>
     (chained \<longrightarrow> linked (buffer_pool am) (filter (\<lambda>p. p \<notin> set removed) pages))"

lemma vac_invD:
  assumes "vac_inv P KL pages oid chained dn removed am"
  shows "pid \<in> set pages \<Longrightarrow> \<exists>p p'. P pid = Some p \<and> hm_get (buffer_pool am) pid = Some p' \<and>
      vac_page (if pid \<in> dn then kill_set KL pid else {}) p p'"
    and "hm_get (rel_pages am) oid = Some (filter (\<lambda>p. p \<notin> set removed) pages)" and "set removed \<subseteq> dn"
    and "pid \<in> set removed \<Longrightarrow> P pid = Some p \<Longrightarrow> used p s \<Longrightarrow> s \<in> kill_set KL pid"
    and "chained \<Longrightarrow> linked (buffer_pool am) (filter (\<lambda>p. p \<notin> set removed) pages)" and "hd pages \<notin> set removed"
  using assms unfolding vac_inv_def by blast+

lemma set_next_not_fresh: "set_next_page q nxt = Ok q' \<Longrightarrow> pd_upper (page_header q) \<noteq> 0"
  by (auto simp: set_next_page_def checked_header_def Let_def PAGE_HEADER_SIZE_def split: if_splits)

lemma heap_same_link: "heap_ok p \<Longrightarrow> heap_ok p' \<Longrightarrow> next_page p' = next_page p \<Longrightarrow> same_link p p'"
  by (simp add: same_link_def heap_not_fresh)

text \<open>A page that stays in the chain is compacted.\<close>

lemma vac_inv_compact:
  assumes inv: "vac_inv P KL pages oid chained dn removed am" and pid: "pid \<in> set pages" "pid \<notin> dn" and z: "PageId_INVALID \<notin> set pages"
    and K: "map_of KL pid = Some ks" and P: "P pid = Some p" and k: "kill_ok pid p dead ks"
    and c: "compact_page ops pid ks PageId_INVALID PageId_INVALID am = (Ok lsn, am')"
  shows "vac_inv P KL pages oid chained (insert pid dn) removed am'"
proof -
  obtain p1 p2 where e: "hm_get (buffer_pool am) pid = Some p1" "compact p1 ks = Ok p2"
    "hm_get (buffer_pool am') pid = Some (heap_stamp_pd_lsn p2 lsn)"
    "\<And>x. x \<noteq> pid \<Longrightarrow> hm_get (buffer_pool am') x = hm_get (buffer_pool am) x" "rel_pages am' = rel_pages am"
    using compact_page_Ok [OF c] pid z by metis
  have v: "vac_page {} p p1" using vac_invD(1) [OF inv pid(1)] P e(1) pid(2) by auto
  note w = vac_page_compact [OF v kill_okD(1) [OF k] e(2), of lsn]
  have p1: "heap_ok p1" using vac_page_heap [OF v kill_okD(1) [OF k]] by simp
  have "\<exists>p p'. P x = Some p \<and> hm_get (buffer_pool am') x = Some p' \<and>
      vac_page (if x \<in> insert pid dn then kill_set KL x else {}) p p'" if "x \<in> set pages" for x
  proof (cases "x = pid")
    case True
    then show ?thesis using P e(3) w(1) K by (simp add: kill_set_def)
  next
    case False
    then show ?thesis using vac_invD(1) [OF inv that] e(4) [OF False] by simp
  qed
  moreover have "linked (buffer_pool am') (filter (\<lambda>p. p \<notin> set removed) pages)" if chained
  proof (rule linked_cong [OF vac_invD(5) [OF inv that]])
    fix x page assume x: "hm_get (buffer_pool am) x = Some page"
    show "\<exists>page'. hm_get (buffer_pool am') x = Some page' \<and> same_link page page'"
    proof (cases "x = pid")
      case True
      then show ?thesis using e(1,3) x heap_same_link [OF p1 w(3,2)] by auto
    next
      case False
      then show ?thesis using e(4) x by simp
    qed
  qed
  ultimately show ?thesis using vac_invD(2-4,6) [OF inv] e(5) unfolding vac_inv_def by auto
qed

text \<open>A page that becomes empty leaves the chain.\<close>

lemma vac_inv_release:
  assumes inv: "vac_inv P KL pages oid chained dn removed am" and pid: "pid \<in> set pages" "pid \<notin> dn" and z: "PageId_INVALID \<notin> set pages"
    and d: "distinct pages" and fresh: "\<And>x q. x \<in> set pages \<Longrightarrow> P x = Some q \<Longrightarrow> rel_page_ok x q"
    and K: "map_of KL pid = Some ks" and P: "P pid = Some p" and k: "kill_ok pid p dead ks" and emp: "\<And>s. used p s \<Longrightarrow> s \<in> unat ` set ks"
    and prev: "chain_prev pages removed pid = Some prev"
    and n: "hm_get (buffer_pool am) pid = Some p1" "next_page p1 = Ok nxt"
    and r: "release_page ops rel pid ks prev nxt am = (Ok u, am')" and oid: "oid = rel_oid rel"
  shows "vac_inv P KL pages oid chained (insert pid dn) (pid # removed) am'"
proof -
  have pr: "pid \<notin> set removed" using vac_invD(3) [OF inv] pid(2) by blast
  obtain xs ys where sp: "filter (\<lambda>p. p \<notin> set removed) pages = xs @ prev # pid # ys" and pne: "prev \<noteq> pid" "hd pages \<noteq> pid"
    by (rule chain_prev_split [OF d pid(1) pr prev])
  have "prev \<in> set (filter (\<lambda>p. p \<notin> set removed) pages)" unfolding sp by simp
  then have pin: "prev \<in> set pages" and pz: "prev \<noteq> PageId_INVALID" using z by auto
  let ?nx = "case nxt of None \<Rightarrow> PageId_INVALID | Some n \<Rightarrow> n"
  obtain lsn am1 where c: "compact_page ops pid ks prev ?nx am = (Ok lsn, am1)"
    and am': "env_call (env_free_page ops pid) (evict_page oid pid am1) = (Ok u, am')"
    using r oid by (auto simp: release_page_def sbind_eq_Ok split: if_splits)
  obtain pp p2 where e0: "hm_get (buffer_pool am) pid = Some pp" "compact pp ks = Ok p2"
    "hm_get (buffer_pool am1) pid = Some (heap_stamp_pd_lsn p2 lsn)"
    and ex: "\<exists>q q'. hm_get (buffer_pool am) prev = Some q \<and> set_next_page q (page_link ?nx) = Ok q' \<and>
      hm_get (buffer_pool am1) prev = Some (heap_stamp_pd_lsn q' lsn)"
    and other: "\<And>x. x \<noteq> pid \<Longrightarrow> prev = PageId_INVALID \<or> x \<noteq> prev \<Longrightarrow> hm_get (buffer_pool am1) x = hm_get (buffer_pool am) x"
    and rp: "rel_pages am1 = rel_pages am"
    by (rule compact_page_Ok [OF c pne(1)]) (use pz in simp)
  obtain q q' where q: "hm_get (buffer_pool am) prev = Some q" "set_next_page q (page_link ?nx) = Ok q'"
    "hm_get (buffer_pool am1) prev = Some (heap_stamp_pd_lsn q' lsn)" using ex by blast
  have c1: "compact p1 ks = Ok p2" using e0(1,2) n(1) by simp
  note e = c1 e0(3) q other rp
  have pool: "buffer_pool am' = buffer_pool am1" using env_call_frame [OF am'] by (auto simp: evict_page_def split: option.splits)
  have list: "hm_get (rel_pages am') oid = Some (filter (\<lambda>p. p \<notin> set (pid # removed)) pages)"
    using env_call_frame(2) [OF am'] vac_invD(2) [OF inv] e(7) by (simp add: evict_page_def hmap_simps conj_commute)
  have v: "vac_page {} p p1" using vac_invD(1) [OF inv pid(1)] P n(1) pid(2) by auto
  note w = vac_page_compact [OF v kill_okD(1) [OF k] e(1), of lsn]
  have p1: "heap_ok p1" using vac_page_heap [OF v kill_okD(1) [OF k]] by simp
  obtain p0 where vq: "P prev = Some p0" "vac_page (if prev \<in> dn then kill_set KL prev else {}) p0 q"
    using vac_invD(1) [OF inv pin] e(3) by auto
  have "heap_ok p0 \<or> q = p0 \<and> pd_upper (page_header p0) = 0"
    using fresh [OF pin vq(1)] vq(2) heap_page_invD by (auto simp: rel_page_ok_def vac_page_def)
  then have qok: "heap_ok q" using set_next_not_fresh [OF e(4)] vac_page_heap [OF vq(2)] by auto
  note sn = heap_set_next [OF qok e(4)]
  note sl = heap_stamp_lsn [OF sn(1), of lsn]
  have "\<exists>p p'. P x = Some p \<and> hm_get (buffer_pool am') x = Some p' \<and>
      vac_page (if x \<in> insert pid dn then kill_set KL x else {}) p p'" if x: "x \<in> set pages" for x
  proof -
    consider "x = pid" | "x = prev" | "x \<noteq> pid" "x \<noteq> prev" by blast
    then show ?thesis
    proof cases
      case 1
      then show ?thesis using P e(2) w(1) K pool by (simp add: kill_set_def)
    next
      case 2
      have "vac_page (if prev \<in> dn then kill_set KL prev else {}) p0 (heap_stamp_pd_lsn q' lsn)"
        by (rule vac_page_step [OF vq(2) qok sl(1)]) (simp_all add: sl sn)
      then show ?thesis using 2 vq(1) e(5) pne pool by (simp split: if_splits)
    next
      case 3
      then show ?thesis using vac_invD(1) [OF inv x] e(6) pool by simp
    qed
  qed
  moreover have "used p0 s \<longrightarrow> s \<in> kill_set KL x" if "x \<in> set (pid # removed)" "P x = Some p0" for x p0 s
    using that vac_invD(4) [OF inv] emp P K by (auto simp: kill_set_def)
  moreover have "linked (buffer_pool am') (filter (\<lambda>p. p \<notin> set (pid # removed)) pages)" if chained
  proof -
    have "filter (\<lambda>p. p \<notin> set (pid # removed)) pages = filter (\<lambda>p. p \<noteq> pid) (filter (\<lambda>p. p \<notin> set removed) pages)"
      by (simp add: conj_commute)
    moreover have dx: "distinct (xs @ prev # pid # ys)" using d unfolding sp [symmetric] by simp
    ultimately have f: "filter (\<lambda>p. p \<notin> set (pid # removed)) pages = xs @ prev # ys"
      unfolding sp using pne by (simp add: filter_id_conv) (metis (mono_tags, lifting) filter_True)
    have nn: "nxt \<noteq> Some 0" using n(2) by (auto simp: next_page_def Let_def split: if_splits)
    have "page_link ?nx = nxt" using nn by (auto simp: page_link_def PageId_INVALID_def split: option.splits)
    then have nx: "next_page (heap_stamp_pd_lsn q' lsn) = Ok nxt" using sl(6) sn(5) nn by simp
    have oth: "hm_get (buffer_pool am1) x = hm_get (buffer_pool am) x" if "x \<in> set (xs @ ys)" for x
    proof -
      have "x \<noteq> pid" "x \<noteq> prev" using that dx by auto
      then show ?thesis using other by blast
    qed
    show ?thesis unfolding f pool
      by (rule linked_splice [OF vac_invD(5) [OF inv that, unfolded sp] dx n heap_not_fresh [OF p1] e(5) heap_not_fresh [OF sl(1)] nx])
        (rule oth)
  qed
  ultimately show ?thesis using list vac_invD(3,6) [OF inv] pne(2) unfolding vac_inv_def by auto
qed

lemma reclaim_pages_inv:
  assumes "reclaim_pages ops rel pages removed todo am = (Ok u, am')"
    and "vac_inv P KL pages (rel_oid rel) chained dn removed am"
    and "\<And>pid ks. (pid, ks) \<in> set todo \<Longrightarrow> pid \<in> set pages \<and> pid \<notin> dn \<and> map_of KL pid = Some ks \<and>
      (\<exists>p. P pid = Some p \<and> kill_ok pid p dead ks)"
    and "distinct (map fst todo)" and d: "distinct pages" and z: "PageId_INVALID \<notin> set pages"
    and fresh: "\<And>x q. x \<in> set pages \<Longrightarrow> P x = Some q \<Longrightarrow> rel_page_ok x q"
  shows "\<exists>removed'. vac_inv P KL pages (rel_oid rel) chained (dn \<union> fst ` set todo) removed' am'"
  using assms(1-4)
proof (induction todo arbitrary: removed dn am)
  case Nil
  then show ?case by auto
next
  case (Cons t todo)
  obtain pid ks where t: "t = (pid, ks)" by (cases t)
  obtain removed' am1 where r: "reclaim_page ops rel pages removed pid ks am = (Ok removed', am1)"
    and rest: "reclaim_pages ops rel pages removed' todo am1 = (Ok u, am')"
    using Cons.prems(1) t by (auto simp: sbind_eq_Ok)
  obtain p where pid: "pid \<in> set pages" "pid \<notin> dn" "map_of KL pid = Some ks" "P pid = Some p" "kill_ok pid p dead ks"
    using Cons.prems(3) [of pid ks] t by auto
  obtain p1 where p1: "hm_get (buffer_pool am) pid = Some p1" "vac_page {} p p1"
    using vac_invD(1) [OF Cons.prems(2) pid(1)] pid(2,4) by auto
  obtain emp nxt where e: "becomes_empty p1 ks = Ok (emp, nxt)"
    and cont: "(if emp \<and> pid \<noteq> first_page rel
       then if pid \<notin> set pages then lift (Err Corrupted)
            else case chain_prev pages removed pid of None \<Rightarrow> lift (Err Corrupted)
              | Some prev \<Rightarrow> sbind (release_page ops rel pid ks prev nxt) (\<lambda>_. sret (pid # removed))
       else sbind (compact_page ops pid ks PageId_INVALID PageId_INVALID) (\<lambda>_. sret removed)) am = (Ok removed', am1)"
    using r p1(1) by (auto simp: reclaim_page_def sbind_eq_Ok)
  note be = becomes_empty_correct [OF pid(5) p1(2) e]
  have inv: "vac_inv P KL pages (rel_oid rel) chained (insert pid dn) removed' am1"
  proof (cases "emp \<and> pid \<noteq> first_page rel")
    case False
    then obtain lsn where "compact_page ops pid ks PageId_INVALID PageId_INVALID am = (Ok lsn, am1)" "removed' = removed"
      using cont by (auto simp: sbind_eq_Ok)
    then show ?thesis using vac_inv_compact [OF Cons.prems(2) pid(1,2) z pid(3-5)] by simp
  next
    case True
    then obtain prev v where "chain_prev pages removed pid = Some prev" "release_page ops rel pid ks prev nxt am = (Ok v, am1)"
      "removed' = pid # removed"
      using cont pid(1) by (auto simp: sbind_eq_Ok split: option.splits)
    then show ?thesis
      using vac_inv_release [OF Cons.prems(2) pid(1,2) z d fresh pid(3-5) be(2) _ p1(1) be(1)] True by blast
  qed
  have "\<exists>removed''. vac_inv P KL pages (rel_oid rel) chained (insert pid dn \<union> fst ` set todo) removed'' am'"
  proof (rule Cons.IH [OF rest inv])
    show "x \<in> set pages \<and> x \<notin> insert pid dn \<and> map_of KL x = Some xs \<and> (\<exists>p. P x = Some p \<and> kill_ok x p dead xs)"
      if "(x, xs) \<in> set todo" for x xs
    proof -
      have "x \<noteq> pid" using Cons.prems(4) t that by (auto simp: image_iff)
      then show ?thesis using Cons.prems(3) [of x xs] that by simp
    qed
    show "distinct (map fst todo)" using Cons.prems(4) by simp
  qed
  then show ?case using t by simp
qed

text \<open>
  Everything \<^verbatim>\<open>scan_dead_tuples\<close> and \<^verbatim>\<open>reclaim\<close> establish together: where the dead tuples come from, and the
  state at the end.
\<close>

lemma vacuum_effect:
  assumes pages: "relation_pages rel am = (Ok pages, am0)" and ok: "pool_ok (buffer_pool am) pages"
    and scan: "scan_dead_tuples rel oldest gs am = (Ok dead, am1)" and rec: "reclaim ops rel dead am1 = (Ok u, am2)"
  obtains KL dn removed where "vac_inv (hm_get (buffer_pool am)) KL pages (rel_oid rel) (linked (buffer_pool am) pages) dn removed am2"
    and "dn = fst ` set KL" and "\<forall>pid ks. (pid, ks) \<in> set KL \<longrightarrow> (\<exists>p. hm_get (buffer_pool am) pid = Some p \<and> kill_ok pid p dead ks)"
    and "\<forall>t \<in> set dead. \<exists>p h. hm_get (buffer_pool am) (page_id t) = Some p \<and>
      hdr p (unat (slot_id t)) = Some h \<and> header_dead gs oldest h"
proof -
  note rp = relation_pages_Ok [OF pages]
  have d: "distinct pages" "PageId_INVALID \<notin> set pages"
    and fresh: "\<And>x q. x \<in> set pages \<Longrightarrow> hm_get (buffer_pool am) x = Some q \<Longrightarrow> rel_page_ok x q"
    using ok by (auto simp: pool_ok_def)
  have dp: "dead_of_pages oldest gs pages am0 = (Ok dead, am1)"
    using scan pages by (auto simp: scan_dead_tuples_def sbind_eq_Ok)
  have dead: "am1 = am0" "\<And>t. t \<in> set dead \<Longrightarrow> page_id t \<in> set pages"
    "\<And>t. t \<in> set dead \<Longrightarrow> \<exists>p h. hm_get (buffer_pool am) (page_id t) = Some p \<and> hdr p (unat (slot_id t)) = Some h \<and> header_dead gs oldest h"
    using dead_of_pages_Ok [OF dp] fresh rp(1) by auto
  have present: "\<exists>p. hm_get (buffer_pool am) x = Some p" if "x \<in> set pages" for x
  proof -
    have "dead_of_pages oldest gs ps am0 = (Ok ds, am1) \<Longrightarrow> x \<in> set ps \<Longrightarrow> \<exists>p. hm_get (buffer_pool am0) x = Some p" for ps ds
      by (induction ps arbitrary: ds) (auto simp: sbind_eq_Ok)
    then show ?thesis using dp that rp(1) by simp
  qed
  have inv0: "vac_inv (hm_get (buffer_pool am)) KL pages (rel_oid rel) (linked (buffer_pool am) pages) {} [] am0" for KL
    using rp(1,2) present unfolding vac_inv_def by (fastforce intro: vac_page_refl)
  obtain c where c: "classify_dead_tuples rel dead am0 = (Ok c, am0)"
    and cont: "(if kills c = [] then sret () else sbind (relation_pages rel) (\<lambda>ps. reclaim_pages ops rel ps [] (kills c))) am0 = (Ok u, am2)"
    using rec dead(1) by (auto simp: reclaim_def sbind_eq_Ok classify_dead_tuples_def dest: classify_pages_Ok)
  note cl = classify_pages_Ok [OF c [unfolded classify_dead_tuples_def]]
  have dk: "distinct (map fst (kills c))" using cl by simp
  have kin: "pid \<in> set pages" if "(pid, ks) \<in> set (kills c)" for pid ks
  proof -
    have "pid \<in> page_id ` set dead" using cl that by force
    then show ?thesis using dead(2) by blast
  qed
  have kk: "\<exists>p. hm_get (buffer_pool am) pid = Some p \<and> kill_ok pid p dead ks" if "(pid, ks) \<in> set (kills c)" for pid ks
    using cl that rp(1) classified_kill_ok fresh [OF kin [OF that]] by fastforce
  show ?thesis
  proof (cases "kills c = []")
    case True
    then show ?thesis using that [of "[]" "{}" "[]"] inv0 cont dead(3) by simp
  next
    case False
    then have "reclaim_pages ops rel pages [] (kills c) am0 = (Ok u, am2)" using cont rp(3) by (auto simp: sbind_eq_Ok)
    then obtain removed where "vac_inv (hm_get (buffer_pool am)) (kills c) pages (rel_oid rel) (linked (buffer_pool am) pages)
        ({} \<union> fst ` set (kills c)) removed am2"
      using reclaim_pages_inv [OF _ inv0 _ dk d fresh] kin kk dk by (metis empty_iff map_of_is_SomeI)
    then show ?thesis using that [of "kills c"] kk dead(3) by simp
  qed
qed

section \<open>A concrete vacuum\<close>

definition rel_built :: "pool \<Rightarrow> PageId list \<Rightarrow> bool" where
  "rel_built pool pages \<longleftrightarrow> distinct pages \<and> PageId_INVALID \<notin> set pages \<and>
     (\<forall>pid \<in> set pages. \<forall>page. hm_get pool pid = Some page \<longrightarrow> pd_upper (page_header page) = 0 \<or>
        (heap_page_step pid)\<^sup>*\<^sup>* (init_with_special HEAP_SPECIAL_SIZE) page)"

lemma rel_built_ok: "rel_built pool pages \<Longrightarrow> pool_ok pool pages"
  using hp.inv_reachable by (fastforce simp: rel_built_def pool_ok_def rel_page_ok_def heap_page_start_def)

lemma vac_scan_page:
  assumes inv: "heap_page_inv pid p" and k: "kill_ok pid p dead ks" and v: "vac_page (unat ` set ks) p p'"
    and inv_dead: "\<And>t. t \<in> set dead \<Longrightarrow> page_id t = pid \<Longrightarrow> \<not> slot_visible gs snap (hdr p) (unat (slot_id t))"
    and scan: "scan_page p pid columns snap gs = Ok rows"
  shows "scan_page p' pid columns snap gs = Ok rows"
proof -
  note ok = heap_page_invD(1) [OF inv]
  have p': "heap_ok p'" "tuples p' = tuples p |` (- unat ` set ks)" "slot_count p' = slot_count p"
    using vac_page_heap [OF v ok] by simp_all
  show ?thesis
  proof (rule scan_page_vacuumed [OF ok p' kill_okD(2) [OF k] _ _ scan])
    show "a \<in> unat ` set ks \<longleftrightarrow> b \<in> unat ` set ks" if "(a, b) \<in> hot_edges (hdr p)" for a b by (rule kill_okD(4) [OF k that])
    show "\<not> slot_visible gs snap (hdr p) a" if "a \<in> unat ` set ks" for a
      using kill_okD(6) [OF k that] inv_dead by blast
  qed
qed

lemma scan_page_empty:
  assumes ok: "heap_ok p" and none: "tuples p = Map.empty"
  shows "scan_page p pid columns snap gs = Ok []"
proof -
  have "scan_slots p pid columns snap gs slots = Ok []" for slots
    by (induction slots) (simp_all add: scan_slot_def heap_tuple_at [OF ok] none)
  then show ?thesis by (simp add: scan_page_def)
qed

text \<open>A relation with one page and one row, inserted and deleted by transaction 1.\<close>

definition vac_rel :: RelationDesc where
  "vac_rel = \<lparr>rel_oid = 1, first_page = 9, rel_columns = []\<rparr>"

definition vac_env :: "unit am_env" where
  "vac_env = \<lparr>env_append = (\<lambda>_ e. (Ok 1, e)), env_alloc_page = (\<lambda>e. (Ok 1, e)), env_free_page = (\<lambda>_ e. (Ok (), e))\<rparr>"

definition vac_am :: "page \<Rightarrow> (unit, unit) HeapAM" where
  "vac_am p = set_page_allocator (heap_am_new [(9, p)] ())"

definition vac_page_of :: "page \<Rightarrow> TupleHeader \<Rightarrow> bool" where
  "vac_page_of p h \<longleftrightarrow> (heap_page_step 9)\<^sup>*\<^sup>* (init_with_special HEAP_SPECIAL_SIZE) p \<and>
     tuples p = [0 \<mapsto> (Normal, tuple_header_bytes h)] \<and> slot_count p = 1 \<and> next_page p = Ok None \<and>
     h = deleted_header 1 0 False (hp_header\<lparr>t_xmin := 1\<rparr>)"

lemma vac_header:
  assumes "h = deleted_header 1 0 False (hp_header\<lparr>t_xmin := 1\<rparr>)"
  shows "tuple_header_read (tuple_header_bytes h) = Ok h" and "decode_tuple (tuple_header_bytes h) [] = Ok (h, [])"
    and "t_xmin h = 1" and "t_xmax h = 1" and "visibility_xmax h = 1" and "\<not> hot_updated h" and "\<not> heap_only h"
    and "t_infomask h AND HEAP_XMAX_LOCK_ONLY = 0"
proof -
  have tr: "length (t_trace_id h) = 16" by (simp add: assms hp_header_def tuple_header_new_def)
  have m: "t_infomask h = 0" "t_infomask2 h = 0" "t_hoff h = 64"
    by (simp_all add: assms deleted_header_def clear_lock_bits_def hp_header_def tuple_header_new_def)
  show r: "tuple_header_read (tuple_header_bytes h) = Ok h" using tuple_header_read_bytes [OF tr, of "[]"] by simp
  show "decode_tuple (tuple_header_bytes h) [] = Ok (h, [])"
    using length_tuple_header_bytes [OF tr] by (simp add: decode_tuple_def r natts_def m TUPLE_HEADER_SIZE_def Let_def)
  show "t_xmin h = 1" "t_xmax h = 1" by (simp_all add: assms)
  then show "visibility_xmax h = 1" "\<not> hot_updated h" "\<not> heap_only h" "t_infomask h AND HEAP_XMAX_LOCK_ONLY = 0"
    by (simp_all add: visibility_xmax_def m hot_updated_def heap_only_def)
qed

lemma vac_page_exists: "\<exists>p h. vac_page_of p h"
proof -
  let ?p0 = "init_with_special HEAP_SPECIAL_SIZE" and ?t = "\<lparr>page_id = 9, slot_id = 0\<rparr>"
  let ?h = "deleted_header 1 0 False (hp_header\<lparr>t_xmin := 1\<rparr>)"
  have ok0: "heap_ok ?p0" using heap_page_inv_start [of 9] by (simp add: heap_page_inv_def)
  have sc0: "slot_count ?p0 = 0" "free_space ?p0 = 8144"
    using init_with_special_effect [of HEAP_SPECIAL_SIZE] page_ex_free by (simp_all add: HEAP_SPECIAL_SIZE_def)
  have t0: "tuples ?p0 = Map.empty" using init_with_special_ok [of HEAP_SPECIAL_SIZE] by (simp add: HEAP_SPECIAL_SIZE_def)
  obtain b1 where b1: "stamp_xmin hp_tuple 1 = Ok b1" "length b1 = 64" "tuple_header_read b1 = Ok (hp_header\<lparr>t_xmin := 1\<rparr>)"
    using stamp_xmin_header [OF hp_tuple_facts(1), of 1] hp_tuple_facts(2) by auto
  obtain p1 where p1: "add_tuple_at ?p0 0 b1 = Ok p1" using add_succeeds [OF ok0 b1(3), of 0] sc0 b1(2) by auto
  note a1 = heap_add [OF ok0 p1 b1(3)]
  obtain q where q: "stamps p1 ?t (deleted_header 1 0 False) q" using a1(2) by (simp add: stamps_def)
  obtain h where h: "hdr p1 (unat (slot_id ?t)) = Some h" "heap_ok q" "slot_count q = slot_count p1"
    "tuples q = (tuples p1)(unat (slot_id ?t) \<mapsto> (Normal, tuple_header_bytes (deleted_header 1 0 False h) @ drop 64 (snd (the (tuples p1 (unat (slot_id ?t)))))))"
    using stamps_effect [OF a1(1) q header_funs(1)] by blast
  have hh: "h = hp_header\<lparr>t_xmin := 1\<rparr>" using h(1) a1(2) by simp
  have tq: "tuples q = [0 \<mapsto> (Normal, tuple_header_bytes ?h)]" using h(4) a1(4) t0 b1(2) by (simp add: hh)
  have st: "heap_page_step 9 ?p0 p1" by (rule insert_step [OF hp_tuple_facts(3) b1(1) p1])
  have "heap_page_step 9 p1 q"
    by (rule delete_step [of _ ?t 1 0 False]) (simp only: stamp_Ok_iff [OF a1(1)] q)
  then have run: "(heap_page_step 9)\<^sup>*\<^sup>* ?p0 q" using st by (meson rtranclp.simps)
  have special: "special_of q = 8176"
  proof -
    have "page_header q = page_header p1" using stamps_effect [OF a1(1) q header_funs(1)] by blast
    moreover have "special_of p1 = special_of ?p0"
      using p1 add_write_header(3) by (auto simp: add_tuple_at_Ok_iff [OF heap_okD(3) [OF ok0]] heap_okD(3) [OF ok0])
    ultimately show ?thesis using init_with_special_effect [of HEAP_SPECIAL_SIZE] by (simp add: HEAP_SPECIAL_SIZE_def)
  qed
  then obtain q' where q': "set_next_page q None = Ok q'"
    by (simp add: set_next_page_def checked_header_ok [OF heap_okD(3) [OF h(2)]] HEAP_SPECIAL_SIZE_def PAGE_SIZE_def Let_def)
  note sn = heap_set_next [OF h(2) q']
  have "(heap_page_step 9)\<^sup>*\<^sup>* ?p0 q'" using run link_step [OF q'] by (rule rtranclp.rtrancl_into_rtrancl)
  then have "vac_page_of q' ?h" using sn tq h(3) a1(5) sc0 by (simp add: vac_page_of_def)
  then show ?thesis by blast
qed

lemma vac_page_facts:
  assumes v: "vac_page_of p h"
  shows "heap_ok p" and "hdr p = [0 \<mapsto> h]" and "pd_upper (page_header p) \<noteq> 0"
    and "tuple_at p 0 = Ok (Some (tuple_header_bytes h))"
    and "relation_pages vac_rel (vac_am p) = (Ok [9], (vac_am p)\<lparr>rel_pages := [(1, [9])]\<rparr>)"
    and "seed_loop (buffer_pool (vac_am p)) [] (first_page vac_rel) = Ok [9]"
    and "rel_built (buffer_pool (vac_am p)) [9]"
proof -
  have p: "(heap_page_step 9)\<^sup>*\<^sup>* (init_with_special HEAP_SPECIAL_SIZE) p" "tuples p = [0 \<mapsto> (Normal, tuple_header_bytes h)]"
    "next_page p = Ok None" "h = deleted_header 1 0 False (hp_header\<lparr>t_xmin := 1\<rparr>)"
    using v by (simp_all add: vac_page_of_def)
  note vh = vac_header [OF p(4)]
  show ok: "heap_ok p" using hp.inv_reachable [OF _ p(1)] by (simp add: heap_page_start_def heap_page_inv_def)
  show "hdr p = [0 \<mapsto> h]" by (rule ext) (simp add: hdr_def p(2) vh(1))
  show nf: "pd_upper (page_header p) \<noteq> 0" by (rule heap_not_fresh [OF ok])
  show "tuple_at p 0 = Ok (Some (tuple_header_bytes h))" using heap_tuple_at [OF ok, of 0] p(2) by simp
  show sl: "seed_loop (buffer_pool (vac_am p)) [] (first_page vac_rel) = Ok [9]"
    using nf p(3) by (simp add: seed_loop.simps vac_am_def heap_am_new_def set_page_allocator_def vac_rel_def)
  then show "relation_pages vac_rel (vac_am p) = (Ok [9], (vac_am p)\<lparr>rel_pages := [(1, [9])]\<rparr>)"
    by (simp add: relation_pages_def seed_from_chain_def sbind_def vac_am_def heap_am_new_def set_page_allocator_def vac_rel_def)
  show "rel_built (buffer_pool (vac_am p)) [9]"
    using p(1) by (simp add: rel_built_def vac_am_def heap_am_new_def set_page_allocator_def PageId_INVALID_def)
qed

lemma vac_runs:
  fixes gs :: "TxnId \<Rightarrow> TxnState"
  assumes v: "vac_page_of p h" and gs: "gs 1 = Committed" and "1 < oldest"
  defines "am1 \<equiv> (vac_am p)\<lparr>rel_pages := [(1, [9])]\<rparr>"
  shows "scan_dead_tuples vac_rel oldest gs (vac_am p) = (Ok [\<lparr>page_id = 9, slot_id = 0\<rparr>], am1)"
    and "\<exists>am2. reclaim vac_env vac_rel [\<lparr>page_id = 9, slot_id = 0\<rparr>] am1 = (Ok (), am2)"
    and "\<not> header_visible gs snap h \<Longrightarrow> heap_scan vac_rel snap gs (vac_am p) = (Ok [], am1)"
proof -
  let ?t = "\<lparr>page_id = 9, slot_id = 0\<rparr> :: Tid"
  have h: "h = deleted_header 1 0 False (hp_header\<lparr>t_xmin := 1\<rparr>)" and sc: "slot_count p = 1" and nx: "next_page p = Ok None"
    using v by (simp_all add: vac_page_of_def)
  note vh = vac_header [OF h] and f = vac_page_facts [OF v]
  have pool: "hm_get (buffer_pool am1) 9 = Some p" "relation_pages vac_rel am1 = (Ok [9], am1)" "rel_columns vac_rel = []"
    by (simp_all add: am1_def vac_am_def heap_am_new_def set_page_allocator_def relation_pages_def vac_rel_def)
  have "dead_of_page p 9 oldest gs = Ok [?t]"
    using f assms(3) by (simp add: dead_of_page_def sc vh(1) header_dead_def vh(4,8) gs TxnId_INVALID_def)
  then show "scan_dead_tuples vac_rel oldest gs (vac_am p) = (Ok [?t], am1)"
    using pool(1) by (simp add: scan_dead_tuples_def sbind_def f(5) am1_def [symmetric] pin_def lift_def sret_def)
  have c: "classify_page p 9 [] [?t] [0] = Ok ([(?t, [])], [0])"
    using f vh by (simp add: classify_page_def sc fully_dead_def chain_root_def)
  have "kill_list_ok p [0]" using f(1) hdr_Some_used [of p 0 h] f(2) hdr_tuple [OF f(1), of 0 h]
    by (auto simp: kill_list_ok_def sc tuples_def split: if_splits)
  then obtain p' where p': "compact p [0] = Ok p'" using compact_iff [OF heap_okD(2) [OF f(1)]] by blast
  have be: "becomes_empty p [0] = Ok (True, None)"
    using count_live_eq [OF heap_okD(3) [OF f(1)], of "[0]"] hdr_Some_used [of p 0 h] f(2)
    by (simp add: becomes_empty_def sc nx)
  show "\<exists>am2. reclaim vac_env vac_rel [?t] am1 = (Ok (), am2)"
    using pool c p' be
    by (simp add: reclaim_def classify_dead_tuples_def sbind_def sret_def pin_def lift_def reclaim_page_def compact_page_def
        vac_env_def wal_append_def env_call_def modify_def put_def stamp_lsn_def heap_cleanup_record_def
        MAX_HEAP_CLEANUP_SLOTS_def PAGE_SIZE_def vac_rel_def hmap_simps)
  show "heap_scan vac_rel snap gs (vac_am p) = (Ok [], am1)" if "\<not> header_visible gs snap h"
  proof -
    have "scan_page p 9 [] snap gs = Ok []" using f vh that by (simp add: scan_page_def sc scan_slot_def)
    then show ?thesis using pool by (simp add: heap_scan_def sbind_def f(5) am1_def [symmetric] pin_def lift_def sret_def)
  qed
qed

section \<open>Properties\<close>

text \<open>
  C4. Vacuum is invisible.  The dead tuples of a relation are listed with the vacuum horizon of some state of
  the transaction manager and reclaimed, with HOT chains pruned only as a whole and emptied pages
  unlinked and freed.  Then every scan by a live snapshot of a running transaction, in that state of
  the transaction manager or any later one, returns the rows it returned before.
\<close>

theorem vacuum_preserves_scans:
  assumes init: "txn_init clog_get_state s0" and run: "txn_steps clog_set_state s0 s" and later: "txn_steps clog_set_state s t"
    and snap: "snap \<in> set (taken t)" and own: "clog_get_state (clog (mgr t)) (current_xid snap) = InProgress"
    and pages: "relation_pages rel am = (Ok pages, am0)" and built: "rel_built (buffer_pool am) pages"
    and dead: "scan_dead_tuples rel (oldest_snapshot_xmin (mgr s)) (clog_get_state (clog (mgr s))) am = (Ok dead, am1)"
    and rec: "reclaim ops rel dead am1 = (Ok u, am2)"
    and scan: "heap_scan rel (snap\<lparr>curcid := k\<rparr>) (clog_get_state (clog (mgr t))) am = (Ok rows, am3)"
  shows "heap_scan rel (snap\<lparr>curcid := k\<rparr>) (clog_get_state (clog (mgr t))) am2 = (Ok rows, am2)"
proof -
  let ?snap = "snap\<lparr>curcid := k\<rparr>" and ?gs = "clog_get_state (clog (mgr t))" and ?P = "hm_get (buffer_pool am)"
  note ok = rel_built_ok [OF built]
  obtain KL dn removed where v: "vac_inv ?P KL pages (rel_oid rel) (linked (buffer_pool am) pages) dn removed am2"
    and dn: "dn = fst ` set KL" and kl: "\<forall>pid ks. (pid, ks) \<in> set KL \<longrightarrow> (\<exists>p. ?P pid = Some p \<and> kill_ok pid p dead ks)"
    and hd: "\<forall>t \<in> set dead. \<exists>p h. ?P (page_id t) = Some p \<and> hdr p (unat (slot_id t)) = Some h \<and>
      header_dead (clog_get_state (clog (mgr s))) (oldest_snapshot_xmin (mgr s)) h"
    by (rule vacuum_effect [OF pages ok dead rec])
  have invis: "\<not> slot_visible ?gs ?snap (hdr p) (unat (slot_id x))" if "x \<in> set dead" "?P (page_id x) = Some p" for x p
    using bspec [OF hd that(1)] that(2) dead_header_invisible [OF init run later snap own] by (auto simp: slot_visible_def)
  have scan0: "scan_pages rel ?snap ?gs pages am0 = (Ok rows, am0)"
    using scan pages scan_pages_state by (fastforce simp: heap_scan_def sbind_eq_Ok)
  have "scan_pages rel ?snap ?gs (filter (\<lambda>p. p \<notin> set removed) pages) am2 = (Ok rows, am2)"
  proof (rule scan_pages_mono [OF scan0])
    fix pid page r
    assume pid: "pid \<in> set pages" and g: "hm_get (buffer_pool am0) pid = Some page"
      and sc: "scan_page page pid (rel_columns rel) ?snap ?gs = Ok r"
    have P: "?P pid = Some page" using g relation_pages_Ok(1) [OF pages] by simp
    obtain p' where p': "hm_get (buffer_pool am2) pid = Some p'" "vac_page (if pid \<in> dn then kill_set KL pid else {}) page p'"
      using vac_invD(1) [OF v pid] P by auto
    show "if pid \<in> set removed then r = [] else \<exists>page'. hm_get (buffer_pool am2) pid = Some page' \<and>
        scan_page page' pid (rel_columns rel) ?snap ?gs = Ok r"
    proof (cases "pid \<in> dn")
      case False
      have "scan_page p' pid (rel_columns rel) ?snap ?gs = Ok r"
      proof (cases "p' = page")
        case True
        then show ?thesis using sc by simp
      next
        case ne: False
        then have h: "heap_ok page" "heap_ok p'" "tuples p' = tuples page |` (- {})" "slot_count p' = slot_count page"
          using p'(2) False by (simp_all add: vac_page_def)
        have "heap_page_inv pid page" using ok pid P heap_not_fresh [OF h(1)] by (auto simp: pool_ok_def rel_page_ok_def)
        then show ?thesis using scan_page_vacuumed [OF h(1,2,3,4) _ _ _ sc] by (simp add: heap_page_inv_def)
      qed
      moreover have "pid \<notin> set removed" using vac_invD(3) [OF v] False by blast
      ultimately show ?thesis using p'(1) by simp
    next
      case True
      then obtain ks where ks: "map_of KL pid = Some ks" unfolding dn by (metis map_of_eq_None_iff not_None_eq)
      then have k: "kill_ok pid page dead ks" using kl map_of_SomeD [OF ks] P by fastforce
      have K: "vac_page (unat ` set ks) page p'" using p'(2) True ks by (simp add: kill_set_def)
      have inv: "heap_page_inv pid page" using k by (simp add: kill_ok_def)
      have sc': "scan_page p' pid (rel_columns rel) ?snap ?gs = Ok r"
        by (rule vac_scan_page [OF inv k K _ sc]) (use invis P in auto)
      have "r = []" if rem: "pid \<in> set removed"
      proof -
        have "tuples p' = Map.empty"
          using vac_page_heap [OF K heap_page_invD(1) [OF inv]] vac_invD(4) [OF v rem P] ks
          by (intro ext) (auto simp: restrict_map_def kill_set_def tuples_def)
        then show ?thesis using scan_page_empty sc' vac_page_heap [OF K heap_page_invD(1) [OF inv]] by force
      qed
      then show ?thesis using p'(1) sc' by simp
    qed
  qed
  moreover have "relation_pages rel am2 = (Ok (filter (\<lambda>p. p \<notin> set removed) pages), am2)"
    using vac_invD(2) [OF v] by (simp add: relation_pages_def)
  ultimately show ?thesis by (simp add: heap_scan_def sbind_def)
qed

theorem vacuum_preserves_scans_witness:
  "\<exists>p am1 am2. scan_dead_tuples vac_rel 2 (clog_get_state (clog (mgr txn_ex1))) (vac_am p) = (Ok [\<lparr>page_id = 9, slot_id = 0\<rparr>], am1) \<and>
     reclaim vac_env vac_rel [\<lparr>page_id = 9, slot_id = 0\<rparr>] am1 = (Ok (), am2) \<and>
     heap_scan vac_rel ((hd (taken txn_ex2))\<lparr>curcid := 0\<rparr>) (clog_get_state (clog (mgr txn_ex2))) am2 = (Ok [], am2)"
proof -
  let ?snap = "hd (taken txn_ex2)" and ?gs1 = "clog_get_state (clog (mgr txn_ex1))" and ?gs2 = "clog_get_state (clog (mgr txn_ex2))"
  obtain p h where v: "vac_page_of p h" using vac_page_exists by blast
  then have h: "t_xmin h = 1" "visibility_xmax h = 1" using vac_header [of h] by (simp_all add: vac_page_of_def)
  note f = vac_page_facts [OF v]
  have g: "?gs1 1 = Committed" "?gs2 1 = Committed" "oldest_snapshot_xmin (mgr txn_ex1) = 2" "?gs2 (current_xid ?snap) = InProgress"
    "?snap \<in> set (taken txn_ex2)"
    by (simp_all add: txn_ex_eval oldest_snapshot_xmin_def)
  have "\<not> header_visible ?gs2 (?snap\<lparr>curcid := 0\<rparr>) h"
    using g(2) by (simp add: header_visible_def h is_visible_def txn_ex_eval)
  note r = vac_runs(3) [of p h ?gs2 2, OF v g(2) _ this] vac_runs(1,2) [of p h ?gs1 2, OF v g(1)]
  obtain am2 where am2: "reclaim vac_env vac_rel [\<lparr>page_id = 9, slot_id = 0\<rparr>] ((vac_am p)\<lparr>rel_pages := [(1, [9])]\<rparr>) = (Ok (), am2)"
    using r(3) by auto
  have "heap_scan vac_rel (?snap\<lparr>curcid := 0\<rparr>) ?gs2 am2 = (Ok [], am2)"
    by (rule vacuum_preserves_scans [OF txn_ex_init txn_ex1_run txn_ex2_run g(5,4) f(5,7) _ am2])
      (use r(1,2) g(3) in simp_all)
  then show ?thesis using am2 r(2) by auto
qed

text \<open>
  C6. Vacuum keeps the page chain.  If the chain on disk is the page list in memory before a vacuum, it is
  so afterwards, also when several neighbouring pages become empty and are spliced out in the order
  of their page numbers; the first page stays the head and no page joins.
\<close>

theorem reclaim_keeps_chain:
  assumes pages: "relation_pages rel am = (Ok pages, am0)" and built: "rel_built (buffer_pool am) pages"
    and disk: "seed_loop (buffer_pool am) [] (first_page rel) = Ok pages"
    and dead: "scan_dead_tuples rel oldest gs am = (Ok dead, am1)" and rec: "reclaim ops rel dead am1 = (Ok u, am2)"
  shows "\<exists>pages'. relation_pages rel am2 = (Ok pages', am2) \<and>
    seed_loop (buffer_pool am2) [] (first_page rel) = Ok pages' \<and> set pages' \<subseteq> set pages \<and> hd pages' = first_page rel"
proof -
  obtain rest where r: "pages = first_page rel # rest" "linked (buffer_pool am) pages" "distinct pages"
    using seed_loop_linked [OF disk] by auto
  obtain KL dn removed where v: "vac_inv (hm_get (buffer_pool am)) KL pages (rel_oid rel) (linked (buffer_pool am) pages) dn removed am2"
    and "dn = fst ` set KL"
    by (rule vacuum_effect [OF pages rel_built_ok [OF built] dead rec])
  let ?f = "filter (\<lambda>p. p \<notin> set removed)"
  have f: "?f pages = first_page rel # ?f rest" using vac_invD(6) [OF v] r(1) by simp
  have l: "linked (buffer_pool am2) (first_page rel # ?f rest)" using vac_invD(5) [OF v r(2)] f by simp
  have "distinct (?f pages)" using r(3) by simp
  then have "seed_loop (buffer_pool am2) [] (first_page rel) = Ok (?f pages)"
    using linked_seed_loop [OF l, of "[]"] f by simp
  moreover have "relation_pages rel am2 = (Ok (?f pages), am2)" using vac_invD(2) [OF v] by (simp add: relation_pages_def)
  ultimately show ?thesis using f r(1) by auto
qed


theorem reclaim_keeps_chain_witness:
  "\<exists>p am1 am2. scan_dead_tuples vac_rel 2 (\<lambda>_. Committed) (vac_am p) = (Ok [\<lparr>page_id = 9, slot_id = 0\<rparr>], am1) \<and>
     reclaim vac_env vac_rel [\<lparr>page_id = 9, slot_id = 0\<rparr>] am1 = (Ok (), am2) \<and>
     (\<exists>pages'. seed_loop (buffer_pool am2) [] 9 = Ok pages' \<and> set pages' \<subseteq> {9} \<and> hd pages' = 9)"
proof -
  obtain p h where v: "vac_page_of p h" using vac_page_exists by blast
  note f = vac_page_facts [OF v] and r = vac_runs(1,2) [of p h "\<lambda>_. Committed" 2, OF v]
  obtain am2 where am2: "reclaim vac_env vac_rel [\<lparr>page_id = 9, slot_id = 0\<rparr>] ((vac_am p)\<lparr>rel_pages := [(1, [9])]\<rparr>) = (Ok (), am2)"
    using r(2) by auto
  have d: "scan_dead_tuples vac_rel 2 (\<lambda>_. Committed) (vac_am p) = (Ok [\<lparr>page_id = 9, slot_id = 0\<rparr>], (vac_am p)\<lparr>rel_pages := [(1, [9])]\<rparr>)"
    using r(1) by simp
  have "first_page vac_rel = 9" by (simp add: vac_rel_def)
  then show ?thesis using reclaim_keeps_chain [OF f(5,7,6) d am2] d am2 by auto
qed

end
