(* ===== verification/Spec2Isabelle.thy ===== *)
theory Spec2Isabelle
  imports Deadlock Btree_Redo Clog_Buffer Heap_Vacuum
begin

text \<open>
  A verification library for the transactional storage engine under \<^verbatim>\<open>src/crates\<close>: transactions and
  snapshots (\<^verbatim>\<open>pg-txn\<close>), table locks and deadlock detection (\<^verbatim>\<open>pg-txn\<close>), pages and files (\<^verbatim>\<open>pg-storage\<close>), the
  commit log (\<^verbatim>\<open>pg-txn\<close>), the heap access method (\<^verbatim>\<open>pg-am-heap\<close>) and the pages, splits and redo of the
  B+Tree (\<^verbatim>\<open>pg-am-btree\<close>).  This theory gathers the others; the properties stand in the theory of the
  component they are about.

  \<^bold>\<open>How the parts interact.\<close>  A transaction takes an XID from the transaction manager, which records its
  outcome in the commit log after the WAL record of the outcome is durable.  A statement runs under a
  snapshot; the visibility judgment decides from the commit log and the snapshot which tuple versions
  it sees.  Tuple versions live in slotted pages of the heap, linked within a page by HOT chains and
  across pages by a chain of pages.  Writers of a row meet in the row-lock gate and wait in the
  transaction manager, writers of a table in the lock manager; the deadlock detector watches both.
  Vacuum removes versions below the horizon the transaction manager derives from the live snapshots.
  The B+Tree stores its sorted entries in the same page format; its splits are logged in three steps
  that recovery can replay.

  \<^bold>\<open>Conventions.\<close>  A \<^verbatim>\<open>u64\<close> newtype is a 64-bit word and its arithmetic wraps; a page is the list of its
  8192 bytes.  The B+Tree pages are those of a debug build, where a failing assertion panics.  A \<^verbatim>\<open>HashMap\<close> is an association list without duplicate keys.  A fallible
  function returns \<open>Ok\<close>, \<open>Err\<close> or \<open>Panic\<close>, so a failed slice, index or \<^verbatim>\<open>expect\<close> is a value; stateful code
  passes its state explicitly and keeps what it changed when it fails.  Error messages are dropped
  from the error enumerations.  Code outside \<^verbatim>\<open>src\<close>, such as the serialization library, is a
  parameter of the definitions that call it.  A function that sleeps on a condition variable is
  modelled by one pass between two sleeps, and concurrency by step relations whose steps are the
  critical sections of the code.

  \<^bold>\<open>Theories.\<close>

  \<^item> \<open>Ams_Prelude\<close>: machine integers and newtypes (\<^verbatim>\<open>pg-storage/src/types.rs\<close>), outcomes, hash maps, byte
    slices and little-endian codecs, and the locale \<open>step_invariant\<close> that lifts an invariant of a step
    relation to its reachable states.  Every step relation below interprets it.

  \<^item> \<open>Txn_Visibility\<close>: commit-log interface and in-memory log (\<^verbatim>\<open>clog.rs\<close>, \<^verbatim>\<open>clog_mem.rs\<close>), snapshots
    (\<^verbatim>\<open>snapshot.rs\<close>) and both visibility routines (\<^verbatim>\<open>visibility.rs\<close>).  The locale \<open>clog_accessor\<close> is the
    trait \<^verbatim>\<open>ClogAccessor\<close>, interpreted on the in-memory log.  The lemmas show that the two routines agree
    and when a transaction sees its own writes.

  \<^item> \<open>Txn_Manager\<close>: \<^verbatim>\<open>manager.rs\<close> and the XID clock.  The critical sections of \<^verbatim>\<open>begin\<close>, \<^verbatim>\<open>end_txn\<close>,
    \<^verbatim>\<open>take_snapshot\<close> and the drop of a snapshot guard are the steps of \<open>txn_step\<close>.  The lemmas show
    snapshot isolation along every interleaving, finality of outcomes, the order of logging and state
    change at commit, exactness of the snapshot registry and safety of the vacuum horizon.  A run never
    begins a transaction at the last XID, where the clock would wrap.

  \<^item> \<open>Lock_Manager\<close>: \<^verbatim>\<open>lock_manager.rs\<close>, one pass of \<^verbatim>\<open>acquire\<close> at a time.  Granted locks never conflict, the
    head of a queue waits for a real holder, nobody overtakes a waiter it conflicts with.

  \<^item> \<open>Deadlock\<close>: \<^verbatim>\<open>deadlock.rs\<close>.  The iterative depth-first search is a terminating function; it reports
    cycles exactly when there are any, a detection round marks only members of confirmed cycles and
    leaves a marked member in every round that finds one.

  \<^item> \<open>Storage_File\<close>, \<open>Clog_File\<close>, \<open>Clog_Buffer\<close>: positional files with failing calls and crashes
    (\<^verbatim>\<open>positioned_file.rs\<close>), the segment files of the commit log (\<^verbatim>\<open>clog_file.rs\<close>) and its clock-sweep
    cache with redo (\<^verbatim>\<open>clog_buffer.rs\<close>, \<^verbatim>\<open>pg-txn/src/redo.rs\<close>).  The cache refines a map from XIDs to
    states under evictions, input and output errors, crashes and restarts; what a checkpoint flushed
    and the records since then restore every state.  A crash keeps any of the bytes that were written and
    not synced.  A read or write that panics ends the process: a run continues after it with a crash and
    a restart.  The victim search is a \<open>partial_function\<close> and is
    proved to return.

  \<^item> \<open>Page_Format\<close>, \<open>Slotted_Page\<close>: the page header and line pointers (\<^verbatim>\<open>page.rs\<close>, \<^verbatim>\<open>line_pointer.rs\<close>) and every
    operation of the slotted page (\<^verbatim>\<open>slotted_page.rs\<close>) on its bytes.  The abstraction is a finite map
    from slots to tuples; the locale \<open>tuple_store\<close> states its laws.  Insertion and compaction refine
    updates of that map, and no debug assertion fires along any run.

  \<^item> \<open>Heap_Tuple\<close>: the tuple codec (\<^verbatim>\<open>tuple.rs\<close>, \<^verbatim>\<open>toast.rs\<close>) with UTF-8 checking.  Decoding inverts
    encoding and never panics on arbitrary bytes.

  \<^item> \<open>Heap_Page\<close>: what \<^verbatim>\<open>heap_am.rs\<close> does with one pinned page: stamps, HOT chains, the scan of a page,
    dead tuples and their classification.  The step relation \<open>heap_page_step\<close> keeps the links of a page
    acyclic and within the page, so the chain walks, bounded by the slot count as in the code, always
    end and find what they should.

  \<^item> \<open>Heap_Am\<close>: the access method itself, with the record \<open>HeapAM\<close> for the struct: page lists, insertion,
    scan, the row-lock gate and the share-lock registry, delete, update, row locks and vacuum.  The
    buffer pool appears as the images it serves; the WAL writer and the page allocator are parameters.

  \<^item> \<open>Heap_Vacuum\<close>: vacuum composed with the transaction manager.  No scan by a live snapshot changes its
    result, and the chain of pages on disk stays the page list in memory.

  \<^item> \<open>Btree_Key\<close>, \<open>Btree_Page\<close>, \<open>Btree_Node\<close>: the order-preserving key encoding (\<^verbatim>\<open>key.rs\<close>), the operations of the
    B+Tree page (\<^verbatim>\<open>page.rs\<close>) and the searches and split decisions of \<^verbatim>\<open>index.rs\<close>.  Page operations refine
    list operations on the sorted entries (locale \<open>entry_array\<close>), and no assertion fires along any run of
    them; on a page with at least two entries a split finds a split point that leaves room for the
    pending entry, and a page with fewer is refused.

  \<^item> \<open>Btree_Redo\<close>: the logged steps of a split and the redo handlers (\<^verbatim>\<open>pg-am-btree/src/redo.rs\<close>).  Replaying a
    record over any combination of old and new page images that the flush order allows gives the
    images of the running system; the Copy step itself puts the right page on disk first.  A leaf emptied
    by deletes can refuse both an insert and the split the insert asks for.

  \<^bold>\<open>Bounds and fuel.\<close>  The walks along HOT chains carry the bound of the code, the slot count of the
  page; no other fuel is used.  Loops over slots, pages and entries are structural; the walk along the page
  chain ends because the pool is finite and a repeated page is an error.

  \<^bold>\<open>Not modelled.\<close>  The buffer pool's frames, eviction and latches: the models see the images it serves, and
  a latch is a step boundary.  The WAL writer, reader and segments, the page allocator, superblock,
  checkpoints and the analysis phase: they are parameters here, and their on-disk formats depend on
  third-party serialization and checksum packages.  The replay of heap records, the latch-coupled descent
  and restart protocol of the B+Tree, its bulk load and its undo driver.  The vector index
  (\<^verbatim>\<open>pg-am-hnsw\<close>), which computes with floating-point distances, and its storage format.  The engine,
  catalog and wire protocol, which orchestrate the parts above over a third-party SQL parser and
  network runtime.  Thread start and stop, statistics, command-line tools and configuration.
\<close>

end
